(* ===== verification/Prelude.thy ===== *)
theory Prelude
  imports "HOL-Library.Word" "HOL-Library.Sublist" "HOL-Library.List_Lexorder"
begin

text \<open>
  Shared vocabulary of the development: the machine types of the Rust code, the
  outcome of a computation that may panic or run into undefined behaviour, the slice
  and array primitives of the standard library that the source uses, and the algebra
  of association lists that are strictly sorted by key byte (the abstract value of
  every inner node).

  \<^item> \<open>u8\<close>, \<open>u16\<close>, \<open>u32\<close> are words of their width; \<open>usize\<close> lengths, indices and
    depths are \<open>nat\<close> (no slice of a Rust program is longer than \<open>isize::MAX\<close> bytes,
    so a \<open>usize\<close> computed from them does not wrap).
  \<^item> Arithmetic on the fixed-width header fields is checked, as it is in a build with
    overflow checks: an overflow is the outcome \<open>Panic\<close>.  Every theorem that concludes
    \<open>Ret\<close> therefore also holds of a build without the checks.
\<close>

unbundle bit_operations_syntax

section \<open>Machine types\<close>

type_synonym byte = "8 word"
type_synonym u16 = "16 word"
type_synonym u32 = "32 word"
type_synonym bytes = "byte list"

named_theorems outcome_simps
named_theorems slice_simps

section \<open>Outcomes: return, panic, undefined behaviour, no fuel left\<close>

text \<open>
  \<open>Panic\<close> is a Rust panic (failed \<open>assert!\<close>, \<open>expect\<close>, \<open>unreachable!\<close>, slice index out
  of range, arithmetic overflow); \<open>UB\<close> is undefined behaviour: a false \<open>assume!\<close>, a
  read of an uninitialised slot, a dangling or wrongly typed pointer; \<open>NoFuel\<close> is the
  bound of a modelled loop running out.
\<close>

datatype 'a outcome = Ret 'a | Panic | UB | NoFuel

fun and_then :: "'a outcome \<Rightarrow> ('a \<Rightarrow> 'b outcome) \<Rightarrow> 'b outcome" where
  "and_then (Ret x) f = f x"
| "and_then Panic f = Panic"
| "and_then UB f = UB"
| "and_then NoFuel f = NoFuel"

definition assume_that :: "bool \<Rightarrow> unit outcome" where
  "assume_that c = (if c then Ret () else UB)"

definition assert_that :: "bool \<Rightarrow> unit outcome" where
  "assert_that c = (if c then Ret () else Panic)"

definition unwrap :: "'a option \<Rightarrow> 'a outcome" where
  "unwrap x = (case x of Some y \<Rightarrow> Ret y | None \<Rightarrow> Panic)"

definition unwrap_unchecked :: "'a option \<Rightarrow> 'a outcome" where
  "unwrap_unchecked x = (case x of Some y \<Rightarrow> Ret y | None \<Rightarrow> UB)"

lemma and_then_eq_Ret_iff [outcome_simps]:
  "and_then m f = Ret y \<longleftrightarrow> (\<exists>x. m = Ret x \<and> f x = Ret y)"
  by (cases m) auto

lemma and_then_assoc: "and_then (and_then m f) g = and_then m (\<lambda>x. and_then (f x) g)"
  by (cases m) auto

lemma and_then_cong [fundef_cong]:
  "m = m' \<Longrightarrow> (\<And>x. m' = Ret x \<Longrightarrow> f x = g x) \<Longrightarrow> and_then m f = and_then m' g"
  by (cases m') auto

lemma assume_that_simps [simp]:
  "assume_that True = Ret ()" "assume_that False = UB"
  "assume_that c = Ret u \<longleftrightarrow> c"
  by (auto simp: assume_that_def)

lemma assert_that_simps [simp]:
  "assert_that True = Ret ()" "assert_that False = Panic"
  "assert_that c = Ret u \<longleftrightarrow> c"
  by (auto simp: assert_that_def)

lemma assume_then [simp]: "c \<Longrightarrow> and_then (assume_that c) f = f ()"
  by (simp add: assume_that_def)

lemma assert_then [simp]: "c \<Longrightarrow> and_then (assert_that c) f = f ()"
  by (simp add: assert_that_def)

lemma unwrap_simps [simp]:
  "unwrap (Some x) = Ret x" "unwrap None = Panic"
  "unwrap_unchecked (Some x) = Ret x" "unwrap_unchecked None = UB"
  by (simp_all add: unwrap_def unwrap_unchecked_def)

section \<open>Arrays, slices and possibly uninitialised slots\<close>

text \<open>
  An array \<open>[T; N]\<close> is a list of length \<open>N\<close>.  A slot of type \<open>MaybeUninit<T>\<close> is an
  \<open>option\<close>: \<open>None\<close> is a slot that was never written.
\<close>

definition index_at :: "'a list \<Rightarrow> nat \<Rightarrow> 'a outcome" where
  "index_at xs i = (if i < length xs then Ret (xs ! i) else Panic)"

definition get_unchecked :: "'a list \<Rightarrow> nat \<Rightarrow> 'a outcome" where
  "get_unchecked xs i = (if i < length xs then Ret (xs ! i) else UB)"

definition store_at :: "'a list \<Rightarrow> nat \<Rightarrow> 'a \<Rightarrow> 'a list outcome" where
  "store_at xs i x = (if i < length xs then Ret (xs[i := x]) else Panic)"

definition slice_range :: "'a list \<Rightarrow> nat \<Rightarrow> nat \<Rightarrow> 'a list outcome" where
  "slice_range xs i j = (if i \<le> j \<and> j \<le> length xs then Ret (take (j - i) (drop i xs)) else Panic)"

definition copy_within :: "'a list \<Rightarrow> nat \<Rightarrow> nat \<Rightarrow> nat \<Rightarrow> 'a list outcome" where
  "copy_within xs i j dest =
     (if i \<le> j \<and> j \<le> length xs \<and> dest + (j - i) \<le> length xs
      then Ret (take dest xs @ take (j - i) (drop i xs) @ drop (dest + (j - i)) xs)
      else Panic)"

definition copy_prefix :: "nat \<Rightarrow> 'a list \<Rightarrow> 'a list \<Rightarrow> 'a list outcome" where
  \<comment> \<open>\<open>dst[..n].copy_from_slice(&src[..n])\<close>\<close>
  "copy_prefix n src dst =
     (if n \<le> length src \<and> n \<le> length dst then Ret (take n src @ drop n dst) else Panic)"

definition overwrite_at :: "'a list \<Rightarrow> nat \<Rightarrow> 'a list \<Rightarrow> 'a list outcome" where
  \<comment> \<open>\<open>dst[i..i + src.len()].copy_from_slice(src)\<close>\<close>
  "overwrite_at dst i src =
     (if i + length src \<le> length dst
      then Ret (take i dst @ src @ drop (i + length src) dst) else Panic)"

fun assume_init_slice :: "'a option list \<Rightarrow> 'a list outcome" where
  "assume_init_slice [] = Ret []"
| "assume_init_slice (None # xs) = UB"
| "assume_init_slice (Some x # xs) = and_then (assume_init_slice xs) (\<lambda>ys. Ret (x # ys))"

fun store_from :: "'a option list \<Rightarrow> nat \<Rightarrow> 'a list \<Rightarrow> 'a option list outcome" where
  \<comment> \<open>\<open>for (i, x) in xs.enumerate() { arr[i].write(x) }\<close>\<close>
  "store_from arr i [] = Ret arr"
| "store_from arr i (x # xs) = and_then (store_at arr i (Some x)) (\<lambda>arr. store_from arr (Suc i) xs)"

lemma index_at_Ret [simp]: "i < length xs \<Longrightarrow> index_at xs i = Ret (xs ! i)"
  by (simp add: index_at_def)

lemma get_unchecked_Ret [simp]: "i < length xs \<Longrightarrow> get_unchecked xs i = Ret (xs ! i)"
  by (simp add: get_unchecked_def)

lemma store_at_Ret [simp]: "i < length xs \<Longrightarrow> store_at xs i x = Ret (xs[i := x])"
  by (simp add: store_at_def)

lemma map_Some_the: "None \<notin> set xs \<Longrightarrow> map Some (map the xs) = xs"
  by (induction xs) auto

lemma assume_init_slice_map_Some [simp]: "assume_init_slice (map Some xs) = Ret xs"
  by (induction xs) auto

lemma store_from_Ret:
  "length arr = length xs + length rest \<Longrightarrow>
    store_from (map Some zs @ arr) (length zs) xs
      = Ret (map Some (zs @ xs) @ drop (length xs) arr)"
proof (induction xs arbitrary: zs arr)
  case (Cons x xs)
  then obtain a arr' where arr: "arr = a # arr'" "length arr' = length xs + length rest"
    by (cases arr) auto
  have "store_from (map Some (zs @ [x]) @ arr') (length (zs @ [x])) xs
      = Ret (map Some ((zs @ [x]) @ xs) @ drop (length xs) arr')"
    by (rule Cons.IH [OF arr(2)])
  then show ?case
    by (simp add: arr(1) list_update_append)
qed simp

lemma assume_init_slice_Ret_iff [outcome_simps]:
  "assume_init_slice xs = Ret ys \<longleftrightarrow> xs = map Some ys"
  by (induction xs arbitrary: ys rule: assume_init_slice.induct) (auto simp: outcome_simps)

lemma nth_map_mid [simp]: "(map f xs @ y # ys) ! length xs = y"
  using nth_append_length [of "map f xs"] by simp

lemma length_copy_within: "copy_within xs i j d = Ret ys \<Longrightarrow> length ys = length xs"
  by (auto simp: copy_within_def split: if_splits)

text \<open>
  Moving a block one slot to the right and overwriting the freed slot inserts into a sorted
  array; moving it one slot to the left deletes from it.
\<close>

lemma insert_by_shift:
  "\<exists>zs'. copy_within (xs @ ys @ z # zs) (length xs) (length xs + length ys) (Suc (length xs)) = Ret zs'
    \<and> length zs' = length (xs @ ys @ z # zs) \<and> zs'[length xs := w] = xs @ w # ys @ zs"
proof (cases ys)
  case Nil
  then show ?thesis by (simp add: copy_within_def)
next
  case (Cons y ys')
  then show ?thesis by (simp add: copy_within_def list_update_append)
qed

lemma delete_by_shift:
  "\<exists>zs'. copy_within (xs @ z # ys @ zs) (Suc (length xs)) (Suc (length xs + length ys)) (length xs)
      = Ret (xs @ ys @ zs') \<and> length zs' = Suc (length zs)"
  by (intro exI [of _ "drop (length ys) (z # ys @ zs)"])
    (simp add: copy_within_def Suc_diff_le)

section \<open>Checked arithmetic of the fixed-width fields\<close>

definition checked_add_u32 :: "u32 \<Rightarrow> u32 \<Rightarrow> u32 outcome" where
  "checked_add_u32 a b = (if unat a + unat b < 2 ^ 32 then Ret (a + b) else Panic)"

definition checked_sub_u32 :: "u32 \<Rightarrow> u32 \<Rightarrow> u32 outcome" where
  "checked_sub_u32 a b = (if unat b \<le> unat a then Ret (a - b) else Panic)"

definition checked_add_u16 :: "u16 \<Rightarrow> u16 \<Rightarrow> u16 outcome" where
  "checked_add_u16 a b = (if unat a + unat b < 2 ^ 16 then Ret (a + b) else Panic)"

definition checked_sub_u16 :: "u16 \<Rightarrow> u16 \<Rightarrow> u16 outcome" where
  "checked_sub_u16 a b = (if unat b \<le> unat a then Ret (a - b) else Panic)"

lemma checked_add_u32_Ret: "checked_add_u32 a b = Ret c \<Longrightarrow> unat c = unat a + unat b"
  by (auto simp: checked_add_u32_def unat_word_ariths split: if_splits)

lemma checked_sub_u32_Ret: "checked_sub_u32 a b = Ret c \<Longrightarrow> unat c = unat a - unat b"
  by (auto simp: checked_sub_u32_def unat_sub word_le_nat_alt split: if_splits)

lemma checked_add_u16_Ret: "checked_add_u16 a b = Ret c \<Longrightarrow> unat c = unat a + unat b"
  by (auto simp: checked_add_u16_def unat_word_ariths split: if_splits)

lemma checked_sub_u16_Ret: "checked_sub_u16 a b = Ret c \<Longrightarrow> unat c = unat a - unat b"
  by (auto simp: checked_sub_u16_def unat_sub word_le_nat_alt split: if_splits)

section \<open>Strictly sorted association lists\<close>

text \<open>
  The children of an inner node, read off its arrays, form a list of pairs of a key byte
  and a child that is strictly increasing in the key byte.  \<open>al_write\<close> inserts or
  overwrites a pair and \<open>al_remove\<close> deletes one.
\<close>

abbreviation sorted_keys :: "('a::linorder \<times> 'b) list \<Rightarrow> bool" where
  "sorted_keys xs \<equiv> sorted_wrt (<) (map fst xs)"

definition al_write :: "'a::linorder \<Rightarrow> 'b \<Rightarrow> ('a \<times> 'b) list \<Rightarrow> ('a \<times> 'b) list" where
  "al_write b p xs =
     takeWhile (\<lambda>x. fst x < b) xs @ (b, p) # dropWhile (\<lambda>x. fst x \<le> b) xs"

definition al_remove :: "'a \<Rightarrow> ('a \<times> 'b) list \<Rightarrow> ('a \<times> 'b) list" where
  "al_remove b xs = filter (\<lambda>x. fst x \<noteq> b) xs"

lemma sorted_keys_distinct: "sorted_keys xs \<Longrightarrow> distinct (map fst xs)"
  by (simp add: strict_sorted_iff)

lemma al_write_Nil [simp]: "al_write b p [] = [(b, p)]"
  by (simp add: al_write_def)

lemma al_write_Cons:
  "sorted_keys (x # xs) \<Longrightarrow> al_write b p (x # xs) =
     (if b < fst x then (b, p) # x # xs
      else if b = fst x then (b, p) # xs
      else x # al_write b p xs)"
proof -
  assume s: "sorted_keys (x # xs)"
  have "dropWhile (\<lambda>y. fst y \<le> b) xs = xs" if "b \<le> fst x"
    using s that by (cases xs) auto
  then show ?thesis
    by (auto simp: al_write_def)
qed

lemma map_of_al_write:
  "sorted_keys xs \<Longrightarrow> map_of (al_write b p xs) = (map_of xs)(b \<mapsto> p)"
  by (induction xs) (auto simp: al_write_Cons fun_eq_iff)

lemma set_al_write:
  "sorted_keys xs \<Longrightarrow> set (al_write b p xs) = insert (b, p) {x \<in> set xs. fst x \<noteq> b}"
  by (induction xs) (auto simp: al_write_Cons)

lemma sorted_al_write: "sorted_keys xs \<Longrightarrow> sorted_keys (al_write b p xs)"
  by (induction xs) (auto simp: al_write_Cons set_al_write)

lemma length_al_write:
  "sorted_keys xs \<Longrightarrow>
    length (al_write b p xs) = (if b \<in> fst ` set xs then length xs else Suc (length xs))"
  by (induction xs) (auto simp: al_write_Cons)

lemma al_write_mid:
  assumes "\<And>x. x \<in> set xs \<Longrightarrow> fst x < b" and "\<And>y. y \<in> set ys \<Longrightarrow> b < fst y"
  shows "al_write b p (xs @ ys) = xs @ (b, p) # ys"
    and "al_write b p (xs @ (b, q) # ys) = xs @ (b, p) # ys"
proof -
  have "dropWhile (\<lambda>x. fst x \<le> b) ys = ys" "takeWhile (\<lambda>x. fst x < b) ys = []"
    using assms(2) by (cases ys; force)+
  moreover have "takeWhile (\<lambda>x. fst x < b) (xs @ zs) = xs @ takeWhile (\<lambda>x. fst x < b) zs"
      "dropWhile (\<lambda>x. fst x \<le> b) (xs @ zs) = dropWhile (\<lambda>x. fst x \<le> b) zs" for zs
    using assms(1) by (auto intro!: takeWhile_append2 dropWhile_append2 less_imp_le)
  ultimately show "al_write b p (xs @ ys) = xs @ (b, p) # ys"
    and "al_write b p (xs @ (b, q) # ys) = xs @ (b, p) # ys"
    by (simp_all add: al_write_def)
qed

lemma al_remove_simps [simp]:
  "al_remove b [] = []"
  "al_remove b (x # xs) = (if fst x = b then al_remove b xs else x # al_remove b xs)"
  by (simp_all add: al_remove_def)

lemma al_remove_append: "al_remove b (xs @ ys) = al_remove b xs @ al_remove b ys"
  by (simp add: al_remove_def)

lemma al_remove_idle: "b \<notin> fst ` set xs \<Longrightarrow> al_remove b xs = xs"
  by (induction xs) auto

lemma map_of_al_remove: "map_of (al_remove b xs) = (map_of xs)(b := None)"
  by (induction xs) (auto simp: fun_eq_iff)

lemma set_al_remove: "set (al_remove b xs) = {x \<in> set xs. fst x \<noteq> b}"
  by (auto simp: al_remove_def)

lemma sorted_al_remove: "sorted_keys xs \<Longrightarrow> sorted_keys (al_remove b xs)"
  by (induction xs) (auto simp: set_al_remove)

lemma length_al_remove:
  "sorted_keys xs \<Longrightarrow>
    length (al_remove b xs) = (if b \<in> fst ` set xs then length xs - 1 else length xs)"
proof (induction xs)
  case (Cons x xs)
  then show ?case
    by (cases "fst x = b") (force simp: al_remove_idle Suc_diff_Suc dest: length_pos_if_in_set)+
qed simp

lemma map_of_SomeI: "sorted_keys xs \<Longrightarrow> (b, p) \<in> set xs \<Longrightarrow> map_of xs b = Some p"
  by (simp add: sorted_keys_distinct)

lemma map_of_eq_Some_iff_mem: "sorted_keys xs \<Longrightarrow> map_of xs b = Some p \<longleftrightarrow> (b, p) \<in> set xs"
  by (simp add: sorted_keys_distinct)

lemma sorted_keys_unique:
  "sorted_keys xs \<Longrightarrow> (b, p) \<in> set xs \<Longrightarrow> (b, q) \<in> set xs \<Longrightarrow> p = q"
  by (metis map_of_SomeI option.inject)

lemma map_of_mid: "b \<notin> fst ` set xs \<Longrightarrow> map_of (xs @ (b, p) # ys) b = Some p"
  by (induction xs) auto

lemma fst_set_zip [simp]: "length ks = length ps \<Longrightarrow> fst ` set (zip ks ps) = set ks"
  by (metis list.set_map map_fst_zip)

lemma map_of_zip_mid:
  "b \<notin> set xs \<Longrightarrow> length ps = length xs \<Longrightarrow>
    map_of (zip (xs @ b # ys) (ps @ q # qs)) b = Some q"
  using map_of_mid [of b "zip xs ps" q "zip ys qs"] by (simp del: map_of_append)

lemma sorted_keys_set_unique:
  assumes "sorted_keys xs" "sorted_keys ys" "set xs = set ys"
  shows "xs = ys"
proof -
  have "inj_on fst (set xs \<union> set ys)"
    using assms by (metis distinct_map sorted_keys_distinct sup.idem)
  with assms show ?thesis
    by (auto simp: strict_sorted_iff intro: map_sorted_distinct_set_unique)
qed

lemma al_split:
  assumes "sorted_keys xs" "(b, p) \<in> set xs"
  obtains ys zs where "xs = ys @ (b, p) # zs" "\<And>q. al_write b q xs = ys @ (b, q) # zs"
    "al_remove b xs = ys @ zs" "b \<notin> fst ` set ys" "b \<notin> fst ` set zs"
proof -
  obtain ys zs where xs: "xs = ys @ (b, p) # zs"
    using assms(2) by (meson split_list)
  have "\<forall>y\<in>set ys. fst y < b" "\<forall>z\<in>set zs. b < fst z"
    using assms(1) by (auto simp: xs sorted_wrt_append)
  moreover from this have "b \<notin> fst ` set ys" "b \<notin> fst ` set zs" by auto
  ultimately show thesis
    using that [of ys zs] al_write_mid(2) [of ys b zs] xs
    by (simp add: al_remove_append al_remove_idle)
qed

lemma al_split_new:
  assumes "sorted_keys xs" "b \<notin> fst ` set xs"
  obtains ys zs where "xs = ys @ zs" "\<And>q. al_write b q xs = ys @ (b, q) # zs"
proof -
  define ys zs where "ys = takeWhile (\<lambda>x. fst x < b) xs" "zs = dropWhile (\<lambda>x. fst x < b) xs"
  have xs: "xs = ys @ zs" by (simp add: ys_zs_def)
  have below: "fst y < b" if "y \<in> set ys" for y
    using that unfolding ys_zs_def(1) by (auto dest: set_takeWhileD)
  have above: "b < fst z" if z: "z \<in> set zs" for z
  proof -
    have "zs \<noteq> []" using z by auto
    then have "b \<le> fst (hd zs)" using hd_dropWhile [of "\<lambda>x. fst x < b" xs] by (auto simp: ys_zs_def)
    moreover have "fst (hd zs) \<le> fst z"
      using assms(1) z xs by (cases zs) (auto simp: sorted_wrt_append)
    moreover have "fst z \<noteq> b" using assms(2) z xs by force
    ultimately show ?thesis by force
  qed
  have "al_write b q xs = ys @ (b, q) # zs" for q
    unfolding xs using below above by (rule al_write_mid(1))
  with xs show thesis by (rule that)
qed

lemma al_remove_al_write:
  assumes "sorted_keys xs" "b \<notin> fst ` set xs"
  shows "al_remove b (al_write b p xs) = xs"
  using assms
  by (intro sorted_keys_set_unique sorted_al_remove sorted_al_write)
    (auto simp: set_al_remove set_al_write image_iff)

section \<open>Common prefixes of byte strings\<close>

definition matching_len :: "'a list \<Rightarrow> 'a list \<Rightarrow> nat" where
  \<comment> \<open>\<open>a.iter().zip(b).take_while(|(a, b)| a == b).count()\<close>\<close>
  "matching_len xs ys = length (takeWhile (\<lambda>(x, y). x = y) (zip xs ys))"

lemma matching_len_simps [simp]:
  "matching_len [] ys = 0" "matching_len xs [] = 0"
  "matching_len (x # xs) (y # ys) = (if x = y then Suc (matching_len xs ys) else 0)"
  by (simp_all add: matching_len_def)

lemma matching_len_le: "matching_len xs ys \<le> length xs" "matching_len xs ys \<le> length ys"
  by (induction xs ys rule: list_induct2') auto

lemma take_matching_len: "take (matching_len xs ys) xs = take (matching_len xs ys) ys"
  by (induction xs ys rule: list_induct2') auto

lemma nth_matching_len:
  "matching_len xs ys < length xs \<Longrightarrow> matching_len xs ys < length ys \<Longrightarrow>
     xs ! matching_len xs ys \<noteq> ys ! matching_len xs ys"
  by (induction xs ys rule: list_induct2') auto

lemma matching_len_full_iff: "matching_len xs ys = length xs \<longleftrightarrow> Sublist.prefix xs ys"
  by (induction xs ys rule: list_induct2') auto

lemma matching_len_append_same: "matching_len (zs @ xs) (zs @ ys) = length zs + matching_len xs ys"
  by (induction zs) auto

lemma matching_len_commute: "matching_len xs ys = matching_len ys xs"
  by (induction xs ys rule: list_induct2') auto

end
