(* ===== verification/Header.thy ===== *)
theory Header
  imports Prelude
begin

text \<open>
  The header shared by all inner nodes (\<open>src/src/nodes/representation/header.rs\<close>): the
  number of children, the length of the compressed path below the parent and the first
  \<open>PREFIX_LEN\<close> bytes of that path.  \<open>PREFIX_LEN\<close> is the length of the array
  \<open>h_prefix\<close>; only the constructors, which have no array yet, take it as an argument.

  The lemmas relate a header to the full compressed path \<open>pf\<close> it stands for
  (\<open>header_repr\<close>): the length field counts all of \<open>pf\<close> and the array holds as many of
  its bytes as fit.  Every operation that the tree uses to split or join paths preserves
  the relation, also when the path is longer than the array.
\<close>

section \<open>State and operations\<close>

record header =
  h_num_children :: u16
  h_prefix_len :: u32
  h_prefix :: bytes

definition header_new :: "nat \<Rightarrow> bytes \<Rightarrow> nat \<Rightarrow> header" where
  "header_new PREFIX_LEN pfx len =
     (let n = min (length pfx) PREFIX_LEN in
      \<lparr>h_num_children = 0, h_prefix_len = of_nat len,
       h_prefix = take n pfx @ drop n (replicate PREFIX_LEN 0)\<rparr>)"

definition header_empty :: "nat \<Rightarrow> header" where
  "header_empty PREFIX_LEN =
     \<lparr>h_num_children = 0, h_prefix_len = 0, h_prefix = replicate PREFIX_LEN 0\<rparr>"

definition prefix_len :: "header \<Rightarrow> nat" where
  "prefix_len h = unat (h_prefix_len h)"

definition capped_prefix_len :: "header \<Rightarrow> nat" where
  "capped_prefix_len h = min (unat (h_prefix_len h)) (length (h_prefix h))"

definition read_prefix :: "header \<Rightarrow> bytes" where
  "read_prefix h = take (capped_prefix_len h) (h_prefix h)"

definition num_children :: "header \<Rightarrow> nat" where
  "num_children h = unat (h_num_children h)"

definition ltrim_by :: "header \<Rightarrow> nat \<Rightarrow> header outcome" where
  "ltrim_by h len =
     and_then (checked_sub_u32 (h_prefix_len h) (of_nat len)) (\<lambda>new_len.
     let h1 = h\<lparr>h_prefix_len := new_len\<rparr>;
         start = len;
         stop = start + capped_prefix_len h1 in
     and_then (assume_that (stop \<le> length (h_prefix h1))) (\<lambda>_.
     and_then (assume_that (start \<le> stop)) (\<lambda>_.
     and_then (copy_within (h_prefix h1) start stop 0) (\<lambda>p.
     Ret (h1\<lparr>h_prefix := p\<rparr>)))))"

definition clear_prefix :: "header \<Rightarrow> (bytes \<times> nat \<times> nat) \<times> header" where
  "clear_prefix h =
     ((h_prefix h, prefix_len h, capped_prefix_len h), h\<lparr>h_prefix_len := 0\<rparr>)"

definition push_prefix :: "header \<Rightarrow> bytes \<Rightarrow> nat \<Rightarrow> header outcome" where
  "push_prefix h new new_len =
     (let start = capped_prefix_len h;
          stop = min (start + length new) (length (h_prefix h));
          len = stop - start in
      and_then (slice_range new 0 len) (\<lambda>src.
      and_then (overwrite_at (h_prefix h) start src) (\<lambda>p.
      and_then (checked_add_u32 (h_prefix_len h) (of_nat new_len)) (\<lambda>total.
      Ret (h\<lparr>h_prefix := p, h_prefix_len := total\<rparr>)))))"

definition inc_num_children :: "header \<Rightarrow> header outcome" where
  "inc_num_children h =
     and_then (checked_add_u16 (h_num_children h) 1) (\<lambda>n. Ret (h\<lparr>h_num_children := n\<rparr>))"

definition dec_num_children :: "header \<Rightarrow> header outcome" where
  "dec_num_children h =
     and_then (checked_sub_u16 (h_num_children h) 1) (\<lambda>n. Ret (h\<lparr>h_num_children := n\<rparr>))"

definition ltrim_by_with_leaf :: "header \<Rightarrow> nat \<Rightarrow> nat \<Rightarrow> bytes \<Rightarrow> header outcome" where
  \<comment> \<open>\<open>leaf_key\<close> is the key of the leaf the pointer argument refers to\<close>
  "ltrim_by_with_leaf h len depth leaf_key =
     and_then (checked_sub_u32 (h_prefix_len h) (of_nat len)) (\<lambda>new_len.
     let h1 = h\<lparr>h_prefix_len := new_len\<rparr>;
         start = depth + len;
         stop = start + capped_prefix_len h1;
         len = stop - start in
     and_then (assume_that (stop \<le> length leaf_key)) (\<lambda>_.
     and_then (assume_that (start \<le> stop)) (\<lambda>_.
     and_then (slice_range leaf_key start stop) (\<lambda>s.
     and_then (slice_range s 0 (min (length s) (length (h_prefix h1)))) (\<lambda>s.
     and_then (assert_that (length s = min len (length (h_prefix h1)))) (\<lambda>_.
     and_then (overwrite_at (h_prefix h1) 0 s) (\<lambda>p.
     Ret (h1\<lparr>h_prefix := p\<rparr>))))))))"

section \<open>The path a header stands for\<close>

definition header_repr :: "header \<Rightarrow> bytes \<Rightarrow> bool" where
  "header_repr h pf \<longleftrightarrow>
     unat (h_prefix_len h) = length pf \<and>
     take (length pf) (h_prefix h) = take (length (h_prefix h)) pf"

lemma header_repr_lengths:
  "header_repr h pf \<Longrightarrow> prefix_len h = length pf"
  "header_repr h pf \<Longrightarrow> capped_prefix_len h = min (length pf) (length (h_prefix h))"
  by (simp_all add: header_repr_def prefix_len_def capped_prefix_len_def)

lemma header_repr_bound:
  assumes "header_repr h pf"
  shows "length pf < 2 ^ 32"
proof -
  have "unat (h_prefix_len h) < 2 ^ LENGTH(32)" by (rule unsigned_less)
  with assms show ?thesis by (simp add: header_repr_def)
qed

lemma read_prefix_repr: "header_repr h pf \<Longrightarrow> read_prefix h = take (length (h_prefix h)) pf"
  by (auto simp: read_prefix_def header_repr_lengths min_def header_repr_def)

lemma header_repr_num_children [simp]:
  "header_repr (h\<lparr>h_num_children := n\<rparr>) pf = header_repr h pf"
  by (simp add: header_repr_def)

lemma unat_of_nat_u32: "n < 2 ^ 32 \<Longrightarrow> unat (of_nat n :: u32) = n"
  by (simp add: unsigned_of_nat take_bit_nat_eq_self)

lemma header_new_repr:
  assumes "take N pfx = take N pf" "length pf < 2 ^ 32"
  shows "header_repr (header_new N pfx (length pf)) pf"
    and "length (h_prefix (header_new N pfx (length pf))) = N"
    and "num_children (header_new N pfx (length pf)) = 0"
proof -
  have *: "min (length pfx) N = min (length pf) N"
    using arg_cong [OF assms(1), of length] by (simp add: min.commute)
  have "take (min (length pf) N) pfx = take N pf"
    using assms(1) * by (metis min.commute take_all_iff take_take min.cobounded2 min_def nle_le)
  then show "header_repr (header_new N pfx (length pf)) pf"
    using assms * by (auto simp: header_repr_def header_new_def Let_def unat_of_nat_u32 min_def)
  show "length (h_prefix (header_new N pfx (length pf))) = N"
    "num_children (header_new N pfx (length pf)) = 0"
    by (simp_all add: header_new_def num_children_def Let_def)
qed

lemma header_empty_repr:
  "header_repr (header_empty N) []" "length (h_prefix (header_empty N)) = N"
  "num_children (header_empty N) = 0"
  by (simp_all add: header_empty_def header_repr_def num_children_def)

lemma inc_num_children_Ret:
  assumes "num_children h < 65535"
  shows "\<exists>n. inc_num_children h = Ret (h\<lparr>h_num_children := n\<rparr>) \<and> unat n = Suc (num_children h)"
  using assms
  by (auto simp: inc_num_children_def checked_add_u16_def num_children_def unat_word_ariths)

lemma dec_num_children_Ret:
  assumes "0 < num_children h"
  shows "\<exists>n. dec_num_children h = Ret (h\<lparr>h_num_children := n\<rparr>) \<and> unat n = num_children h - 1"
  using assms
  by (auto simp: dec_num_children_def checked_sub_u16_def num_children_def unat_sub word_le_nat_alt)

lemma checked_sub_len_Ret:
  assumes "header_repr h pf" "len \<le> length pf"
  shows "\<exists>n. checked_sub_u32 (h_prefix_len h) (of_nat len) = Ret n \<and> unat n = length pf - len"
proof -
  from assms header_repr_bound have u: "unat (of_nat len :: u32) = len"
    by (intro unat_of_nat_u32) (meson le_less_trans)
  with assms show ?thesis
    by (auto simp: checked_sub_u32_def header_repr_def unat_sub word_le_nat_alt)
qed

lemma ltrim_by_repr:
  assumes "header_repr h pf" "len \<le> length pf" "length pf \<le> length (h_prefix h)"
  shows "\<exists>h'. ltrim_by h len = Ret h' \<and> header_repr h' (drop len pf)
    \<and> h_num_children h' = h_num_children h \<and> length (h_prefix h') = length (h_prefix h)"
proof -
  obtain n where n: "checked_sub_u32 (h_prefix_len h) (of_nat len) = Ret n"
      "unat n = length pf - len"
    using checked_sub_len_Ret assms by blast
  have pf: "take (length pf) (h_prefix h) = pf"
    using assms by (simp add: header_repr_def)
  have "take (length pf - len) (drop len (h_prefix h)) = drop len pf"
    using assms(2) pf by (metis drop_take)
  then show ?thesis
    using assms n
    by (auto simp: ltrim_by_def Let_def capped_prefix_len_def copy_within_def header_repr_def)
qed

lemma ltrim_by_with_leaf_repr:
  assumes "header_repr h pf" "len \<le> length pf"
    and "depth + length pf \<le> length k" "take (length pf) (drop depth k) = pf"
  shows "\<exists>h'. ltrim_by_with_leaf h len depth k = Ret h' \<and> header_repr h' (drop len pf)
    \<and> h_num_children h' = h_num_children h \<and> length (h_prefix h') = length (h_prefix h)"
proof -
  obtain n where n: "checked_sub_u32 (h_prefix_len h) (of_nat len) = Ret n"
      "unat n = length pf - len"
    using checked_sub_len_Ret assms by blast
  define N where "N = length (h_prefix h)"
  define m where "m = min (length pf - len) N"
  have "take (length pf - len) (drop len (drop depth k)) = drop len pf"
    using assms(4) by (metis drop_take)
  then have m: "take m (drop (depth + len) k) = take m (drop len pf)"
  proof -
    have "take m (drop (depth + len) k) = take m (take (length pf - len) (drop len (drop depth k)))"
      by (simp add: m_def add.commute)
    also have "\<dots> = take m (drop len pf)"
      by (simp only: \<open>take (length pf - len) (drop len (drop depth k)) = drop len pf\<close>)
    finally show ?thesis .
  qed
  define h1 where "h1 = h\<lparr>h_prefix_len := n\<rparr>"
  have c: "capped_prefix_len h1 = m"
    using n(2) by (simp add: h1_def capped_prefix_len_def m_def N_def)
  have k: "depth + len + m \<le> length k"
    using assms(2,3) by (simp add: m_def)
  let ?s = "take m (drop (depth + len) k)"
  have len_s: "length ?s = m" "m \<le> N" using k by (simp_all add: m_def)
  have r: "ltrim_by_with_leaf h len depth k = Ret (h1\<lparr>h_prefix := ?s @ drop m (h_prefix h)\<rparr>)"
    using n(1) c k len_s
    by (simp add: ltrim_by_with_leaf_def h1_def [symmetric] slice_range_def overwrite_at_def)
      (simp add: h1_def N_def)
  have "header_repr (h1\<lparr>h_prefix := ?s @ drop m (h_prefix h)\<rparr>) (drop len pf)"
  proof (cases "length pf - len \<le> N")
    case True
    then have "m = length pf - len" by (simp add: m_def)
    then show ?thesis
      using True m n(2) len_s by (simp add: header_repr_def h1_def N_def)
  next
    case False
    then have "m = N" by (simp add: m_def)
    then show ?thesis
      using False m n(2) len_s by (simp add: header_repr_def h1_def N_def)
  qed
  with r len_s show ?thesis
    by (simp add: h1_def N_def)
qed

lemma push_prefix_repr:
  assumes "header_repr h pf" "take (length (h_prefix h)) new = take (length (h_prefix h)) full"
    and "length pf + length full < 2 ^ 32"
  shows "\<exists>h'. push_prefix h new (length full) = Ret h' \<and> header_repr h' (pf @ full)
    \<and> h_num_children h' = h_num_children h \<and> length (h_prefix h') = length (h_prefix h)"
proof -
  define N where "N = length (h_prefix h)"
  define s where "s = min (length pf) N"
  have u: "unat (of_nat (length full) :: u32) = length full"
    using assms(3) by (intro unat_of_nat_u32) simp
  have pf: "take s (h_prefix h) = take N pf"
    using assms(1) by (auto simp: header_repr_def s_def N_def min_def)
  define e where "e = min (s + length new) N"
  have se: "s \<le> e" "e \<le> N" by (auto simp: e_def s_def)
  define p where "p = take s (h_prefix h) @ take (e - s) new @ drop e (h_prefix h)"
  have len_new: "min (length new) N = min (length full) N"
    using arg_cong [OF assms(2), of length] by (simp add: N_def min.commute)
  have e': "e = min (length (pf @ full)) N"
    using len_new by (auto simp: e_def s_def min_def split: if_splits)
  have new': "take (e - s) new = take (e - s) full"
    using assms(2) se by (metis N_def diff_le_self min.absorb1 order_trans take_take)
  have tk: "take (length (pf @ full)) p = take N (pf @ full)"
  proof (cases "length pf < N")
    case True
    then have s: "s = length pf" by (simp add: s_def)
    have "length (take (e - s) new) = e - s"
      using se by (auto simp: e_def)
    then show ?thesis
      using True pf e' new' se s by (auto simp: p_def min_def N_def)
  next
    case False
    then have "s = N" "e = N" using se by (auto simp: s_def)
    then show ?thesis using False pf by (simp add: p_def N_def)
  qed
  have lp: "length p = N"
    using se by (auto simp: p_def N_def e_def)
  let ?h = "h\<lparr>h_prefix := p, h_prefix_len := h_prefix_len h + of_nat (length full)\<rparr>"
  have "push_prefix h new (length full)
      = Ret (h\<lparr>h_prefix := p, h_prefix_len := h_prefix_len h + of_nat (length full)\<rparr>)"
  proof -
    have c: "capped_prefix_len h = s"
      using assms(1) by (simp add: header_repr_lengths s_def N_def)
    have e: "min (s + length new) N = e"
      by (simp add: e_def)
    have "unat (h_prefix_len h) = length pf"
      using assms(1) by (simp add: header_repr_def)
    then have "checked_add_u32 (h_prefix_len h) (of_nat (length full))
        = Ret (h_prefix_len h + of_nat (length full))"
      using assms(3) u by (simp add: checked_add_u32_def)
    moreover have "e - s \<le> length new" by (simp add: e_def)
    ultimately show ?thesis
      using se by (simp add: push_prefix_def Let_def c e slice_range_def overwrite_at_def p_def N_def [symmetric])
  qed
  moreover have "unat (h_prefix_len h + of_nat (length full)) = length (pf @ full)"
    using assms(1,3) u by (simp add: header_repr_def unat_word_ariths(1))
  then have "header_repr ?h (pf @ full)"
    unfolding header_repr_def using tk lp by simp
  ultimately show ?thesis
    using lp by (intro exI [of _ ?h]) (simp add: N_def)
qed

lemma clear_prefix_repr:
  assumes "header_repr h pf" "clear_prefix h = ((old, len, capped), h')"
  shows "header_repr h' []" "len = length pf" "h_num_children h' = h_num_children h"
    "length (h_prefix h') = length (h_prefix h)"
    "take capped old = take (length (h_prefix h)) pf"
  using assms read_prefix_repr [OF assms(1)]
  by (auto simp: clear_prefix_def header_repr_def prefix_len_def read_prefix_def)

end
