(* ===== verification/Node_Type.thy ===== *)
theory Node_Type
  imports Header
begin

text \<open>
  The node kinds of \<open>src/src/nodes/representation.rs\<close> (\<open>NodeType\<close>) with their capacities,
  and the contract every kind of inner node has (the trait \<open>InnerNode\<close>), as a locale over
  the operations the tree algorithms call.  The theories of the node kinds interpret it.
\<close>

section \<open>Node kinds\<close>

datatype node_type = Node4 | Node16 | Node48 | Node256 | LeafKind

instantiation node_type :: linorder
begin

definition node_type_code :: "node_type \<Rightarrow> nat" where
  "node_type_code t = (case t of Node4 \<Rightarrow> 0 | Node16 \<Rightarrow> 1 | Node48 \<Rightarrow> 2 | Node256 \<Rightarrow> 3 | LeafKind \<Rightarrow> 4)"

definition less_eq_node_type :: "node_type \<Rightarrow> node_type \<Rightarrow> bool" where
  "less_eq_node_type s t \<longleftrightarrow> node_type_code s \<le> node_type_code t"

definition less_node_type :: "node_type \<Rightarrow> node_type \<Rightarrow> bool" where
  "less_node_type s t \<longleftrightarrow> node_type_code s < node_type_code t"

instance
  by standard
    (auto simp: less_eq_node_type_def less_node_type_def node_type_code_def split: node_type.splits)

end

definition node_type_as_u8 :: "node_type \<Rightarrow> byte" where
  "node_type_as_u8 t = of_nat (node_type_code t)"

definition from_u8 :: "byte \<Rightarrow> node_type outcome" where
  "from_u8 src =
     (if src = 0 then Ret Node4 else if src = 1 then Ret Node16 else if src = 2 then Ret Node48
      else if src = 3 then Ret Node256 else if src = 4 then Ret LeafKind else UB)"

fun upper_capacity :: "node_type \<Rightarrow> nat" where
  "upper_capacity Node4 = 4"
| "upper_capacity Node16 = 16"
| "upper_capacity Node48 = 48"
| "upper_capacity Node256 = 256"
| "upper_capacity LeafKind = 0"

fun should_shrink_inner_node :: "node_type \<Rightarrow> nat \<Rightarrow> bool outcome" where
  "should_shrink_inner_node Node4 n = Ret False"
| "should_shrink_inner_node Node16 n = Ret (n \<le> 4)"
| "should_shrink_inner_node Node48 n = Ret (n \<le> 16)"
| "should_shrink_inner_node Node256 n = Ret (n \<le> 48)"
| "should_shrink_inner_node LeafKind n = Panic"

fun capacity_range :: "node_type \<Rightarrow> nat \<times> nat" where
  \<comment> \<open>a half-open \<open>Range { start, end }\<close>\<close>
  "capacity_range Node4 = (1, 5)"
| "capacity_range Node16 = (5, 17)"
| "capacity_range Node48 = (17, 49)"
| "capacity_range Node256 = (49, 256)"
| "capacity_range LeafKind = (0, 0)"

lemma from_u8_as_u8 [simp]: "from_u8 (node_type_as_u8 t) = Ret t"
  by (cases t) (simp_all add: from_u8_def node_type_as_u8_def node_type_code_def)

lemma node_type_as_u8_bound: "unat (node_type_as_u8 t) < 8"
  by (cases t) (simp_all add: node_type_as_u8_def node_type_code_def)

text \<open>
  The number of children each kind has in a tree the library builds: a kind is left by
  growing when it is full and by shrinking when the next smaller kind would be full.
\<close>

fun lower_bound :: "node_type \<Rightarrow> nat" where
  "lower_bound Node4 = 2"
| "lower_bound Node16 = 5"
| "lower_bound Node48 = 17"
| "lower_bound Node256 = 49"
| "lower_bound LeafKind = 1"

definition in_range :: "node_type \<Rightarrow> nat \<Rightarrow> bool" where
  "in_range t n \<longleftrightarrow> lower_bound t \<le> n \<and> n \<le> upper_capacity t"

lemma in_range_ge2: "in_range t n \<Longrightarrow> 2 \<le> n"
  by (cases t) (auto simp: in_range_def)

section \<open>The contract of an inner node\<close>

definition same_path :: "header \<Rightarrow> header \<Rightarrow> bool" where
  "same_path h h' \<longleftrightarrow> h_prefix_len h' = h_prefix_len h \<and> h_prefix h' = h_prefix h"

lemma same_path_refl [simp]: "same_path h h"
  by (simp add: same_path_def)

lemma same_path_trans: "same_path h h' \<Longrightarrow> same_path h' h'' \<Longrightarrow> same_path h h''"
  by (simp add: same_path_def)

lemma same_path_num [simp]:
  "same_path h (h'\<lparr>h_num_children := n\<rparr>) = same_path h h'"
  "same_path (h\<lparr>h_num_children := n\<rparr>) h' = same_path h h'"
  by (simp_all add: same_path_def)

lemma header_repr_same_path:
  "same_path h h' \<Longrightarrow> header_repr h' pf = header_repr h pf"
  "same_path h h' \<Longrightarrow> length (h_prefix h') = length (h_prefix h)"
  by (simp_all add: same_path_def header_repr_def)

text \<open>
  \<open>children n\<close> is the abstract value of a node: its pairs of key byte and child pointer,
  strictly increasing in the byte.  Each operation is total on a node that satisfies the
  invariant (no panic, no undefined behaviour) and acts on the abstract value as stated.
\<close>

locale inner_node =
  fixes inv :: "'n \<Rightarrow> bool"
    and header :: "'n \<Rightarrow> header"
    and children :: "'n \<Rightarrow> (byte \<times> 'p) list"
    and capacity :: "'n \<Rightarrow> nat"
    and lookup_child :: "'n \<Rightarrow> byte \<Rightarrow> 'p option outcome"
    and write_child :: "'n \<Rightarrow> byte \<Rightarrow> 'p \<Rightarrow> 'n outcome"
    and remove_child :: "'n \<Rightarrow> byte \<Rightarrow> ('p option \<times> 'n) outcome"
    and iter :: "'n \<Rightarrow> (byte \<times> 'p) list outcome"
    and min_child :: "'n \<Rightarrow> (byte \<times> 'p) outcome"
    and max_child :: "'n \<Rightarrow> (byte \<times> 'p) outcome"
  assumes children_sorted: "inv n \<Longrightarrow> sorted_keys (children n)"
    and children_count: "inv n \<Longrightarrow> num_children (header n) = length (children n)"
    and children_fit: "inv n \<Longrightarrow> length (children n) \<le> capacity n"
    and lookup_spec: "inv n \<Longrightarrow> lookup_child n b = Ret (map_of (children n) b)"
    and write_spec: "inv n \<Longrightarrow> b \<in> fst ` set (children n) \<or> length (children n) < capacity n \<Longrightarrow>
      \<exists>n'. write_child n b p = Ret n' \<and> inv n' \<and> children n' = al_write b p (children n)
        \<and> same_path (header n) (header n') \<and> capacity n' = capacity n"
    and remove_spec: "inv n \<Longrightarrow>
      \<exists>n'. remove_child n b = Ret (map_of (children n) b, n') \<and> inv n'
        \<and> children n' = al_remove b (children n)
        \<and> same_path (header n) (header n') \<and> capacity n' = capacity n"
    and iter_spec: "inv n \<Longrightarrow> iter n = Ret (children n)"
    and min_spec: "inv n \<Longrightarrow> children n \<noteq> [] \<Longrightarrow> min_child n = Ret (hd (children n))"
    and max_spec: "inv n \<Longrightarrow> children n \<noteq> [] \<Longrightarrow> max_child n = Ret (last (children n))"
begin

lemma lookup_after_write:
  assumes "inv n" "b \<in> fst ` set (children n) \<or> length (children n) < capacity n"
  shows "\<exists>n'. write_child n b p = Ret n' \<and> inv n' \<and>
    (\<forall>c. lookup_child n' c = Ret (if c = b then Some p else map_of (children n) c))"
proof -
  obtain n' where "write_child n b p = Ret n'" "inv n'" "children n' = al_write b p (children n)"
    using write_spec [OF assms] by blast
  then show ?thesis
    using assms(1) by (auto simp: lookup_spec map_of_al_write children_sorted)
qed

lemma lookup_after_remove:
  assumes "inv n"
  shows "\<exists>n'. remove_child n b = Ret (map_of (children n) b, n') \<and> inv n' \<and>
    (\<forall>c. lookup_child n' c = Ret (if c = b then None else map_of (children n) c))"
proof -
  obtain n' where "remove_child n b = Ret (map_of (children n) b, n')" "inv n'"
      "children n' = al_remove b (children n)"
    using remove_spec [OF assms] by blast
  then show ?thesis
    using assms by (auto simp: lookup_spec map_of_al_remove)
qed

lemma remove_after_write:
  assumes "inv n" "b \<notin> fst ` set (children n)" "length (children n) < capacity n"
  shows "\<exists>n' n''. write_child n b p = Ret n' \<and> remove_child n' b = Ret (Some p, n'')
    \<and> inv n'' \<and> children n'' = children n"
proof -
  obtain n' where n': "write_child n b p = Ret n'" "inv n'"
      "children n' = al_write b p (children n)"
    using write_spec assms by blast
  obtain n'' where n'': "remove_child n' b = Ret (map_of (children n') b, n'')" "inv n''"
      "children n'' = al_remove b (children n')"
    using remove_spec [OF n'(2)] by blast
  have "sorted_keys (children n)"
    using assms children_sorted by blast
  then show ?thesis
    using n' n'' assms(2) by (auto simp: map_of_al_write al_remove_al_write)
qed

end

end
