(* ===== verification/Slots.thy ===== *)
theory Slots
  imports Node_Type
begin

text \<open>
  What the node kinds share: bounds of key ranges, tables of 256 optional children
  (the abstract value of \<open>InnerNode48\<close> and \<open>InnerNode256\<close>), and the bit masks of the
  vectorised searches of a nightly build.
\<close>

section \<open>Bounds\<close>

datatype 'a bound = Included 'a | Excluded 'a | Unbounded

definition slice_bounds :: "'a list \<Rightarrow> nat bound \<Rightarrow> nat bound \<Rightarrow> 'a list outcome" where
  \<comment> \<open>indexing a slice by a pair of bounds\<close>
  "slice_bounds xs lo hi =
     slice_range xs
       (case lo of Included i \<Rightarrow> i | Excluded i \<Rightarrow> Suc i | Unbounded \<Rightarrow> 0)
       (case hi of Included i \<Rightarrow> Suc i | Excluded i \<Rightarrow> i | Unbounded \<Rightarrow> length xs)"

definition within :: "byte bound \<Rightarrow> byte bound \<Rightarrow> byte \<Rightarrow> bool" where
  "within lo hi b \<longleftrightarrow>
     (case lo of Included l \<Rightarrow> l \<le> b | Excluded l \<Rightarrow> l < b | Unbounded \<Rightarrow> True) \<and>
     (case hi of Included h \<Rightarrow> b \<le> h | Excluded h \<Rightarrow> b < h | Unbounded \<Rightarrow> True)"

section \<open>Tables of optional children\<close>

text \<open>The present children of a table whose first slot stands for the byte \<open>i\<close>.\<close>

fun slots_from :: "nat \<Rightarrow> 'p option list \<Rightarrow> (byte \<times> 'p) list" where
  "slots_from i [] = []"
| "slots_from i (None # xs) = slots_from (Suc i) xs"
| "slots_from i (Some p # xs) = (of_nat i, p) # slots_from (Suc i) xs"

lemma unat_of_nat_byte: "n < 256 \<Longrightarrow> unat (of_nat n :: byte) = n"
  by (simp add: unsigned_of_nat take_bit_nat_eq_self)

lemma unat_byte_less [simp]: "unat (b :: byte) < 256"
  using unsigned_less [of b] by simp

lemma unat_byte_inj [simp]: "unat (a :: byte) = unat b \<longleftrightarrow> a = b"
  by (metis unsigned_word_eqI)

lemma mem_slots_from:
  "(b, p) \<in> set (slots_from i xs) \<longleftrightarrow> (\<exists>j<length xs. b = of_nat (i + j) \<and> xs ! j = Some p)"
  by (induction i xs rule: slots_from.induct) (auto simp: Ex_less_Suc2 ac_simps)

lemma set_slots_from:
  assumes "i + length xs \<le> 256"
  shows "set (slots_from i xs) = {(b, p). i \<le> unat b \<and> unat b < i + length xs \<and> xs ! (unat b - i) = Some p}"
proof -
  have "(\<exists>j<length xs. b = of_nat (i + j) \<and> xs ! j = Some p) \<longleftrightarrow>
      i \<le> unat b \<and> unat b < i + length xs \<and> xs ! (unat b - i) = Some p"
    for b :: byte and p
  proof
    assume "\<exists>j<length xs. b = of_nat (i + j) \<and> xs ! j = Some p"
    then obtain j where j: "j < length xs" "b = of_nat (i + j)" "xs ! j = Some p" by blast
    have "unat b = i + j"
      unfolding j(2) by (rule unat_of_nat_byte) (use j(1) assms in simp)
    with j show "i \<le> unat b \<and> unat b < i + length xs \<and> xs ! (unat b - i) = Some p" by simp
  next
    assume *: "i \<le> unat b \<and> unat b < i + length xs \<and> xs ! (unat b - i) = Some p"
    then have "b = of_nat (i + (unat b - i))" by simp
    with * show "\<exists>j<length xs. b = of_nat (i + j) \<and> xs ! j = Some p"
      by (intro exI [of _ "unat b - i"]) auto
  qed
  then show ?thesis
    by (auto simp: mem_slots_from)
qed

lemma sorted_slots_from: "i + length xs \<le> 256 \<Longrightarrow> sorted_keys (slots_from i xs)"
proof (induction i xs rule: slots_from.induct)
  case (3 i p xs)
  then have "unat (of_nat i :: byte) = i"
    by (intro unat_of_nat_byte) simp
  with 3 show ?case
    by (auto simp: set_slots_from word_less_nat_alt)
qed auto

lemma slots_from_append: "slots_from i (xs @ ys) = slots_from i xs @ slots_from (i + length xs) ys"
  by (induction i xs rule: slots_from.induct) auto

lemma slots_from_Nones: "\<forall>x\<in>set xs. x = None \<Longrightarrow> slots_from i xs = []"
  by (induction i xs rule: slots_from.induct) auto

text \<open>A full table of 256 slots.\<close>

lemma set_slots: "length xs = 256 \<Longrightarrow> set (slots_from 0 xs) = {(b, p). xs ! unat b = Some p}"
  by (simp add: set_slots_from)

lemma sorted_slots: "length xs = 256 \<Longrightarrow> sorted_keys (slots_from 0 xs)"
  by (simp add: sorted_slots_from)

lemma map_of_slots: "length xs = 256 \<Longrightarrow> map_of (slots_from 0 xs) b = xs ! unat b"
proof -
  assume xs: "length xs = 256"
  have "map_of (slots_from 0 xs) b = Some p \<longleftrightarrow> xs ! unat b = Some p" for p
    using map_of_eq_Some_iff_mem [OF sorted_slots [OF xs]] by (simp add: set_slots [OF xs])
  then show ?thesis
    by (metis not_None_eq)
qed

lemma mem_slots: "length xs = 256 \<Longrightarrow> b \<in> fst ` set (slots_from 0 xs) \<longleftrightarrow> xs ! unat b \<noteq> None"
  by (force simp: set_slots)

lemma slots_write:
  assumes "length xs = 256"
  shows "slots_from 0 (xs[unat b := Some p]) = al_write b p (slots_from 0 xs)"
  using assms
  by (intro sorted_keys_set_unique sorted_al_write sorted_slots)
    (auto simp: set_al_write set_slots sorted_slots nth_list_update split: if_splits)

lemma slots_remove:
  assumes "length xs = 256"
  shows "slots_from 0 (xs[unat b := None]) = al_remove b (slots_from 0 xs)"
  using assms
  by (intro sorted_keys_set_unique sorted_al_remove sorted_slots)
    (auto simp: set_al_remove set_slots sorted_slots nth_list_update split: if_splits)

lemma slots_eqI:
  assumes "length xs = 256" "sorted_keys cs" "\<And>b. xs ! unat b = map_of cs b"
  shows "slots_from 0 xs = cs"
  using assms
  by (intro sorted_keys_set_unique sorted_slots) (auto simp: set_slots map_of_eq_Some_iff_mem)

lemma slots_from_enumerate:
  "slots_from i xs = map (\<lambda>(k, x). (of_nat k, the x)) (filter (\<lambda>(k, x). x \<noteq> None) (enumerate i xs))"
  by (induction i xs rule: slots_from.induct) auto

text \<open>
  \<open>range\<close> of the two wide nodes slices the table by the bounds and numbers the slots of the
  slice from the start bound on, with a saturating addition.
\<close>

definition map_bound :: "('a \<Rightarrow> 'b) \<Rightarrow> 'a bound \<Rightarrow> 'b bound" where
  "map_bound f b = (case b of Included x \<Rightarrow> Included (f x) | Excluded x \<Rightarrow> Excluded (f x)
                            | Unbounded \<Rightarrow> Unbounded)"

definition saturating_add :: "byte \<Rightarrow> byte \<Rightarrow> byte" where
  "saturating_add a b = (if unat a + unat b < 256 then a + b else 255)"

definition key_offset :: "byte bound \<Rightarrow> byte" where
  "key_offset lo = (case lo of Included v \<Rightarrow> v | Excluded v \<Rightarrow> saturating_add v 1 | Unbounded \<Rightarrow> 0)"

fun byte_start :: "byte bound \<Rightarrow> nat" where
  "byte_start (Included l) = unat l"
| "byte_start (Excluded l) = Suc (unat l)"
| "byte_start Unbounded = 0"

fun byte_stop :: "byte bound \<Rightarrow> nat" where
  "byte_stop (Included h) = Suc (unat h)"
| "byte_stop (Excluded h) = unat h"
| "byte_stop Unbounded = 256"

lemma byte_stop_le: "byte_stop hi \<le> 256"
  using unat_byte_less by (cases hi) (auto simp: Suc_le_eq less_imp_le)

lemma slice_byte_bounds:
  assumes "length xs = 256"
  shows "slice_bounds xs (map_bound unat lo) (map_bound unat hi) =
    (if byte_start lo \<le> byte_stop hi
     then Ret (take (byte_stop hi - byte_start lo) (drop (byte_start lo) xs)) else Panic)"
  using assms byte_stop_le [of hi]
  by (cases lo; cases hi) (auto simp: slice_bounds_def map_bound_def slice_range_def)

lemma within_iff: "within lo hi b \<longleftrightarrow> byte_start lo \<le> unat b \<and> unat b < byte_stop hi"
  by (cases lo; cases hi)
    (auto simp: within_def word_le_nat_alt word_less_nat_alt Suc_le_eq less_Suc_eq_le)

lemma filter_within_slots:
  assumes len: "length xs = 256" and le: "byte_start lo \<le> byte_stop hi"
  shows "filter (\<lambda>c. within lo hi (fst c)) (slots_from 0 xs)
    = slots_from (byte_start lo) (take (byte_stop hi - byte_start lo) (drop (byte_start lo) xs))"
proof -
  let ?i = "byte_start lo" and ?j = "byte_stop hi"
  have j: "?j \<le> 256" by (rule byte_stop_le)
  have "xs = take ?i xs @ take (?j - ?i) (drop ?i xs) @ drop ?j xs"
    using le append_take_drop_id [of ?i xs] append_take_drop_id [of "?j - ?i" "drop ?i xs"] by simp
  then have "slots_from 0 xs = slots_from 0 (take ?i xs @ take (?j - ?i) (drop ?i xs) @ drop ?j xs)"
    by simp
  also have "\<dots> = slots_from 0 (take ?i xs)
      @ slots_from ?i (take (?j - ?i) (drop ?i xs)) @ slots_from ?j (drop ?j xs)"
    using len j le by (simp only: slots_from_append) simp
  finally have "slots_from 0 xs = slots_from 0 (take ?i xs)
      @ slots_from ?i (take (?j - ?i) (drop ?i xs)) @ slots_from ?j (drop ?j xs)" .
  moreover have "\<forall>c\<in>set (slots_from 0 (take ?i xs)). \<not> within lo hi (fst c)"
    using len j le by (auto simp: set_slots_from within_iff)
  moreover have "\<forall>c\<in>set (slots_from ?i (take (?j - ?i) (drop ?i xs))). within lo hi (fst c)"
    using len j le by (subst set_slots_from) (auto simp: within_iff)
  moreover have "\<forall>c\<in>set (slots_from ?j (drop ?j xs)). \<not> within lo hi (fst c)"
    using len j le by (subst set_slots_from) (auto simp: within_iff)
  ultimately show ?thesis
    by (simp add: filter_empty_conv filter_id_conv)
qed

lemma key_offset_add:
  assumes "byte_start lo + k < 256"
  shows "saturating_add (of_nat k) (key_offset lo) = of_nat (byte_start lo + k)"
proof -
  have "unat (of_nat k :: byte) = k" using assms by (intro unat_of_nat_byte) simp
  moreover have "unat (key_offset lo) = byte_start lo"
    using assms by (cases lo) (auto simp: key_offset_def saturating_add_def unat_word_ariths)
  moreover have "of_nat (unat (key_offset lo)) = key_offset lo"
    by simp
  then have "key_offset lo = of_nat (byte_start lo)"
    using calculation(2) by simp
  ultimately show ?thesis
    using assms by (simp add: saturating_add_def ac_simps)
qed

lemma slots_from_map_filter:
  assumes "\<And>j. j < length xs \<Longrightarrow> f (k + j) = of_nat (i + j)"
  shows "slots_from i xs
    = List.map_filter (\<lambda>(j, x). map_option (\<lambda>p. (f j, p)) x) (enumerate k xs)"
  using assms
proof (induction i xs arbitrary: k rule: slots_from.induct)
  case (2 i xs)
  have "f (Suc k + j) = of_nat (Suc i + j)" if "j < length xs" for j
    using "2.prems" [of "Suc j"] that by simp
  from "2.IH" [OF this] show ?case by (simp add: map_filter_simps)
next
  case (3 i p xs)
  have "f (Suc k + j) = of_nat (Suc i + j)" if "j < length xs" for j
    using "3.prems" [of "Suc j"] that by simp
  from "3.IH" [OF this] "3.prems" [of 0] show ?case by (simp add: map_filter_simps)
qed (simp add: map_filter_simps)

section \<open>Bit masks of vector comparisons\<close>

definition to_bitmask :: "bool list \<Rightarrow> u32" where
  "to_bitmask bs = horner_sum of_bool 2 bs"

fun trailing_zeros_from :: "nat \<Rightarrow> nat \<Rightarrow> u32 \<Rightarrow> nat" where
  "trailing_zeros_from 0 i w = i"
| "trailing_zeros_from (Suc k) i w = (if bit w i then i else trailing_zeros_from k (Suc i) w)"

definition trailing_zeros :: "u32 \<Rightarrow> nat" where
  "trailing_zeros w = trailing_zeros_from 32 0 w"

lemma bit_to_bitmask: "bit (to_bitmask bs) i \<longleftrightarrow> i < length bs \<and> i < 32 \<and> bs ! i"
  by (auto simp: to_bitmask_def bit_horner_sum_bit_word_iff)

lemma trailing_zeros_from_eq:
  assumes "bit w j" "\<forall>m. i \<le> m \<and> m < j \<longrightarrow> \<not> bit w m" "i \<le> j" "j < i + k"
  shows "trailing_zeros_from k i w = j"
  using assms
proof (induction k arbitrary: i)
  case (Suc k)
  then show ?case by (cases "i = j") auto
qed simp

lemma trailing_zeros_eq:
  assumes "bit w j" "\<forall>m<j. \<not> bit w m"
  shows "trailing_zeros w = j"
proof -
  have "j < 32"
    using bit_imp_le_length [OF assms(1)] by simp
  with assms show ?thesis
    unfolding trailing_zeros_def by (intro trailing_zeros_from_eq) auto
qed



text \<open>
  The wider nodes look for their first and last child with four comparisons of 64 lanes,
  each turned into a mask whose set bits are the empty slots.
\<close>

definition lane_mask :: "bool list \<Rightarrow> 64 word" where
  "lane_mask bs = horner_sum of_bool 2 bs"

fun ones_up_from :: "nat \<Rightarrow> nat \<Rightarrow> 64 word \<Rightarrow> nat" where
  "ones_up_from 0 i w = 0"
| "ones_up_from (Suc k) i w = (if bit w i then Suc (ones_up_from k (Suc i) w) else 0)"

definition trailing_ones :: "64 word \<Rightarrow> nat" where
  "trailing_ones w = ones_up_from 64 0 w"

fun ones_down_from :: "nat \<Rightarrow> 64 word \<Rightarrow> nat" where
  "ones_down_from 0 w = 0"
| "ones_down_from (Suc i) w = (if bit w i then Suc (ones_down_from i w) else 0)"

definition leading_ones :: "64 word \<Rightarrow> nat" where
  "leading_ones w = ones_down_from 64 w"

definition lanes :: "nat \<Rightarrow> bool list \<Rightarrow> 64 word" where
  "lanes k vacant = lane_mask (take 64 (drop (64 * k) vacant))"

definition first_occupied :: "bool list \<Rightarrow> nat" where
  "first_occupied vacant =
     (let r0 = lanes 0 vacant; r1 = lanes 1 vacant; r2 = lanes 2 vacant; r3 = lanes 3 vacant in
      if r0 \<noteq> - 1 then trailing_ones r0
      else if r1 \<noteq> - 1 then trailing_ones r1 + 64
      else if r2 \<noteq> - 1 then trailing_ones r2 + 128
      else trailing_ones r3 + 192)"

definition last_occupied :: "bool list \<Rightarrow> nat outcome" where
  "last_occupied vacant =
     (let r0 = lanes 0 vacant; r1 = lanes 1 vacant; r2 = lanes 2 vacant; r3 = lanes 3 vacant in
      if r3 \<noteq> - 1 then Ret (255 - leading_ones r3)
      else if r2 \<noteq> - 1 then Ret (191 - leading_ones r2)
      else if r1 \<noteq> - 1 then Ret (127 - leading_ones r1)
      else if leading_ones r0 \<le> 63 then Ret (63 - leading_ones r0) else Panic)"

lemma bit_lane_mask: "bit (lane_mask bs) i \<longleftrightarrow> i < length bs \<and> i < 64 \<and> bs ! i"
  by (auto simp: lane_mask_def bit_horner_sum_bit_word_iff)

lemma ones_up_from_eq:
  assumes "length bs = k" "\<And>j. j < k \<Longrightarrow> bit w (i + j) = bs ! j"
  shows "ones_up_from k i w = length (takeWhile (\<lambda>b. b) bs)"
  using assms
proof (induction k arbitrary: i bs)
  case (Suc k)
  then obtain b bs' where bs: "bs = b # bs'" "length bs' = k" by (cases bs) auto
  have "bit w i = b" using Suc.prems(2) [of 0] bs by simp
  moreover have "ones_up_from k (Suc i) w = length (takeWhile (\<lambda>b. b) bs')"
    using Suc.prems(2) [of "Suc j" for j] bs by (intro Suc.IH) auto
  ultimately show ?case by (simp add: bs)
qed simp

lemma ones_down_from_eq:
  assumes "length bs = k" "\<And>j. j < k \<Longrightarrow> bit w j = bs ! j"
  shows "ones_down_from k w = length (takeWhile (\<lambda>b. b) (rev bs))"
  using assms
proof (induction k arbitrary: bs)
  case (Suc k)
  then obtain b bs' where bs: "bs = bs' @ [b]" "length bs' = k"
    by (metis append_butlast_last_id length_butlast diff_Suc_1 length_0_conv nat.distinct(1))
  have "bit w k = b" using Suc.prems(2) [of k] bs by (simp add: nth_append)
  moreover have "ones_down_from k w = length (takeWhile (\<lambda>b. b) (rev bs'))"
    using Suc.prems(2) bs by (intro Suc.IH) (auto simp: nth_append less_Suc_eq)
  ultimately show ?case by (simp add: bs)
qed simp

lemma trailing_ones_mask: "length bs = 64 \<Longrightarrow> trailing_ones (lane_mask bs) = length (takeWhile (\<lambda>b. b) bs)"
  unfolding trailing_ones_def by (rule ones_up_from_eq) (simp_all add: bit_lane_mask)

lemma leading_ones_mask: "length bs = 64 \<Longrightarrow> leading_ones (lane_mask bs) = length (takeWhile (\<lambda>b. b) (rev bs))"
  unfolding leading_ones_def by (rule ones_down_from_eq) (simp_all add: bit_lane_mask)

lemma lane_mask_full_iff: "length bs = 64 \<Longrightarrow> lane_mask bs = - 1 \<longleftrightarrow> False \<notin> set bs"
proof -
  assume len: "length bs = 64"
  have "lane_mask bs = - 1 \<longleftrightarrow> (\<forall>i<64. bit (lane_mask bs) i)"
    by (auto simp: bit_simps intro!: bit_word_eqI)
  also have "\<dots> \<longleftrightarrow> False \<notin> set bs"
    using len by (auto simp: bit_lane_mask in_set_conv_nth)
  finally show ?thesis .
qed

lemma split_lanes:
  assumes "length bs = 256"
  obtains a b c d where "bs = a @ b @ c @ d"
    "length a = 64" "length b = 64" "length c = 64" "length d = 64"
proof
  show "bs = take 64 bs @ take 64 (drop 64 bs) @ take 64 (drop 128 bs) @ drop 192 bs"
    using append_take_drop_id [of 64 bs] append_take_drop_id [of 64 "drop 64 bs"]
      append_take_drop_id [of 64 "drop 128 bs"] by simp
qed (use assms in auto)

lemma takeWhile_True_append:
  "takeWhile (\<lambda>b. b) (xs @ ys) = (if False \<notin> set xs then xs @ takeWhile (\<lambda>b. b) ys else takeWhile (\<lambda>b. b) xs)"
  by (induction xs) auto

lemma takeWhile_True_less: "False \<in> set bs \<Longrightarrow> length (takeWhile (\<lambda>b. b) bs) < length bs"
  by (induction bs) auto

lemma first_occupied_eq:
  assumes "length bs = 256"
  shows "first_occupied bs = length (takeWhile (\<lambda>b. b) bs)"
proof -
  obtain a b c d where s: "bs = a @ b @ c @ d"
      "length a = 64" "length b = 64" "length c = 64" "length d = 64"
    using assms by (rule split_lanes)
  have r: "lanes 0 bs = lane_mask a" "lanes 1 bs = lane_mask b" "lanes 2 bs = lane_mask c"
      "lanes 3 bs = lane_mask d"
    by (simp_all add: lanes_def s)
  show ?thesis
    unfolding first_occupied_def r Let_def
    by (simp add: trailing_ones_mask lane_mask_full_iff s takeWhile_True_append del: takeWhile_append)
qed

lemma last_occupied_eq:
  assumes "length bs = 256" "False \<in> set bs"
  shows "last_occupied bs = Ret (255 - length (takeWhile (\<lambda>b. b) (rev bs)))"
proof -
  obtain a b c d where s: "bs = a @ b @ c @ d"
      "length a = 64" "length b = 64" "length c = 64" "length d = 64"
    using assms(1) by (rule split_lanes)
  have r: "lanes 0 bs = lane_mask a" "lanes 1 bs = lane_mask b" "lanes 2 bs = lane_mask c"
      "lanes 3 bs = lane_mask d"
    by (simp_all add: lanes_def s)
  have "length (takeWhile (\<lambda>b. b) (rev a)) < 64" if "False \<in> set a"
    using that s(2) takeWhile_True_less [of "rev a"] by simp
  with assms(2) show ?thesis
    unfolding last_occupied_def r Let_def
    by (auto simp: leading_ones_mask lane_mask_full_iff s takeWhile_True_append simp del: takeWhile_append)
qed

text \<open>The first and the last child of a table, at the slots that the masks find.\<close>

lemma takeWhile_True_split:
  assumes "False \<in> set bs"
  obtains ys where "bs = replicate (length (takeWhile (\<lambda>b. b) bs)) True @ False # ys"
proof -
  have "dropWhile (\<lambda>b. b) bs \<noteq> []"
    using assms by auto
  then obtain y ys where y: "dropWhile (\<lambda>b. b) bs = y # ys" "\<not> y"
    by (metis (full_types) hd_dropWhile list.exhaust_sel)
  moreover have "takeWhile (\<lambda>b. b) bs = replicate (length (takeWhile (\<lambda>b. b) bs)) True"
    by (rule replicate_length_same [symmetric]) (auto dest: set_takeWhileD)
  ultimately show thesis
    using that [of ys] takeWhile_dropWhile_id [of "\<lambda>b. b" bs] by metis
qed

lemma slots_from_vacant:
  assumes "map (\<lambda>x. x = None) xs = replicate n True"
  shows "slots_from i xs = []"
proof (rule slots_from_Nones, rule ballI)
  fix x assume "x \<in> set xs"
  then have "(x = None) \<in> set (replicate n True)"
    unfolding assms [symmetric] by simp
  then show "x = None"
    by (simp only: set_replicate_conv_if split: if_splits) auto
qed

lemma slots_from_split:
  assumes "k < length xs" "xs ! k = Some p"
  shows "slots_from 0 xs
    = slots_from 0 (take k xs) @ (of_nat k, p) # slots_from (Suc k) (drop (Suc k) xs)"
  using assms by (subst id_take_nth_drop [OF assms(1)]) (simp add: slots_from_append)

lemma first_occupied_slots:
  assumes "length xs = 256" "slots_from 0 xs \<noteq> []"
  defines "k \<equiv> first_occupied (map (\<lambda>x. x = None) xs)"
  shows "k < 256 \<and> (\<exists>p. xs ! k = Some p \<and> hd (slots_from 0 xs) = (of_nat k, p))"
proof -
  define bs where "bs = map (\<lambda>x. x = None) xs"
  have "False \<in> set bs"
    using assms(2) slots_from_Nones [of xs 0] by (force simp: bs_def image_iff)
  moreover have "k = length (takeWhile (\<lambda>b. b) bs)"
    using assms(1) unfolding k_def bs_def [symmetric] by (intro first_occupied_eq) (simp add: bs_def)
  ultimately obtain ys where ys: "bs = replicate k True @ False # ys"
    using takeWhile_True_split by metis
  have k: "k < length bs"
    by (subst ys) simp
  have "bs ! k = False"
    by (subst ys) (simp add: nth_append)
  with k obtain p where p: "xs ! k = Some p"
    by (auto simp: bs_def)
  have "take k bs = replicate k True"
    by (subst ys) simp
  then have "map (\<lambda>x. x = None) (take k xs) = replicate k True"
    by (simp add: bs_def take_map)
  then have "slots_from 0 (take k xs) = []"
    by (rule slots_from_vacant)
  moreover have "slots_from 0 xs = slots_from 0 (take k xs) @ (of_nat k, p) # slots_from (Suc k) (drop (Suc k) xs)"
    using k p by (intro slots_from_split) (simp_all add: bs_def)
  ultimately show ?thesis
    using k p assms(1) by (simp add: bs_def)
qed

lemma last_occupied_slots:
  assumes "length xs = 256" "slots_from 0 xs \<noteq> []"
  shows "\<exists>k p. last_occupied (map (\<lambda>x. x = None) xs) = Ret k \<and> k < 256 \<and> xs ! k = Some p
    \<and> last (slots_from 0 xs) = (of_nat k, p)"
proof -
  define bs where "bs = map (\<lambda>x. x = None) xs"
  define m where "m = length (takeWhile (\<lambda>b. b) (rev bs))"
  have some: "False \<in> set bs"
    using assms(2) slots_from_Nones [of xs 0] by (force simp: bs_def image_iff)
  then have "last_occupied bs = Ret (255 - m)"
    using assms(1) by (subst last_occupied_eq) (auto simp: bs_def m_def)
  moreover obtain ys where "rev bs = replicate m True @ False # ys"
    using some takeWhile_True_split [of "rev bs"] by (auto simp: m_def)
  then have bs: "bs = rev ys @ False # replicate m True"
    by (metis append.assoc append_Cons append_Nil rev.simps(2) rev_append rev_replicate rev_rev_ident)
  define k where "k = length ys"
  have km: "k + m = 255"
    using arg_cong [OF bs, of length] assms(1) by (simp add: bs_def k_def)
  have "bs ! k = False"
    by (subst bs) (simp add: k_def nth_append)
  then obtain p where p: "xs ! k = Some p"
    using km assms(1) by (auto simp: bs_def)
  have "drop (Suc k) bs = replicate m True"
    by (subst bs) (simp add: k_def)
  then have "map (\<lambda>x. x = None) (drop (Suc k) xs) = replicate m True"
    by (simp add: bs_def drop_map)
  then have "slots_from (Suc k) (drop (Suc k) xs) = []"
    by (rule slots_from_vacant)
  moreover have "slots_from 0 xs = slots_from 0 (take k xs) @ (of_nat k, p) # slots_from (Suc k) (drop (Suc k) xs)"
    using km p assms(1) by (intro slots_from_split) simp_all
  ultimately show ?thesis
    using km p by (intro exI [of _ k] exI [of _ p]) (auto simp: bs_def)
qed

end
