(* ===== verification/Node48.thy ===== *)
theory Node48
  imports Node_Compressed
begin

text \<open>
  Inner nodes with 48 slots (\<open>src/src/nodes/representation/inner_node_48.rs\<close>): an array of
  256 restricted indices maps a key byte to a slot of the child array, 48 standing for no
  child.  The first \<open>num_children\<close> slots are initialised, in the order the children came.
\<close>

section \<open>State and operations\<close>

abbreviation (input) EMPTY :: byte where
  "EMPTY \<equiv> 48"

definition restricted_from_usize :: "nat \<Rightarrow> byte option" where
  "restricted_from_usize v = (if v < 48 then Some (of_nat v) else None)"

definition restricted_from_u8 :: "byte \<Rightarrow> byte option" where
  "restricted_from_u8 v = (if v < 48 then Some v else None)"

definition restricted_partial_less :: "byte \<Rightarrow> byte \<Rightarrow> bool" where
  \<comment> \<open>\<open>partial_cmp\<close> is \<open>Some(Less)\<close>\<close>
  "restricted_partial_less a b \<longleftrightarrow> \<not> (a = EMPTY \<or> b = EMPTY) \<and> a < b"

record 'p inner48 =
  n48_header :: header
  n48_child_indices :: "byte list"
  n48_child_pointers :: "'p option list"

definition node48_from_header :: "header \<Rightarrow> 'p inner48" where
  "node48_from_header h =
     \<lparr>n48_header = h, n48_child_indices = replicate 256 EMPTY, n48_child_pointers = replicate 48 None\<rparr>"

definition initialized_child_pointers :: "'p inner48 \<Rightarrow> 'p list outcome" where
  "initialized_child_pointers n =
     and_then (assume_that (num_children (n48_header n) \<le> length (n48_child_pointers n))) (\<lambda>_.
     and_then (slice_range (n48_child_pointers n) 0 (num_children (n48_header n))) assume_init_slice)"

definition node48_lookup_child :: "'p inner48 \<Rightarrow> byte \<Rightarrow> 'p option outcome" where
  "node48_lookup_child n key_fragment =
     and_then (index_at (n48_child_indices n) (unat key_fragment)) (\<lambda>index.
     and_then (initialized_child_pointers n) (\<lambda>child_pointers.
     if index \<noteq> EMPTY then
       and_then (assume_that (unat index < length child_pointers)) (\<lambda>_.
       and_then (index_at child_pointers (unat index)) (\<lambda>p. Ret (Some p)))
     else Ret None))"

definition node48_write_child :: "'p inner48 \<Rightarrow> byte \<Rightarrow> 'p \<Rightarrow> 'p inner48 outcome" where
  "node48_write_child n key_fragment child_pointer =
     (let key_fragment_idx = unat key_fragment in
      and_then (index_at (n48_child_indices n) key_fragment_idx) (\<lambda>index.
      and_then
        (if index = EMPTY then
           let child_index = num_children (n48_header n) in
           and_then (assert_that (child_index < length (n48_child_pointers n))) (\<lambda>_.
           and_then (unwrap_unchecked (restricted_from_usize child_index)) (\<lambda>ri.
           and_then (store_at (n48_child_indices n) key_fragment_idx ri) (\<lambda>indices.
           and_then (inc_num_children (n48_header n)) (\<lambda>h.
           Ret (n\<lparr>n48_child_indices := indices, n48_header := h\<rparr>, child_index)))))
         else Ret (n, unat index))
        (\<lambda>(n, child_index).
      and_then (assume_that (child_index < length (n48_child_pointers n))) (\<lambda>_.
      and_then (store_at (n48_child_pointers n) child_index (Some child_pointer)) (\<lambda>ps.
      Ret (n\<lparr>n48_child_pointers := ps\<rparr>))))))"

fun close_index_gap :: "byte \<Rightarrow> byte list \<Rightarrow> byte list outcome" where
  "close_index_gap restricted_index [] = Ret []"
| "close_index_gap restricted_index (other # others) =
     and_then (if restricted_partial_less restricted_index other
               then unwrap (restricted_from_u8 (other - 1)) else Ret other) (\<lambda>other.
     and_then (close_index_gap restricted_index others) (\<lambda>others. Ret (other # others)))"

definition node48_remove_child :: "'p inner48 \<Rightarrow> byte \<Rightarrow> ('p option \<times> 'p inner48) outcome" where
  "node48_remove_child n key_fragment =
     and_then (index_at (n48_child_indices n) (unat key_fragment)) (\<lambda>restricted_index.
     if restricted_index = EMPTY then Ret (None, n) else
     and_then (index_at (n48_child_pointers n) (unat restricted_index)) (\<lambda>child_ptr.
     and_then (store_at (n48_child_pointers n) (unat restricted_index) None) (\<lambda>ps.
     and_then (copy_within ps (unat restricted_index + 1) (num_children (n48_header n))
       (unat restricted_index)) (\<lambda>ps.
     and_then (close_index_gap restricted_index (n48_child_indices n)) (\<lambda>indices.
     and_then (store_at indices (unat key_fragment) EMPTY) (\<lambda>indices.
     and_then (dec_num_children (n48_header n)) (\<lambda>h.
     and_then (unwrap_unchecked child_ptr) (\<lambda>p.
     Ret (Some p, n\<lparr>n48_header := h, n48_child_indices := indices, n48_child_pointers := ps\<rparr>)))))))))"

fun node48_grow_from ::
    "nat \<Rightarrow> byte list \<Rightarrow> 'p list \<Rightarrow> 'p option list \<Rightarrow> 'p option list outcome" where
  "node48_grow_from key_fragment [] init ptrs = Ret ptrs"
| "node48_grow_from key_fragment (idx # indices) init ptrs =
     (if idx = EMPTY then node48_grow_from (Suc key_fragment) indices init ptrs
      else and_then (assume_that (unat idx < length init)) (\<lambda>_.
           and_then (index_at init (unat idx)) (\<lambda>child_pointer.
           and_then (store_at ptrs key_fragment (Some child_pointer)) (\<lambda>ptrs.
           node48_grow_from (Suc key_fragment) indices init ptrs))))"

definition node48_iter :: "'p inner48 \<Rightarrow> (byte \<times> 'p) list outcome" where
  "node48_iter n =
     and_then (initialized_child_pointers n) (\<lambda>child_pointers.
     let present = List.map_filter
           (\<lambda>(key, idx). if idx \<noteq> EMPTY then Some (of_nat key, unat idx) else None)
           (enumerate 0 (n48_child_indices n)) in
     if \<forall>(key, idx)\<in>set present. idx < length child_pointers
     then Ret (map (\<lambda>(key, idx). (key, child_pointers ! idx)) present) else UB)"

definition node48_range :: "'p inner48 \<Rightarrow> byte bound \<Rightarrow> byte bound \<Rightarrow> (byte \<times> 'p) list outcome" where
  "node48_range n lo hi =
     and_then (initialized_child_pointers n) (\<lambda>child_pointers.
     and_then (slice_bounds (n48_child_indices n) (map_bound unat lo) (map_bound unat hi)) (\<lambda>indices.
     let present = List.map_filter
           (\<lambda>(key, idx). if idx \<noteq> EMPTY then Some (of_nat key, unat idx) else None)
           (enumerate 0 indices) in
     if \<forall>(key, idx)\<in>set present. idx < length child_pointers
     then Ret (map (\<lambda>(key, idx). (saturating_add key (key_offset lo), child_pointers ! idx)) present)
     else UB))"

definition node48_shrink :: "'p inner48 \<Rightarrow> 'p inner_compressed outcome" where
  "node48_shrink n =
     and_then (assert_that (num_children (n48_header n) \<le> 16)) (\<lambda>_.
     and_then (node48_iter n) (\<lambda>cs.
     and_then (store_from (replicate 16 None) 0 cs) (\<lambda>key_and_child_ptrs.
     and_then (slice_range key_and_child_ptrs 0 (num_children (n48_header n))) (\<lambda>slots.
     and_then (assume_init_slice slots) (\<lambda>pairs.
     let pairs = sort_key fst pairs in
     and_then (store_from (replicate 16 None) 0 (map fst pairs)) (\<lambda>keys.
     and_then (store_from (replicate 16 None) 0 (map snd pairs)) (\<lambda>child_pointers.
     Ret \<lparr>c_header = n48_header n, c_keys = keys, c_child_pointers = child_pointers\<rparr>)))))))"

fun node48_first :: "'p inner48 \<Rightarrow> (nat \<times> byte) list \<Rightarrow> (byte \<times> 'p) outcome" where
  "node48_first n [] = Panic"
| "node48_first n ((key, idx) # indices) =
     (if idx = EMPTY then node48_first n indices
      else and_then (initialized_child_pointers n) (\<lambda>child_pointers.
           and_then (index_at child_pointers (unat idx)) (\<lambda>p. Ret (of_nat key, p))))"

definition node48_min :: "'p inner48 \<Rightarrow> (byte \<times> 'p) outcome" where
  "node48_min n = node48_first n (enumerate 0 (n48_child_indices n))"

definition node48_max :: "'p inner48 \<Rightarrow> (byte \<times> 'p) outcome" where
  "node48_max n = node48_first n (rev (enumerate 0 (n48_child_indices n)))"

definition node48_child_of :: "'p inner48 \<Rightarrow> nat \<Rightarrow> (byte \<times> 'p) outcome" where
  \<comment> \<open>the common tail of the vectorised \<open>min\<close> and \<open>max\<close>\<close>
  "node48_child_of n key =
     and_then (assume_that (key < length (n48_child_indices n))) (\<lambda>_.
     and_then (index_at (n48_child_indices n) key) (\<lambda>idx.
     and_then (initialized_child_pointers n) (\<lambda>child_pointers.
     and_then (assume_that (unat idx < length child_pointers)) (\<lambda>_.
     and_then (index_at child_pointers (unat idx)) (\<lambda>p. Ret (of_nat key, p))))))"

definition node48_min_simd :: "'p inner48 \<Rightarrow> (byte \<times> 'p) outcome" where
  "node48_min_simd n =
     node48_child_of n (first_occupied (map (\<lambda>idx. idx = 48) (n48_child_indices n)))"

definition node48_max_simd :: "'p inner48 \<Rightarrow> (byte \<times> 'p) outcome" where
  "node48_max_simd n =
     and_then (last_occupied (map (\<lambda>idx. idx = 48) (n48_child_indices n))) (node48_child_of n)"

text \<open>The double-ended iterator, over the index entries it has left.\<close>

fun node48_iter_next ::
    "'p list \<Rightarrow> (nat \<times> byte) list \<Rightarrow> ((byte \<times> 'p) option \<times> (nat \<times> byte) list) outcome" where
  "node48_iter_next child_pointers [] = Ret (None, [])"
| "node48_iter_next child_pointers ((key, idx) # it) =
     (if idx = EMPTY then node48_iter_next child_pointers it
      else and_then (get_unchecked child_pointers (unat idx)) (\<lambda>p. Ret (Some (of_nat key, p), it)))"

definition node48_iter_next_back ::
    "'p list \<Rightarrow> (nat \<times> byte) list \<Rightarrow> ((byte \<times> 'p) option \<times> (nat \<times> byte) list) outcome" where
  "node48_iter_next_back child_pointers it =
     and_then (node48_iter_next child_pointers (rev it)) (\<lambda>(item, rest). Ret (item, rev rest))"


section \<open>Invariant and abstract value\<close>

definition n48_slots :: "'p inner48 \<Rightarrow> 'p option list" where
  "n48_slots n =
     map (\<lambda>i. if i = EMPTY then None else n48_child_pointers n ! unat i) (n48_child_indices n)"

definition n48_children :: "'p inner48 \<Rightarrow> (byte \<times> 'p) list" where
  "n48_children n = slots_from 0 (n48_slots n)"

definition n48_inv :: "'p inner48 \<Rightarrow> bool" where
  "n48_inv n \<longleftrightarrow>
     (let nc = num_children (n48_header n); ixs = n48_child_indices n in
      length ixs = 256 \<and> length (n48_child_pointers n) = 48 \<and> nc \<le> 48
      \<and> None \<notin> set (take nc (n48_child_pointers n))
      \<and> (\<forall>i\<in>set ixs. i \<noteq> EMPTY \<longrightarrow> unat i < nc)
      \<and> (\<forall>a<256. \<forall>b<256. ixs ! a = ixs ! b \<longrightarrow> ixs ! a \<noteq> EMPTY \<longrightarrow> a = b)
      \<and> nc = length (n48_children n))"

text \<open>A node seen as its indices and its initialised pointers.\<close>

definition n48_as :: "'p inner48 \<Rightarrow> byte list \<Rightarrow> 'p list \<Rightarrow> 'p option list \<Rightarrow> bool" where
  "n48_as n ixs ps rest \<longleftrightarrow>
     n48_child_indices n = ixs \<and> length ixs = 256
     \<and> n48_child_pointers n = map Some ps @ rest \<and> length ps + length rest = 48
     \<and> num_children (n48_header n) = length ps
     \<and> (\<forall>b :: byte. ixs ! unat b \<noteq> EMPTY \<longrightarrow> unat (ixs ! unat b) < length ps)
     \<and> (\<forall>b c :: byte. ixs ! unat b = ixs ! unat c \<longrightarrow> ixs ! unat b \<noteq> EMPTY \<longrightarrow> b = c)"

definition slot48 :: "'p list \<Rightarrow> byte \<Rightarrow> 'p option" where
  "slot48 ps i = (if i = EMPTY then None else Some (ps ! unat i))"

lemma all_bytes_nth: "(\<forall>b :: byte. P (unat b)) \<longleftrightarrow> (\<forall>i<256. P i)"
  by (metis unat_byte_less unat_of_nat_byte)

lemma n48_asE:
  assumes "n48_inv n"
  obtains ixs ps rest where "n48_as n ixs ps rest" "length ps = length (n48_children n)"
proof -
  let ?nc = "num_children (n48_header n)"
  let ?ps = "map the (take ?nc (n48_child_pointers n))"
  have i: "length (n48_child_indices n) = 256" "length (n48_child_pointers n) = 48" "?nc \<le> 48"
      "None \<notin> set (take ?nc (n48_child_pointers n))"
      "\<forall>i\<in>set (n48_child_indices n). i \<noteq> EMPTY \<longrightarrow> unat i < ?nc"
      "\<forall>a<256. \<forall>b<256. n48_child_indices n ! a = n48_child_indices n ! b \<longrightarrow>
        n48_child_indices n ! a \<noteq> EMPTY \<longrightarrow> a = b"
      "?nc = length (n48_children n)"
    using assms by (auto simp: n48_inv_def Let_def)
  have "n48_as n (n48_child_indices n) ?ps (drop ?nc (n48_child_pointers n))"
    unfolding n48_as_def
  proof (intro conjI)
    show "\<forall>b c :: byte. n48_child_indices n ! unat b = n48_child_indices n ! unat c \<longrightarrow>
        n48_child_indices n ! unat b \<noteq> EMPTY \<longrightarrow> b = c"
      using i(6) unat_byte_less unat_byte_inj by blast
  qed (use i map_Some_the [OF i(4)] in \<open>simp_all del: map_map\<close>)
  then show thesis
    using that i by simp
qed

lemma n48_asD:
  assumes "n48_as n ixs ps rest"
  shows "initialized_child_pointers n = Ret ps"
    and "n48_slots n = map (slot48 ps) ixs"
    and "length (n48_slots n) = 256"
proof -
  show "initialized_child_pointers n = Ret ps"
    using assms by (simp add: n48_as_def initialized_child_pointers_def slice_range_def)
  have "(if i = EMPTY then None else n48_child_pointers n ! unat i) = slot48 ps i"
    if i: "i \<in> set ixs" for i
  proof -
    obtain a where "a < 256" "ixs ! a = i"
      using i assms by (auto simp: in_set_conv_nth n48_as_def)
    then have "ixs ! unat (of_nat a :: byte) = i" by (simp add: unat_of_nat_byte)
    then have "i \<noteq> EMPTY \<longrightarrow> unat i < length ps"
      using assms unfolding n48_as_def by metis
    with assms show ?thesis by (auto simp: slot48_def n48_as_def nth_append)
  qed
  then show "n48_slots n = map (slot48 ps) ixs"
    using assms by (simp add: n48_slots_def n48_as_def)
  show "length (n48_slots n) = 256"
    using assms by (simp add: n48_slots_def n48_as_def)
qed

lemma n48_invI:
  assumes "n48_as n ixs ps rest" "length (n48_children n) = length ps"
  shows "n48_inv n"
proof -
  have ixs: "length ixs = 256" and a: "\<forall>b :: byte. ixs ! unat b \<noteq> EMPTY \<longrightarrow> unat (ixs ! unat b) < length ps"
      "\<forall>b c :: byte. ixs ! unat b = ixs ! unat c \<longrightarrow> ixs ! unat b \<noteq> EMPTY \<longrightarrow> b = c"
    using assms(1) by (auto simp: n48_as_def)
  have "\<forall>i\<in>set ixs. i \<noteq> EMPTY \<longrightarrow> unat i < length ps"
    using a(1) ixs unat_of_nat_byte by (metis in_set_conv_nth)
  moreover have "\<forall>a<256. \<forall>b<256. ixs ! a = ixs ! b \<longrightarrow> ixs ! a \<noteq> EMPTY \<longrightarrow> a = b"
    using a(2) unat_of_nat_byte by metis
  ultimately show ?thesis
    using assms by (auto simp: n48_inv_def Let_def n48_as_def)
qed

lemma n48_nth_slots:
  fixes b :: byte
  assumes "n48_as n ixs ps rest"
  shows "n48_slots n ! unat b = slot48 ps (ixs ! unat b)"
  unfolding n48_asD(2) [OF assms] using assms by (intro nth_map) (simp add: n48_as_def)

lemma slots48_update:
  fixes b :: byte
  assumes "length ixs = 256" "length ixs' = 256" "slot48 ps' (ixs' ! unat b) = x"
    and "\<And>c :: byte. c \<noteq> b \<Longrightarrow> slot48 ps' (ixs' ! unat c) = slot48 ps (ixs ! unat c)"
  shows "map (slot48 ps') ixs' = (map (slot48 ps) ixs)[unat b := x]"
proof (rule nth_equalityI)
  fix a assume "a < length (map (slot48 ps') ixs')"
  then obtain c :: byte where "a = unat c"
    using assms(2) unat_of_nat_byte by (metis length_map)
  then show "map (slot48 ps') ixs' ! a = (map (slot48 ps) ixs)[unat b := x] ! a"
    using assms by (cases "c = b") simp_all
qed (use assms in simp)

section \<open>The operations on the abstract value\<close>

lemma n48_sorted: "n48_inv n \<Longrightarrow> sorted_keys (n48_children n)"
  unfolding n48_children_def by (elim n48_asE) (rule sorted_slots, rule n48_asD(3))

lemma n48_count: "n48_inv n \<Longrightarrow> num_children (n48_header n) = length (n48_children n)"
  by (simp add: n48_inv_def Let_def)

lemma n48_fit: "n48_inv n \<Longrightarrow> length (n48_children n) \<le> 48"
  by (simp add: n48_inv_def Let_def)

lemma node48_from_header_inv:
  assumes "num_children h = 0"
  shows "n48_inv (node48_from_header h :: 'p inner48)" "n48_children (node48_from_header h :: 'p inner48) = []"
proof -
  show c: "n48_children (node48_from_header h :: 'p inner48) = []"
    by (simp add: n48_children_def n48_slots_def node48_from_header_def slots_from_Nones)
  have "n48_as (node48_from_header h :: 'p inner48) (replicate 256 EMPTY) [] (replicate 48 None)"
    using assms by (simp add: n48_as_def node48_from_header_def)
  then show "n48_inv (node48_from_header h :: 'p inner48)"
    using c by (intro n48_invI) (assumption, simp)
qed

lemma node48_lookup_spec:
  assumes "n48_inv n"
  shows "node48_lookup_child n b = Ret (map_of (n48_children n) b)"
proof -
  obtain ixs ps rest where n: "n48_as n ixs ps rest"
    using assms by (rule n48_asE)
  have "map_of (n48_children n) b = slot48 ps (ixs ! unat b)"
    by (simp add: n48_children_def map_of_slots n48_asD(3) [OF n] n48_nth_slots [OF n])
  moreover have "n48_child_indices n = ixs" "unat b < length ixs"
      "ixs ! unat b \<noteq> EMPTY \<Longrightarrow> unat (ixs ! unat b) < length ps"
    using n by (simp_all add: n48_as_def)
  ultimately show ?thesis
    by (simp add: node48_lookup_child_def n48_asD(1) [OF n] slot48_def)
qed

lemma node48_write_spec:
  assumes inv: "n48_inv n" and room: "b \<in> fst ` set (n48_children n) \<or> length (n48_children n) < 48"
  shows "\<exists>n'. node48_write_child n b p = Ret n' \<and> n48_inv n'
    \<and> n48_children n' = al_write b p (n48_children n) \<and> same_path (n48_header n) (n48_header n')"
proof -
  obtain ixs ps rest where n: "n48_as n ixs ps rest" and len: "length ps = length (n48_children n)"
    using inv by (rule n48_asE)
  have f: "n48_child_indices n = ixs" "length ixs = 256" "n48_child_pointers n = map Some ps @ rest"
      "length ps + length rest = 48" "num_children (n48_header n) = length ps"
    and bound: "\<And>c :: byte. ixs ! unat c \<noteq> EMPTY \<Longrightarrow> unat (ixs ! unat c) < length ps"
    and inj: "\<And>c d :: byte. ixs ! unat c = ixs ! unat d \<Longrightarrow> ixs ! unat c \<noteq> EMPTY \<Longrightarrow> c = d"
    using n by (auto simp: n48_as_def)
  have s: "sorted_keys (n48_children n)" by (rule n48_sorted [OF inv])
  have slots: "length (n48_slots n) = 256" by (rule n48_asD(3) [OF n])
  have children: "n48_children n' = al_write b p (n48_children n)"
    if "n48_slots n' = (n48_slots n)[unat b := Some p]" for n' :: "'a inner48"
    unfolding n48_children_def that by (rule slots_write [OF slots])
  have mem: "b \<in> fst ` set (n48_children n) \<longleftrightarrow> ixs ! unat b \<noteq> EMPTY"
    by (simp add: n48_children_def mem_slots slots n48_nth_slots [OF n] slot48_def)
  show ?thesis
  proof (cases "ixs ! unat b = EMPTY")
    case True
    then have new: "b \<notin> fst ` set (n48_children n)" and lt: "length ps < 48"
      using mem room len by auto
    then obtain r0 rest' where rest: "rest = r0 # rest'"
      using f(4) by (cases rest) auto
    obtain c where c: "inc_num_children (n48_header n) = Ret (n48_header n\<lparr>h_num_children := c\<rparr>)"
        "unat c = Suc (length ps)"
      using inc_num_children_Ret [of "n48_header n"] f(5) lt by auto
    let ?i = "of_nat (length ps) :: byte"
    have i: "unat ?i = length ps" "?i \<noteq> EMPTY"
      using lt unat_of_nat_byte [of "length ps"] by auto
    let ?n = "n\<lparr>n48_child_indices := ixs[unat b := ?i], n48_header := n48_header n\<lparr>h_num_children := c\<rparr>,
        n48_child_pointers := map Some (ps @ [p]) @ rest'\<rparr>"
    have "node48_write_child n b p = Ret ?n"
      using True f lt rest c by (simp add: node48_write_child_def Let_def restricted_from_usize_def list_update_append)
    moreover have as': "n48_as ?n (ixs[unat b := ?i]) (ps @ [p]) rest'"
      unfolding n48_as_def
    proof (intro conjI allI impI)
      fix c :: byte assume "ixs[unat b := ?i] ! unat c \<noteq> EMPTY"
      then show "unat (ixs[unat b := ?i] ! unat c) < length (ps @ [p])"
        using f(2) i bound [of c] by (cases "c = b") auto
    next
      fix c d :: byte
      assume eq: "ixs[unat b := ?i] ! unat c = ixs[unat b := ?i] ! unat d"
        and ne: "ixs[unat b := ?i] ! unat c \<noteq> EMPTY"
      have fresh: "ixs ! unat e \<noteq> ?i" for e :: byte
        using bound [of e] i by force
      show "c = d"
      proof (cases "c = b \<or> d = b")
        case True
        then show ?thesis
          using eq fresh [of c] fresh [of d] f(2) by (cases "c = b"; cases "d = b") auto
      next
        case False
        then show ?thesis using eq ne inj [of c d] by auto
      qed
    qed (use f c rest in \<open>simp_all add: num_children_def\<close>)
    moreover have "n48_slots ?n = (n48_slots n)[unat b := Some p]"
      unfolding n48_asD(2) [OF as'] n48_asD(2) [OF n]
      using f(2) i bound by (intro slots48_update) (simp_all add: slot48_def nth_append)
    then have ch: "n48_children ?n = al_write b p (n48_children n)" by (rule children)
    moreover have "n48_inv ?n"
      using ch new s len by (intro n48_invI [OF as']) (simp add: length_al_write)
    ultimately show ?thesis
      by (intro exI [of _ ?n]) simp
  next
    case False
    then have old: "b \<in> fst ` set (n48_children n)" and lt: "unat (ixs ! unat b) < length ps"
      using mem bound by auto
    let ?i = "unat (ixs ! unat b)"
    let ?n = "n\<lparr>n48_child_pointers := map Some (ps[?i := p]) @ rest\<rparr>"
    have "node48_write_child n b p = Ret ?n"
      using False f lt by (simp add: node48_write_child_def Let_def list_update_append map_update)
    moreover have as': "n48_as ?n ixs (ps[?i := p]) rest"
      using n by (simp add: n48_as_def)
    moreover have "n48_slots ?n = (n48_slots n)[unat b := Some p]"
      unfolding n48_asD(2) [OF as'] n48_asD(2) [OF n]
      using f(2) False lt bound inj
      by (intro slots48_update) (auto simp: slot48_def nth_list_update)
    then have ch: "n48_children ?n = al_write b p (n48_children n)" by (rule children)
    moreover have "n48_inv ?n"
      using ch old s len by (intro n48_invI [OF as']) (simp add: length_al_write)
    ultimately show ?thesis
      by (intro exI [of _ ?n]) simp
  qed
qed


text \<open>Removing a slot moves the indices above it down by one.\<close>

definition gap_index :: "byte \<Rightarrow> byte \<Rightarrow> byte" where
  "gap_index r i = (if restricted_partial_less r i then i - 1 else i)"

lemma unat_gap_index:
  assumes "r \<noteq> EMPTY"
  shows "unat (gap_index r i) = (if i \<noteq> EMPTY \<and> r < i then unat i - 1 else unat i)"
proof -
  have "unat (i - 1) = unat i - 1" if "r < i"
  proof -
    have "1 \<le> i" using that by (simp add: word_le_nat_alt word_less_nat_alt)
    then show ?thesis by (simp add: unat_sub)
  qed
  then show ?thesis
    using assms by (simp add: gap_index_def restricted_partial_less_def)
qed

lemma gap_index_props:
  assumes r: "r \<noteq> EMPTY" "length as = unat r" and len: "length as + length bs < 48"
    and i: "i \<noteq> r" "i \<noteq> EMPTY \<Longrightarrow> unat i \<le> length as + length bs"
  shows "gap_index r i = EMPTY \<longleftrightarrow> i = EMPTY"
    and "i \<noteq> EMPTY \<Longrightarrow> unat (gap_index r i) < length as + length bs"
    and "slot48 (as @ bs) (gap_index r i) = slot48 (as @ q # bs) i"
proof -
  have ne: "unat i \<noteq> unat r" using i(1) by simp
  have lt: "r < i \<longleftrightarrow> length as < unat i" by (simp add: word_less_nat_alt r(2))
  have E: "unat EMPTY = 48" by simp
  have u: "unat (gap_index r i) = (if i \<noteq> EMPTY \<and> length as < unat i then unat i - 1 else unat i)"
    using unat_gap_index [OF r(1), of i] by (simp add: lt)
  have eq: "gap_index r i = EMPTY \<longleftrightarrow> unat (gap_index r i) = 48"
    using E unat_byte_inj by metis
  have eq': "i = EMPTY \<longleftrightarrow> unat i = 48"
    using E unat_byte_inj by metis
  show 1: "gap_index r i = EMPTY \<longleftrightarrow> i = EMPTY"
    unfolding eq u using i(2) len eq' by auto
  show "i \<noteq> EMPTY \<Longrightarrow> unat (gap_index r i) < length as + length bs"
    using u i(2) ne r(2) by (auto split: if_splits simp del: unat_byte_inj)
  show "slot48 (as @ bs) (gap_index r i) = slot48 (as @ q # bs) i"
  proof (cases "i = EMPTY")
    case True
    with 1 show ?thesis by (simp add: slot48_def)
  next
    case False
    show ?thesis
    proof (cases "length as < unat i")
      case True
      then obtain d where "unat i = Suc (length as + d)"
        using less_imp_Suc_add by blast
      then show ?thesis
        using False 1 u by (simp add: slot48_def nth_append)
    next
      case below: False
      then have "unat i < length as" using ne r(2) by (simp del: unat_byte_inj)
      then show ?thesis
        using False 1 u below by (simp add: slot48_def nth_append)
    qed
  qed
qed

lemma gap_index_inj:
  assumes "r \<noteq> EMPTY" "i \<noteq> EMPTY" "j \<noteq> EMPTY" "i \<noteq> r" "j \<noteq> r" "gap_index r i = gap_index r j"
  shows "i = j"
proof -
  have "unat i \<noteq> unat r" "unat j \<noteq> unat r" using assms by auto
  moreover have "unat (gap_index r i) = unat (gap_index r j)" by (simp add: assms(6))
  ultimately have "unat i = unat j"
    using assms(2,3)
    by (auto simp: unat_gap_index [OF assms(1)] word_less_nat_alt split: if_splits simp del: unat_byte_inj)
  then show ?thesis by simp
qed

lemma close_index_gap_Ret:
  assumes "r \<noteq> EMPTY" "\<forall>i\<in>set ixs. i \<noteq> EMPTY \<longrightarrow> unat i < 48"
  shows "close_index_gap r ixs = Ret (map (gap_index r) ixs)"
  using assms(2)
proof (induction ixs)
  case (Cons i ixs)
  have "restricted_from_u8 (i - 1) = Some (i - 1)" if "restricted_partial_less r i"
  proof -
    have "i \<noteq> EMPTY" "r < i" using that by (auto simp: restricted_partial_less_def)
    then have "unat (i - 1) = unat i - 1" "unat i < 48"
      using unat_gap_index [OF assms(1), of i] that Cons.prems by (auto simp: gap_index_def)
    then show ?thesis by (simp add: restricted_from_u8_def word_less_nat_alt)
  qed
  with Cons show ?case by (simp add: gap_index_def)
qed simp

lemma node48_remove_spec:
  assumes inv: "n48_inv n"
  shows "\<exists>n'. node48_remove_child n b = Ret (map_of (n48_children n) b, n') \<and> n48_inv n'
    \<and> n48_children n' = al_remove b (n48_children n) \<and> same_path (n48_header n) (n48_header n')"
proof -
  obtain ixs ps rest where n: "n48_as n ixs ps rest" and len: "length ps = length (n48_children n)"
    using inv by (rule n48_asE)
  have f: "n48_child_indices n = ixs" "length ixs = 256" "n48_child_pointers n = map Some ps @ rest"
      "length ps + length rest = 48" "num_children (n48_header n) = length ps"
    and bound: "\<And>c :: byte. ixs ! unat c \<noteq> EMPTY \<Longrightarrow> unat (ixs ! unat c) < length ps"
    and inj: "\<And>c d :: byte. ixs ! unat c = ixs ! unat d \<Longrightarrow> ixs ! unat c \<noteq> EMPTY \<Longrightarrow> c = d"
    using n by (auto simp: n48_as_def)
  have slots: "length (n48_slots n) = 256" by (rule n48_asD(3) [OF n])
  have s: "sorted_keys (n48_children n)" by (rule n48_sorted [OF inv])
  have look: "map_of (n48_children n) b = slot48 ps (ixs ! unat b)"
    by (simp add: n48_children_def map_of_slots slots n48_nth_slots [OF n])
  define r where "r = ixs ! unat b"
  show ?thesis
  proof (cases "r = EMPTY")
    case True
    then have "node48_remove_child n b = Ret (None, n)" "map_of (n48_children n) b = None"
      using f look by (simp_all add: node48_remove_child_def r_def slot48_def)
    moreover from this have "al_remove b (n48_children n) = n48_children n"
      by (intro al_remove_idle) (simp add: map_of_eq_None_iff)
    ultimately show ?thesis using inv by simp
  next
    case False
    define as q bs where "as = take (unat r) ps" "q = ps ! unat r" "bs = drop (Suc (unat r)) ps"
    have R: "unat r < length ps" using bound False by (simp add: r_def)
    have ps: "ps = as @ q # bs" "length as = unat r"
      using R by (simp_all add: as_q_bs_def id_take_nth_drop)
    have lt48: "length as + length bs < 48" using ps f(4) by simp
    have "\<forall>i\<in>set ixs. i \<noteq> EMPTY \<longrightarrow> unat i < 48"
    proof (intro ballI impI)
      fix i assume "i \<in> set ixs" "i \<noteq> EMPTY"
      then obtain c :: byte where "i = ixs ! unat c"
        using f(2) unat_of_nat_byte by (metis in_set_conv_nth)
      then show "unat i < 48" using bound [of c] \<open>i \<noteq> EMPTY\<close> f(4) by simp
    qed
    then have gap: "close_index_gap r ixs = Ret (map (gap_index r) ixs)"
      by (rule close_index_gap_Ret [OF False])
    obtain zp where zp: "copy_within ((n48_child_pointers n)[unat r := None]) (Suc (unat r))
        (length ps) (unat r) = Ret (map Some (as @ bs) @ zp)" "length zp = Suc (length rest)"
      using delete_by_shift [of "map Some as" None "map Some bs" rest] f(3) ps
      by (auto simp: list_update_append)
    obtain c where c: "dec_num_children (n48_header n) = Ret (n48_header n\<lparr>h_num_children := c\<rparr>)"
        "unat c = length as + length bs"
      using dec_num_children_Ret [of "n48_header n"] f(5) ps by auto
    define ixs' where "ixs' = (map (gap_index r) ixs)[unat b := EMPTY]"
    define n' where "n' = n\<lparr>n48_header := n48_header n\<lparr>h_num_children := c\<rparr>,
        n48_child_indices := ixs', n48_child_pointers := map Some (as @ bs) @ zp\<rparr>"
    have ixs'_nth: "ixs' ! unat d = (if d = b then EMPTY else gap_index r (ixs ! unat d))" for d :: byte
      using f(2) by (auto simp: ixs'_def nth_list_update)
    have other: "ixs ! unat d \<noteq> r" if "d \<noteq> b" for d
      using inj [of d b] that False by (auto simp: r_def)
    have small: "ixs ! unat d \<noteq> EMPTY \<Longrightarrow> unat (ixs ! unat d) \<le> length as + length bs" for d :: byte
      using bound [of d] ps by simp
    note gp = gap_index_props [OF False ps(2) lt48 other small]
    have ptr: "index_at (n48_child_pointers n) (unat r) = Ret (Some q)"
      using f(3) ps nth_map_mid [of Some as "Some q"] by simp
    have "unat r < length (n48_child_pointers n)" using R f(3) by simp
    then have "node48_remove_child n b = Ret (Some q, n')"
      using False f(1,2,5) ptr zp(1) gap c
      by (simp add: node48_remove_child_def n'_def ixs'_def flip: r_def)
    moreover have "map_of (n48_children n) b = Some q"
      using look False by (simp add: slot48_def as_q_bs_def flip: r_def)
    moreover have as': "n48_as n' ixs' (as @ bs) zp"
      unfolding n48_as_def
    proof (intro conjI allI impI)
      fix d :: byte assume "ixs' ! unat d \<noteq> EMPTY"
      then show "unat (ixs' ! unat d) < length (as @ bs)"
        using gp(1,2) [of d] by (auto simp: ixs'_nth split: if_splits)
    next
      fix d e :: byte assume "ixs' ! unat d = ixs' ! unat e" "ixs' ! unat d \<noteq> EMPTY"
      then show "d = e"
        using gp(1) [of d] gp(1) [of e] gap_index_inj [OF False, of "ixs ! unat d" "ixs ! unat e"]
          other [of d] other [of e] inj [of d e]
        by (auto simp: ixs'_nth split: if_splits)
    qed (use f(2,4) zp(2) c ps in \<open>simp_all add: n'_def ixs'_def num_children_def\<close>)
    moreover have "n48_slots n' = (n48_slots n)[unat b := None]"
      unfolding n48_asD(2) [OF as'] n48_asD(2) [OF n]
    proof (rule slots48_update)
      fix d :: byte assume "d \<noteq> b"
      then show "slot48 (as @ bs) (ixs' ! unat d) = slot48 ps (ixs ! unat d)"
        using gp(3) [of d q] by (simp add: ixs'_nth ps(1))
    qed (use f(2) in \<open>simp_all add: ixs'_def slot48_def\<close>)
    then have ch: "n48_children n' = al_remove b (n48_children n)"
      unfolding n48_children_def by (simp add: slots_remove slots)
    moreover have "b \<in> fst ` set (n48_children n)"
      using look False by (simp add: n48_children_def mem_slots slots n48_nth_slots [OF n] slot48_def flip: r_def)
    then have "length (n48_children n') = length (as @ bs)"
      using ch s len ps(1) by (simp add: length_al_remove)
    then have "n48_inv n'" by (rule n48_invI [OF as'])
    ultimately show ?thesis
      by (intro exI [of _ n']) (simp add: n'_def)
  qed
qed


text \<open>Iteration, in the order of the key bytes.\<close>

lemma present_eq:
  "List.map_filter (\<lambda>(key, idx). if idx \<noteq> EMPTY then Some (f key, unat idx) else None) es
    = map (\<lambda>(key, idx). (f key, unat idx)) (filter (\<lambda>(key, idx). idx \<noteq> EMPTY) es)"
  by (induction es) auto

lemma slots_map_filter:
  "List.map_filter (\<lambda>(key, x). map_option (\<lambda>p. (f key, p)) x) (enumerate k (map (slot48 ps) ixs))
    = map (\<lambda>(key, idx). (f key, ps ! unat idx)) (filter (\<lambda>(key, idx). idx \<noteq> EMPTY) (enumerate k ixs))"
  by (induction ixs arbitrary: k) (auto simp: slot48_def)

lemma n48_as_bound:
  assumes "n48_as n ixs ps rest" "i \<in> set ixs" "i \<noteq> EMPTY"
  shows "unat i < length ps"
proof -
  obtain c :: byte where "i = ixs ! unat c"
    using assms(1,2) unat_of_nat_byte by (metis in_set_conv_nth n48_as_def)
  then show ?thesis using assms by (simp add: n48_as_def)
qed

lemma node48_iter_spec:
  assumes "n48_inv n"
  shows "node48_iter n = Ret (n48_children n)"
proof -
  obtain ixs ps rest where n: "n48_as n ixs ps rest"
    using assms by (rule n48_asE)
  have ixs: "n48_child_indices n = ixs" using n by (simp add: n48_as_def)
  have "\<forall>(key, idx)\<in>set (map (\<lambda>(key, idx). (of_nat key :: byte, unat idx))
      (filter (\<lambda>(key, idx). idx \<noteq> EMPTY) (enumerate 0 ixs))). idx < length ps"
    using n48_as_bound [OF n] by (auto simp: in_set_enumerate_eq dest!: nth_mem)
  moreover have "n48_children n
      = map (\<lambda>(key, idx). (of_nat key, ps ! unat idx)) (filter (\<lambda>(key, idx). idx \<noteq> EMPTY) (enumerate 0 ixs))"
    unfolding n48_children_def n48_asD(2) [OF n]
    by (subst slots_from_map_filter [where k = 0 and f = of_nat]) (simp_all add: slots_map_filter)
  ultimately show ?thesis
    unfolding node48_iter_def n48_asD(1) [OF n] ixs present_eq
    by (simp add: Let_def comp_def split_def) blast
qed

lemma node48_range_spec:
  assumes "n48_inv n"
  shows "node48_range n lo hi =
    (if byte_start lo \<le> byte_stop hi
     then Ret (filter (\<lambda>c. within lo hi (fst c)) (n48_children n)) else Panic)"
proof (cases "byte_start lo \<le> byte_stop hi")
  case True
  obtain ixs ps rest where n: "n48_as n ixs ps rest"
    using assms by (rule n48_asE)
  have ixs: "n48_child_indices n = ixs" "length ixs = 256" using n by (simp_all add: n48_as_def)
  let ?s = "take (byte_stop hi - byte_start lo) (drop (byte_start lo) ixs)"
  have sub: "set ?s \<subseteq> set ixs"
    by (meson set_drop_subset set_take_subset subset_trans)
  have "\<forall>(key, idx)\<in>set (map (\<lambda>(key, idx). (of_nat key :: byte, unat idx))
      (filter (\<lambda>(key, idx). idx \<noteq> EMPTY) (enumerate 0 ?s))). idx < length ps"
    using n48_as_bound [OF n] sub by (auto simp: in_set_enumerate_eq dest!: nth_mem)
  moreover have "filter (\<lambda>c. within lo hi (fst c)) (n48_children n)
      = slots_from (byte_start lo) (map (slot48 ps) ?s)"
    unfolding n48_children_def n48_asD(2) [OF n]
    using ixs(2) True by (subst filter_within_slots) (simp_all add: take_map drop_map)
  moreover have "slots_from (byte_start lo) (map (slot48 ps) ?s)
      = map (\<lambda>(key, idx). (saturating_add (of_nat key) (key_offset lo), ps ! unat idx))
          (filter (\<lambda>(key, idx). idx \<noteq> EMPTY) (enumerate 0 ?s))"
    using ixs(2) byte_stop_le [of hi] True
    by (subst slots_from_map_filter [where k = 0 and f = "\<lambda>k. saturating_add (of_nat k) (key_offset lo)"])
      (auto simp: slots_map_filter key_offset_add)
  ultimately show ?thesis
    using True slice_byte_bounds [OF ixs(2), of lo hi]
    unfolding node48_range_def n48_asD(1) [OF n] ixs(1) present_eq
    by (simp add: Let_def comp_def split_def) blast
next
  case False
  obtain ixs ps rest where n: "n48_as n ixs ps rest"
    using assms by (rule n48_asE)
  have ixs: "n48_child_indices n = ixs" "length ixs = 256" using n by (simp_all add: n48_as_def)
  show ?thesis
    using False by (simp add: node48_range_def n48_asD(1) [OF n] ixs slice_byte_bounds)
qed

lemma node48_first_eq:
  assumes "n48_as n ixs ps rest" "snd ` set es \<subseteq> set ixs"
  shows "node48_first n es = (case filter (\<lambda>(k, i). i \<noteq> EMPTY) es of [] \<Rightarrow> Panic
    | (k, i) # _ \<Rightarrow> Ret (of_nat k, ps ! unat i))"
  using assms(2)
proof (induction es)
  case (Cons e es)
  then show ?case
    using n48_as_bound [OF assms(1)] n48_asD(1) [OF assms(1)] by (cases e) auto
qed simp

lemma n48_children_eq:
  assumes "n48_as n ixs ps rest"
  shows "n48_children n
    = map (\<lambda>(key, idx). (of_nat key, ps ! unat idx)) (filter (\<lambda>(key, idx). idx \<noteq> EMPTY) (enumerate 0 ixs))"
  unfolding n48_children_def n48_asD(2) [OF assms]
  by (subst slots_from_map_filter [where k = 0 and f = of_nat]) (simp_all add: slots_map_filter)

lemma snd_enumerate: "snd ` set (enumerate k xs) = set xs"
  by (metis list.set_map map_snd_enumerate)

lemma node48_min_spec:
  assumes "n48_inv n" "n48_children n \<noteq> []"
  shows "node48_min n = Ret (hd (n48_children n))"
proof -
  obtain ixs ps rest where n: "n48_as n ixs ps rest"
    using assms(1) by (rule n48_asE)
  have ixs: "n48_child_indices n = ixs" using n by (simp add: n48_as_def)
  show ?thesis
    using assms(2) node48_first_eq [OF n, of "enumerate 0 ixs"]
    by (auto simp: node48_min_def ixs snd_enumerate n48_children_eq [OF n] split: list.splits)
qed

lemma node48_max_spec:
  assumes "n48_inv n" "n48_children n \<noteq> []"
  shows "node48_max n = Ret (last (n48_children n))"
proof -
  obtain ixs ps rest where n: "n48_as n ixs ps rest"
    using assms(1) by (rule n48_asE)
  have ixs: "n48_child_indices n = ixs" using n by (simp add: n48_as_def)
  show ?thesis
    using assms(2) node48_first_eq [OF n, of "rev (enumerate 0 ixs)"]
    by (auto simp: node48_max_def ixs snd_enumerate n48_children_eq [OF n] last_map
        simp flip: rev_filter hd_rev split: list.splits)
qed

lemma node48_simd_spec:
  assumes "n48_inv n" "n48_children n \<noteq> []"
  shows "node48_min_simd n = node48_min n" "node48_max_simd n = node48_max n"
proof -
  obtain ixs ps rest where n: "n48_as n ixs ps rest"
    using assms(1) by (rule n48_asE)
  have ixs: "n48_child_indices n = ixs" "length ixs = 256" using n by (simp_all add: n48_as_def)
  have len: "length (n48_slots n) = 256" by (rule n48_asD(3) [OF n])
  have ne: "slots_from 0 (n48_slots n) \<noteq> []"
    using assms(2) by (simp add: n48_children_def)
  have vac: "map (\<lambda>x. x = None) (n48_slots n) = map (\<lambda>idx. idx = 48) ixs"
    by (simp add: n48_asD(2) [OF n] slot48_def)
  have at: "node48_child_of n k = Ret (of_nat k, p)" if "k < 256" "n48_slots n ! k = Some p" for k p
  proof -
    have "slot48 ps (ixs ! k) = Some p" using that ixs by (simp add: n48_asD(2) [OF n])
    then have "ixs ! k \<noteq> EMPTY" "ps ! unat (ixs ! k) = p" by (auto simp: slot48_def split: if_splits)
    moreover from this have "unat (ixs ! k) < length ps"
      using that ixs by (intro n48_as_bound [OF n]) simp_all
    ultimately show ?thesis
      using that ixs by (simp add: node48_child_of_def n48_asD(1) [OF n])
  qed
  show "node48_min_simd n = node48_min n"
    using first_occupied_slots [OF len ne] at
    by (auto simp: node48_min_simd_def node48_min_spec [OF assms] n48_children_def ixs(1) vac)
  show "node48_max_simd n = node48_max n"
    using last_occupied_slots [OF len ne] at
    by (auto simp: node48_max_simd_def node48_max_spec [OF assms] n48_children_def ixs(1) vac)
qed

section \<open>Building and leaving a Node48\<close>

text \<open>
  Numbering the key bytes in the order of their children, as growing from 16 and shrinking
  from 256 slots do.
\<close>

fun number_keys :: "nat \<Rightarrow> bytes \<Rightarrow> byte list \<Rightarrow> byte list outcome" where
  "number_keys index [] indices = Ret indices"
| "number_keys index (key # keys) indices =
     and_then (unwrap_unchecked (restricted_from_usize index)) (\<lambda>ri.
     and_then (store_at indices (unat key) ri) (\<lambda>indices.
     number_keys (Suc index) keys indices))"

lemma number_keys_Ret:
  assumes "i + length ks \<le> 48" "length arr = 256" "distinct ks"
  shows "\<exists>arr'. number_keys i ks arr = Ret arr' \<and> length arr' = 256 \<and>
    (\<forall>b. b \<notin> set ks \<longrightarrow> arr' ! unat b = arr ! unat b) \<and>
    (\<forall>j<length ks. arr' ! unat (ks ! j) = of_nat (i + j))"
  using assms
proof (induction ks arbitrary: i arr)
  case (Cons k ks)
  let ?arr = "arr[unat k := of_nat i]"
  obtain arr' where arr': "number_keys (Suc i) ks ?arr = Ret arr'" "length arr' = 256"
    "\<forall>b. b \<notin> set ks \<longrightarrow> arr' ! unat b = ?arr ! unat b"
    "\<forall>j<length ks. arr' ! unat (ks ! j) = of_nat (Suc i + j)"
    using Cons.IH [of "Suc i" ?arr] Cons.prems by auto
  have k: "arr' ! unat k = of_nat i"
    using arr'(3) Cons.prems by simp
  have "arr' ! unat ((k # ks) ! j) = of_nat (i + j)" if "j < length (k # ks)" for j
    using that k arr'(4) by (cases j) (simp_all add: ac_simps)
  moreover have "number_keys i (k # ks) arr = Ret arr'"
    using arr'(1) Cons.prems by (simp add: restricted_from_usize_def)
  moreover have "\<forall>b. b \<notin> set (k # ks) \<longrightarrow> arr' ! unat b = arr ! unat b"
    using arr'(3) by auto
  ultimately show ?case
    using arr'(2) by blast
qed simp

text \<open>A node whose indices number its keys has the keys paired with its pointers as children.\<close>

lemma numbered_node48:
  assumes s: "sorted_wrt (<) ks" and len: "length ps = length ks" "length ks \<le> 48"
    and num: "number_keys 0 ks (replicate 256 EMPTY) = Ret ixs"
    and nc: "num_children h = length ks"
  defines "n \<equiv> \<lparr>n48_header = h, n48_child_indices = ixs,
      n48_child_pointers = map Some ps @ replicate (48 - length ks) None\<rparr>"
  shows "n48_inv n \<and> n48_children n = zip ks ps"
proof -
  have d: "distinct ks" using s by (simp add: strict_sorted_iff)
  have ixs: "length ixs = 256"
    and none: "\<And>b. b \<notin> set ks \<Longrightarrow> ixs ! unat b = EMPTY"
    and at: "\<And>j. j < length ks \<Longrightarrow> ixs ! unat (ks ! j) = of_nat j"
    using number_keys_Ret [of 0 ks "replicate 256 EMPTY"] num len d by auto
  have val: "ixs ! unat b = of_nat j \<and> unat (of_nat j :: byte) = j \<and> (of_nat j :: byte) \<noteq> EMPTY"
    if "j < length ks" "ks ! j = b" for b :: byte and j
  proof -
    have "unat (of_nat j :: byte) = j" using that len by (intro unat_of_nat_byte) simp
    moreover from this have "(of_nat j :: byte) \<noteq> EMPTY" using that len by auto
    ultimately show ?thesis using at that by auto
  qed
  have as: "n48_as n ixs ps (replicate (48 - length ks) None)"
    unfolding n48_as_def
  proof (intro conjI allI impI)
    fix b :: byte assume "ixs ! unat b \<noteq> EMPTY"
    then obtain j where "j < length ks" "ks ! j = b"
      using none by (metis in_set_conv_nth)
    then show "unat (ixs ! unat b) < length ps" using val len by simp
  next
    fix b c :: byte assume eq: "ixs ! unat b = ixs ! unat c" "ixs ! unat b \<noteq> EMPTY"
    then obtain i j where "i < length ks" "ks ! i = b" "j < length ks" "ks ! j = c"
      using none by (metis in_set_conv_nth)
    then show "b = c" using val [of i b] val [of j c] eq by metis
  qed (use ixs len nc in \<open>simp_all add: n_def\<close>)
  have sz: "sorted_keys (zip ks ps)" using s len by simp
  have ch: "n48_children n = zip ks ps"
    unfolding n48_children_def
  proof (rule slots_eqI [OF n48_asD(3) [OF as] sz])
    fix b :: byte
    show "n48_slots n ! unat b = map_of (zip ks ps) b"
    proof (cases "b \<in> set ks")
      case True
      then obtain j where j: "j < length ks" "ks ! j = b" by (metis in_set_conv_nth)
      then have "(b, ps ! j) \<in> set (zip ks ps)" using len by (auto simp: set_zip)
      then have "map_of (zip ks ps) b = Some (ps ! j)" by (rule map_of_SomeI [OF sz])
      then show ?thesis
        using val [OF j] by (simp add: n48_nth_slots [OF as] slot48_def)
    next
      case False
      then have "map_of (zip ks ps) b = None" using len by (simp add: map_of_eq_None_iff)
      then show ?thesis
        using none [OF False] by (simp add: n48_nth_slots [OF as] slot48_def)
    qed
  qed
  then show ?thesis
    using n48_invI [OF as] len by simp
qed

definition grow_node48 :: "'p inner_compressed \<Rightarrow> 'p inner48 outcome" where
  "grow_node48 n =
     and_then (initialized_portion n) (\<lambda>(keys, _).
     and_then (assert_that (length keys = length (c_keys n))) (\<lambda>_.
     and_then (number_keys 0 keys (replicate 256 EMPTY)) (\<lambda>child_indices.
     let nc = num_children (c_header n); child_pointers = replicate 48 None in
     and_then (assume_that (nc \<le> length (c_child_pointers n))) (\<lambda>_.
     and_then (assume_that (nc \<le> length child_pointers)) (\<lambda>_.
     and_then (copy_prefix nc (c_child_pointers n) child_pointers) (\<lambda>child_pointers.
     Ret \<lparr>n48_header = c_header n, n48_child_indices = child_indices,
          n48_child_pointers = child_pointers\<rparr>))))))"

lemma grow_node48_spec:
  assumes inv: "compressed_inv 16 n" and full: "length (c_children n) = 16"
  shows "\<exists>n'. grow_node48 n = Ret n' \<and> n48_inv n' \<and> n48_children n' = c_children n
    \<and> n48_header n' = c_header n"
proof -
  obtain ks ps kr pr where n: "compressed_as n ks ps kr pr" and s: "sorted_wrt (<) ks"
    and len: "length ks + length kr = 16"
    using inv by (rule compressed_asE)
  have f: "c_keys n = map Some ks @ kr" "c_child_pointers n = map Some ps @ pr"
      "length ps = length ks" "num_children (c_header n) = length ks" "length ks = 16"
    using n full by (auto simp: compressed_as_def compressed_asD(1) [OF n])
  have "distinct ks" using s by (simp add: strict_sorted_iff)
  then obtain ixs where ixs: "number_keys 0 ks (replicate 256 EMPTY) = Ret ixs"
    using number_keys_Ret [of 0 ks "replicate 256 EMPTY"] f(5) by auto
  let ?n = "\<lparr>n48_header = c_header n, n48_child_indices = ixs,
      n48_child_pointers = map Some ps @ replicate (48 - length ks) None\<rparr>"
  have "kr = []" using len f(5) by simp
  then have "grow_node48 n = Ret ?n"
    using f ixs by (simp add: grow_node48_def compressed_asD(2) [OF n] copy_prefix_def Let_def)
  then show ?thesis
    using numbered_node48 [OF s f(3) _ ixs f(4)] f(5) by (simp add: compressed_asD(1) [OF n])
qed

lemma node48_shrink_eq:
  assumes inv: "n48_inv n" and few: "length (n48_children n) \<le> 16"
  defines "cs \<equiv> n48_children n"
  shows "node48_shrink n = Ret \<lparr>c_header = n48_header n, c_keys = map Some (map fst cs) @ replicate (16 - length cs) None,
      c_child_pointers = map Some (map snd cs) @ replicate (16 - length cs) None\<rparr>"
proof -
  have s: "sorted_keys cs" and nc: "num_children (n48_header n) = length cs"
    using inv unfolding cs_def by (rule n48_sorted, rule n48_count)
  have store: "store_from (replicate 16 None) 0 xs = Ret (map Some xs @ replicate (16 - length xs) None)"
    if "length xs \<le> 16" for xs :: "'b list"
    using store_from_Ret [of "replicate 16 None" xs "replicate (16 - length xs) ()" "[]"] that by simp
  have "sorted (map fst cs)" using s by (simp add: strict_sorted_iff)
  then have sort: "sort_key fst cs = cs" by (rule sort_key_id_if_sorted)
  show ?thesis
    using few nc by (simp add: node48_shrink_def node48_iter_spec [OF inv] store slice_range_def sort
        Let_def cs_def [symmetric] del: map_map)
qed

lemma node48_shrink_spec:
  assumes inv: "n48_inv n" and few: "length (n48_children n) \<le> 16"
  shows "\<exists>n'. node48_shrink n = Ret n' \<and> compressed_inv 16 n' \<and> c_children n' = n48_children n
    \<and> c_header n' = n48_header n"
proof -
  let ?cs = "n48_children n"
  have s: "sorted_keys ?cs" and nc: "num_children (n48_header n) = length ?cs"
    using inv by (rule n48_sorted, rule n48_count)
  let ?n = "\<lparr>c_header = n48_header n, c_keys = map Some (map fst ?cs) @ replicate (16 - length ?cs) None,
      c_child_pointers = map Some (map snd ?cs) @ replicate (16 - length ?cs) None\<rparr>"
  have as: "compressed_as ?n (map fst ?cs) (map snd ?cs)
      (replicate (16 - length ?cs) None) (replicate (16 - length ?cs) None)"
    using nc by (simp add: compressed_as_def)
  then show ?thesis
    using node48_shrink_eq [OF inv few] compressed_invI [OF as s] compressed_asD(1) [OF as] few
    by (simp add: zip_map_fst_snd)
qed


text \<open>Both ends of the iterator, over the children that are left.\<close>

definition n48_left :: "'p list \<Rightarrow> (nat \<times> byte) list \<Rightarrow> (byte \<times> 'p) list" where
  "n48_left ps it = map (\<lambda>(key, idx). (of_nat key, ps ! unat idx)) (filter (\<lambda>(key, idx). idx \<noteq> EMPTY) it)"

definition n48_left_ok :: "'p list \<Rightarrow> (nat \<times> byte) list \<Rightarrow> bool" where
  "n48_left_ok ps it \<longleftrightarrow> (\<forall>(key, idx)\<in>set it. idx \<noteq> EMPTY \<longrightarrow> unat idx < length ps)"

lemma node48_iter_next_spec:
  assumes "n48_left_ok ps it"
  shows "\<exists>item rest. node48_iter_next ps it = Ret (item, rest) \<and> n48_left_ok ps rest \<and>
    n48_left ps it = (case item of None \<Rightarrow> [] | Some c \<Rightarrow> c # n48_left ps rest)"
  using assms
proof (induction ps it rule: node48_iter_next.induct)
  case (2 ps key idx it)
  then show ?case
    by (cases "idx = EMPTY") (auto simp: n48_left_ok_def n48_left_def)
qed (simp add: n48_left_ok_def n48_left_def)

lemma node48_iter_next_back_spec:
  assumes "n48_left_ok ps it"
  shows "\<exists>item rest. node48_iter_next_back ps it = Ret (item, rest) \<and> n48_left_ok ps rest \<and>
    n48_left ps it = (case item of None \<Rightarrow> [] | Some c \<Rightarrow> n48_left ps rest @ [c])"
proof -
  have rev: "n48_left ps (rev it) = rev (n48_left ps it)" for it
    by (simp add: n48_left_def rev_filter rev_map)
  have ok: "n48_left_ok ps (rev it) = n48_left_ok ps it" for it
    by (simp add: n48_left_ok_def)
  obtain item r where r: "node48_iter_next ps (rev it) = Ret (item, r)" "n48_left_ok ps r"
    "rev (n48_left ps it) = (case item of None \<Rightarrow> [] | Some c \<Rightarrow> c # n48_left ps r)"
    using node48_iter_next_spec [of ps "rev it"] assms by (auto simp: rev ok)
  then have "n48_left ps it = (case item of None \<Rightarrow> [] | Some c \<Rightarrow> n48_left ps (rev r) @ [c])"
    by (cases item) (simp_all add: rev rev_swap)
  then show ?thesis
    using r by (simp add: node48_iter_next_back_def ok)
qed

section \<open>The contract\<close>

interpretation n48: inner_node n48_inv n48_header n48_children "\<lambda>_. 48" node48_lookup_child
    node48_write_child node48_remove_child node48_iter node48_min node48_max
proof unfold_locales
  fix n :: "'p inner48" and b p
  assume "n48_inv n" "b \<in> fst ` set (n48_children n) \<or> length (n48_children n) < 48"
  then show "\<exists>n'. node48_write_child n b p = Ret n' \<and> n48_inv n'
    \<and> n48_children n' = al_write b p (n48_children n) \<and> same_path (n48_header n) (n48_header n')
    \<and> (48 :: nat) = 48"
    using node48_write_spec [of n b p] by simp
qed (simp_all add: n48_sorted n48_count n48_fit node48_lookup_spec
  node48_remove_spec node48_iter_spec node48_min_spec node48_max_spec)

end
