(* ===== verification/Node256.thy ===== *)
theory Node256
  imports Node48
begin

text \<open>
  Inner nodes with 256 slots (\<open>src/src/nodes/representation/inner_node_256.rs\<close>): the key
  byte is the index of the child's slot.
\<close>

section \<open>State and operations\<close>

record 'p inner256 =
  n256_header :: header
  n256_child_pointers :: "'p option list"

definition node256_from_header :: "header \<Rightarrow> 'p inner256" where
  "node256_from_header h = \<lparr>n256_header = h, n256_child_pointers = replicate 256 None\<rparr>"

definition node256_lookup_child :: "'p inner256 \<Rightarrow> byte \<Rightarrow> 'p option outcome" where
  "node256_lookup_child n key_fragment = index_at (n256_child_pointers n) (unat key_fragment)"

definition node256_write_child :: "'p inner256 \<Rightarrow> byte \<Rightarrow> 'p \<Rightarrow> 'p inner256 outcome" where
  "node256_write_child n key_fragment child_pointer =
     (let key_fragment_idx = unat key_fragment in
      and_then (index_at (n256_child_pointers n) key_fragment_idx) (\<lambda>existing_pointer.
      and_then (store_at (n256_child_pointers n) key_fragment_idx (Some child_pointer)) (\<lambda>ps.
      let n = n\<lparr>n256_child_pointers := ps\<rparr> in
      if existing_pointer = None
      then and_then (inc_num_children (n256_header n)) (\<lambda>h. Ret (n\<lparr>n256_header := h\<rparr>))
      else Ret n)))"

definition node256_remove_child :: "'p inner256 \<Rightarrow> byte \<Rightarrow> ('p option \<times> 'p inner256) outcome" where
  "node256_remove_child n key_fragment =
     and_then (index_at (n256_child_pointers n) (unat key_fragment)) (\<lambda>removed_child.
     and_then (store_at (n256_child_pointers n) (unat key_fragment) None) (\<lambda>ps.
     let n = n\<lparr>n256_child_pointers := ps\<rparr> in
     if removed_child \<noteq> None
     then and_then (dec_num_children (n256_header n)) (\<lambda>h. Ret (removed_child, n\<lparr>n256_header := h\<rparr>))
     else Ret (removed_child, n)))"

definition node256_grow :: "'p inner256 \<Rightarrow> 'p inner256 outcome" where
  "node256_grow n = Panic"

definition node256_iter :: "'p inner256 \<Rightarrow> (byte \<times> 'p) list outcome" where
  "node256_iter n = Ret (List.map_filter (\<lambda>(key, node). map_option (\<lambda>node. (of_nat key, node)) node)
     (enumerate 0 (n256_child_pointers n)))"

fun node256_shrink_from ::
    "nat \<Rightarrow> (byte \<times> 'p) list \<Rightarrow> byte list \<Rightarrow> 'p option list \<Rightarrow> (byte list \<times> 'p option list) outcome" where
  "node256_shrink_from child_index [] indices ptrs = Ret (indices, ptrs)"
| "node256_shrink_from child_index ((key_byte, child_ptr) # cs) indices ptrs =
     and_then (unwrap (restricted_from_usize child_index)) (\<lambda>ri.
     and_then (store_at indices (unat key_byte) ri) (\<lambda>indices.
     and_then (store_at ptrs child_index (Some child_ptr)) (\<lambda>ptrs.
     node256_shrink_from (Suc child_index) cs indices ptrs)))"

definition node256_shrink :: "'p inner256 \<Rightarrow> 'p inner48 outcome" where
  "node256_shrink n =
     and_then (assert_that (num_children (n256_header n) \<le> 48)) (\<lambda>_.
     and_then (node256_iter n) (\<lambda>cs.
     and_then (node256_shrink_from 0 cs (replicate 256 EMPTY) (replicate 48 None)) (\<lambda>(indices, ptrs).
     Ret \<lparr>n48_header = n256_header n, n48_child_indices = indices, n48_child_pointers = ptrs\<rparr>)))"

definition node256_range :: "'p inner256 \<Rightarrow> byte bound \<Rightarrow> byte bound \<Rightarrow> (byte \<times> 'p) list outcome" where
  "node256_range n lo hi =
     and_then (slice_bounds (n256_child_pointers n) (map_bound unat lo) (map_bound unat hi)) (\<lambda>slots.
     Ret (List.map_filter
       (\<lambda>(key, child). map_option (\<lambda>child. (saturating_add (of_nat key) (key_offset lo), child)) child)
       (enumerate 0 slots)))"

fun node256_first :: "(nat \<times> 'p option) list \<Rightarrow> (byte \<times> 'p) outcome" where
  "node256_first [] = Panic"
| "node256_first ((key, Some child_pointer) # slots) = Ret (of_nat key, child_pointer)"
| "node256_first ((key, None) # slots) = node256_first slots"

definition node256_min :: "'p inner256 \<Rightarrow> (byte \<times> 'p) outcome" where
  "node256_min n = node256_first (enumerate 0 (n256_child_pointers n))"

definition node256_max :: "'p inner256 \<Rightarrow> (byte \<times> 'p) outcome" where
  "node256_max n = node256_first (rev (enumerate 0 (n256_child_pointers n)))"

definition node256_min_simd :: "'p inner256 \<Rightarrow> (byte \<times> 'p) outcome" where
  "node256_min_simd n =
     (let key = first_occupied (map (\<lambda>p. p = None) (n256_child_pointers n)) in
      and_then (assume_that (key < length (n256_child_pointers n))) (\<lambda>_.
      and_then (index_at (n256_child_pointers n) key) (\<lambda>slot.
      and_then (unwrap_unchecked slot) (\<lambda>p. Ret (of_nat key, p)))))"

definition node256_max_simd :: "'p inner256 \<Rightarrow> (byte \<times> 'p) outcome" where
  "node256_max_simd n =
     and_then (last_occupied (map (\<lambda>p. p = None) (n256_child_pointers n))) (\<lambda>key.
     and_then (assume_that (key < length (n256_child_pointers n))) (\<lambda>_.
     and_then (index_at (n256_child_pointers n) key) (\<lambda>slot.
     and_then (unwrap_unchecked slot) (\<lambda>p. Ret (of_nat key, p)))))"

text \<open>The double-ended iterator, over the slots it has left.\<close>

fun node256_iter_next :: "(nat \<times> 'p option) list \<Rightarrow> (byte \<times> 'p) option \<times> (nat \<times> 'p option) list" where
  "node256_iter_next [] = (None, [])"
| "node256_iter_next ((key, Some node) # it) = (Some (of_nat key, node), it)"
| "node256_iter_next ((key, None) # it) = node256_iter_next it"

definition node256_iter_next_back ::
    "(nat \<times> 'p option) list \<Rightarrow> (byte \<times> 'p) option \<times> (nat \<times> 'p option) list" where
  "node256_iter_next_back it =
     (let (item, rest) = node256_iter_next (rev it) in (item, rev rest))"

section \<open>Invariant and abstract value\<close>

definition n256_children :: "'p inner256 \<Rightarrow> (byte \<times> 'p) list" where
  "n256_children n = slots_from 0 (n256_child_pointers n)"

definition n256_inv :: "'p inner256 \<Rightarrow> bool" where
  "n256_inv n \<longleftrightarrow> length (n256_child_pointers n) = 256
     \<and> num_children (n256_header n) = length (n256_children n)"

section \<open>The operations on the abstract value\<close>

lemma n256_sorted: "n256_inv n \<Longrightarrow> sorted_keys (n256_children n)"
  by (simp add: n256_inv_def n256_children_def sorted_slots)

lemma n256_count: "n256_inv n \<Longrightarrow> num_children (n256_header n) = length (n256_children n)"
  by (simp add: n256_inv_def)

lemma sorted_bytes_length: "sorted_wrt (<) (ks :: bytes) \<Longrightarrow> length ks \<le> 256"
proof -
  assume "sorted_wrt (<) ks"
  then have "distinct (map unat ks)"
    by (auto simp: distinct_map strict_sorted_iff inj_on_def)
  then have "length ks = card (unat ` set ks)"
    by (metis distinct_card length_map list.set_map)
  also have "\<dots> \<le> card {..<256 :: nat}"
    by (intro card_mono) auto
  finally show ?thesis by simp
qed

lemma n256_fit: "n256_inv n \<Longrightarrow> length (n256_children n) \<le> 256"
  using sorted_bytes_length [OF n256_sorted] by simp

lemma node256_from_header_inv:
  assumes "num_children h = 0"
  shows "n256_inv (node256_from_header h :: 'p inner256)" "n256_children (node256_from_header h :: 'p inner256) = []"
  using assms by (simp_all add: n256_inv_def n256_children_def node256_from_header_def slots_from_Nones)

lemma node256_lookup_spec: "n256_inv n \<Longrightarrow> node256_lookup_child n b = Ret (map_of (n256_children n) b)"
  by (simp add: n256_inv_def n256_children_def node256_lookup_child_def map_of_slots)

lemma node256_write_spec:
  assumes "n256_inv n"
  shows "\<exists>n'. node256_write_child n b p = Ret n' \<and> n256_inv n'
    \<and> n256_children n' = al_write b p (n256_children n) \<and> same_path (n256_header n) (n256_header n')"
proof -
  let ?xs = "n256_child_pointers n"
  have len: "length ?xs = 256" and cnt: "num_children (n256_header n) = length (n256_children n)"
    using assms by (simp_all add: n256_inv_def)
  have s: "sorted_keys (n256_children n)" by (rule n256_sorted [OF assms])
  note upd = slots_write [OF len, of b p, folded n256_children_def]
  show ?thesis
  proof (cases "?xs ! unat b")
    case None
    then have new: "b \<notin> fst ` set (n256_children n)"
      by (simp add: n256_children_def mem_slots len)
    obtain c where c: "inc_num_children (n256_header n) = Ret (n256_header n\<lparr>h_num_children := c\<rparr>)"
        "unat c = Suc (length (n256_children n))"
      using inc_num_children_Ret [of "n256_header n"] cnt n256_fit [OF assms] by auto
    let ?n = "n\<lparr>n256_header := n256_header n\<lparr>h_num_children := c\<rparr>, n256_child_pointers := ?xs[unat b := Some p]\<rparr>"
    have "node256_write_child n b p = Ret ?n"
      using None c len by (simp add: node256_write_child_def Let_def)
    moreover have "n256_children ?n = al_write b p (n256_children n)"
      using upd by (simp add: n256_children_def)
    moreover have "num_children (n256_header ?n) = length (al_write b p (n256_children n))"
      using c new s by (simp add: num_children_def length_al_write)
    ultimately show ?thesis
      using len by (intro exI [of _ ?n]) (simp add: n256_inv_def)
  next
    case (Some q)
    then have old: "b \<in> fst ` set (n256_children n)"
      by (simp add: n256_children_def mem_slots len)
    let ?n = "n\<lparr>n256_child_pointers := ?xs[unat b := Some p]\<rparr>"
    have "node256_write_child n b p = Ret ?n"
      using Some len by (simp add: node256_write_child_def Let_def)
    moreover have "n256_children ?n = al_write b p (n256_children n)"
      using upd by (simp add: n256_children_def)
    ultimately show ?thesis
      using len cnt old s by (intro exI [of _ ?n]) (simp add: n256_inv_def length_al_write)
  qed
qed

lemma node256_remove_spec:
  assumes "n256_inv n"
  shows "\<exists>n'. node256_remove_child n b = Ret (map_of (n256_children n) b, n') \<and> n256_inv n'
    \<and> n256_children n' = al_remove b (n256_children n) \<and> same_path (n256_header n) (n256_header n')"
proof -
  let ?xs = "n256_child_pointers n"
  have len: "length ?xs = 256" and cnt: "num_children (n256_header n) = length (n256_children n)"
    using assms by (simp_all add: n256_inv_def)
  have s: "sorted_keys (n256_children n)" by (rule n256_sorted [OF assms])
  have look: "map_of (n256_children n) b = ?xs ! unat b"
    by (simp add: n256_children_def map_of_slots len)
  note upd = slots_remove [OF len, of b, folded n256_children_def]
  show ?thesis
  proof (cases "?xs ! unat b")
    case None
    then have "?xs[unat b := None] = ?xs" by (metis list_update_id)
    then have "node256_remove_child n b = Ret (None, n)"
      using None len by (simp add: node256_remove_child_def Let_def)
    moreover have "b \<notin> fst ` set (n256_children n)"
      using None by (simp add: n256_children_def mem_slots len)
    ultimately show ?thesis
      using assms look None by (simp add: al_remove_idle)
  next
    case (Some q)
    then have old: "b \<in> fst ` set (n256_children n)"
      by (simp add: n256_children_def mem_slots len)
    then have "0 < length (n256_children n)" by (cases "n256_children n") auto
    then obtain c where c: "dec_num_children (n256_header n) = Ret (n256_header n\<lparr>h_num_children := c\<rparr>)"
        "unat c = length (n256_children n) - 1"
      using dec_num_children_Ret [of "n256_header n"] cnt by auto
    let ?n = "n\<lparr>n256_header := n256_header n\<lparr>h_num_children := c\<rparr>, n256_child_pointers := ?xs[unat b := None]\<rparr>"
    have "node256_remove_child n b = Ret (Some q, ?n)"
      using Some c len by (simp add: node256_remove_child_def Let_def)
    moreover have "n256_children ?n = al_remove b (n256_children n)"
      using upd by (simp add: n256_children_def)
    moreover have "num_children (n256_header ?n) = length (al_remove b (n256_children n))"
      using c old s by (simp add: num_children_def length_al_remove)
    ultimately show ?thesis
      using len look Some by (intro exI [of _ ?n]) (simp add: n256_inv_def)
  qed
qed

lemma node256_iter_spec: "node256_iter n = Ret (n256_children n)"
  unfolding node256_iter_def n256_children_def
  by (subst slots_from_map_filter [where k = 0 and f = of_nat]) simp_all

lemma node256_first_eq:
  "node256_first es = (case filter (\<lambda>(k, x). x \<noteq> None) es of [] \<Rightarrow> Panic | (k, x) # _ \<Rightarrow> Ret (of_nat k, the x))"
  by (induction es rule: node256_first.induct) auto

lemma node256_min_spec: "n256_children n \<noteq> [] \<Longrightarrow> node256_min n = Ret (hd (n256_children n))"
  by (auto simp: node256_min_def node256_first_eq n256_children_def slots_from_enumerate hd_map
      split: list.splits)

lemma node256_max_spec: "n256_children n \<noteq> [] \<Longrightarrow> node256_max n = Ret (last (n256_children n))"
  unfolding node256_max_def node256_first_eq n256_children_def slots_from_enumerate
  by (auto simp: last_map simp flip: rev_filter hd_rev split: list.splits)

lemma node256_simd_spec:
  assumes "n256_inv n" "n256_children n \<noteq> []"
  shows "node256_min_simd n = node256_min n" "node256_max_simd n = node256_max n"
proof -
  have len: "length (n256_child_pointers n) = 256"
    using assms(1) by (simp add: n256_inv_def)
  have ne: "slots_from 0 (n256_child_pointers n) \<noteq> []"
    using assms(2) by (simp add: n256_children_def)
  show "node256_min_simd n = node256_min n"
    using first_occupied_slots [OF len ne] len assms(2)
    by (auto simp: node256_min_simd_def Let_def node256_min_spec n256_children_def)
  show "node256_max_simd n = node256_max n"
    using last_occupied_slots [OF len ne] len assms(2)
    by (auto simp: node256_max_simd_def node256_max_spec n256_children_def)
qed

lemma node256_range_spec:
  assumes "n256_inv n"
  shows "node256_range n lo hi =
    (if byte_start lo \<le> byte_stop hi
     then Ret (filter (\<lambda>c. within lo hi (fst c)) (n256_children n)) else Panic)"
proof -
  have len: "length (n256_child_pointers n) = 256"
    using assms(1) by (simp add: n256_inv_def)
  show ?thesis
  proof (cases "byte_start lo \<le> byte_stop hi")
    case True
    then show ?thesis
      using len byte_stop_le [of hi] unfolding node256_range_def slice_byte_bounds [OF len] n256_children_def
      by (simp add: filter_within_slots,
          subst slots_from_map_filter [where k = 0 and f = "\<lambda>k. saturating_add (of_nat k) (key_offset lo)"])
        (auto simp: key_offset_add)
  next
    case False
    then show ?thesis
      by (simp add: node256_range_def slice_byte_bounds [OF len])
  qed
qed

text \<open>Both ends of the iterator, over the children that are left.\<close>

definition n256_left :: "(nat \<times> 'p option) list \<Rightarrow> (byte \<times> 'p) list" where
  "n256_left it = List.map_filter (\<lambda>(key, node). map_option (\<lambda>node. (of_nat key, node)) node) it"

lemma n256_left_simps [simp]:
  "n256_left [] = []"
  "n256_left ((key, None) # it) = n256_left it"
  "n256_left ((key, Some p) # it) = (of_nat key, p) # n256_left it"
  by (simp_all add: n256_left_def)

lemma n256_left_append: "n256_left (xs @ ys) = n256_left xs @ n256_left ys"
  by (simp add: n256_left_def List.map_filter_def)

lemma node256_iter_next_spec:
  "node256_iter_next it = (item, rest) \<Longrightarrow>
    n256_left it = (case item of None \<Rightarrow> [] | Some c \<Rightarrow> c # n256_left rest) \<and> (item = None \<longrightarrow> rest = [])"
  by (induction it rule: node256_iter_next.induct) auto

lemma n256_left_rev: "n256_left (rev it) = rev (n256_left it)"
  by (simp add: n256_left_def List.map_filter_def rev_filter rev_map)

lemma node256_iter_next_back_spec:
  assumes "node256_iter_next_back it = (item, rest)"
  shows "n256_left it = (case item of None \<Rightarrow> [] | Some c \<Rightarrow> n256_left rest @ [c])"
proof -
  obtain r where r: "node256_iter_next (rev it) = (item, r)" "rest = rev r"
    using assms by (auto simp: node256_iter_next_back_def split: prod.splits)
  have "rev (n256_left it) = (case item of None \<Rightarrow> [] | Some c \<Rightarrow> c # rev (n256_left rest))"
    using node256_iter_next_spec [OF r(1)] by (cases item) (simp_all add: n256_left_rev r(2))
  then show ?thesis
    by (cases item) (simp_all add: rev_swap)
qed


section \<open>Growing to and shrinking from 256 slots\<close>

definition node48_grow :: "'p inner48 \<Rightarrow> 'p inner256 outcome" where
  "node48_grow n =
     and_then (initialized_child_pointers n) (\<lambda>init.
     and_then (node48_grow_from 0 (n48_child_indices n) init (replicate 256 None)) (\<lambda>ptrs.
     Ret \<lparr>n256_header = n48_header n, n256_child_pointers = ptrs\<rparr>))"

lemma node48_grow_from_Ret:
  assumes "\<forall>i\<in>set ixs. i \<noteq> EMPTY \<longrightarrow> unat i < length ps"
  shows "node48_grow_from (length done) ixs ps (done @ replicate (length ixs) None)
    = Ret (done @ map (slot48 ps) ixs)"
  using assms
proof (induction ixs arbitrary: "done")
  case (Cons i ixs)
  have IH: "node48_grow_from (length (done @ [x])) ixs ps ((done @ [x]) @ replicate (length ixs) None)
    = Ret ((done @ [x]) @ map (slot48 ps) ixs)" for x
    using Cons.prems by (intro Cons.IH) simp
  show ?case
  proof (cases "i = EMPTY")
    case True
    then have "slot48 ps i = None" by (simp add: slot48_def)
    then show ?thesis using IH [of None] True by simp
  next
    case False
    then have "slot48 ps i = Some (ps ! unat i)" by (simp add: slot48_def)
    then show ?thesis
      using IH [of "Some (ps ! unat i)"] False Cons.prems by (simp add: list_update_append)
  qed
qed simp

lemma node48_grow_spec:
  assumes "n48_inv n"
  shows "\<exists>n'. node48_grow n = Ret n' \<and> n256_inv n' \<and> n256_children n' = n48_children n
    \<and> n256_header n' = n48_header n"
proof -
  obtain ixs ps rest where n: "n48_as n ixs ps rest"
    using assms by (rule n48_asE)
  have ixs: "n48_child_indices n = ixs" "length ixs = 256" using n by (simp_all add: n48_as_def)
  let ?n = "\<lparr>n256_header = n48_header n, n256_child_pointers = map (slot48 ps) ixs\<rparr>"
  have "node48_grow n = Ret ?n"
    using node48_grow_from_Ret [of ixs ps "[]"] n48_as_bound [OF n] ixs
    by (simp add: node48_grow_def n48_asD(1) [OF n])
  moreover have "n256_children ?n = n48_children n"
    by (simp add: n256_children_def n48_children_def n48_asD(2) [OF n])
  ultimately show ?thesis
    using ixs n48_count [OF assms] by (simp add: n256_inv_def)
qed

lemma node256_shrink_from_Ret:
  assumes "length done + length cs \<le> 48" "length indices = 256" "distinct (map fst cs)"
    "number_keys (length done) (map fst cs) indices = Ret ixs"
  shows "node256_shrink_from (length done) cs indices
      (map Some done @ replicate (48 - length done) None)
    = Ret (ixs, map Some (done @ map snd cs) @ replicate (48 - length done - length cs) None)"
  using assms
proof (induction cs arbitrary: "done" indices)
  case (Cons c cs)
  obtain k p where c: "c = (k, p)" by (cases c)
  obtain m where m: "48 - length done = Suc m"
    using Cons.prems(1) by (cases "48 - length done") auto
  let ?indices = "indices[unat k := of_nat (length done)]"
  have "number_keys (length (done @ [p])) (map fst cs) ?indices = Ret ixs"
    using Cons.prems c by (simp add: restricted_from_usize_def)
  then have "node256_shrink_from (length (done @ [p])) cs ?indices
      (map Some (done @ [p]) @ replicate (48 - length (done @ [p])) None)
    = Ret (ixs, map Some ((done @ [p]) @ map snd cs) @ replicate (48 - length (done @ [p]) - length cs) None)"
    using Cons.prems by (intro Cons.IH) simp_all
  moreover define A where "A = map Some done @ replicate (48 - length done) None"
  have "A[length done := Some p] = map Some (done @ [p]) @ replicate (48 - length (done @ [p])) None"
    using m by (simp add: A_def list_update_append)
  moreover have "length done < 48" "unat k < length indices" "length done < length A"
    using Cons.prems by (simp_all add: A_def)
  then have "node256_shrink_from (length done) (c # cs) indices A
      = node256_shrink_from (length (done @ [p])) cs ?indices (A[length done := Some p])"
    by (simp add: c restricted_from_usize_def)
  ultimately have "node256_shrink_from (length done) (c # cs) indices A
      = Ret (ixs, map Some ((done @ [p]) @ map snd cs) @ replicate (48 - length (done @ [p]) - length cs) None)"
    by (simp only:)
  moreover have "48 - length (done @ [p]) - length cs = 48 - length done - length (c # cs)"
    by simp
  moreover have "(done @ [p]) @ map snd cs = done @ map snd (c # cs)"
    by (simp add: c)
  ultimately show ?case
    unfolding A_def by (simp only:)
qed simp

lemma node256_shrink_spec:
  assumes inv: "n256_inv n" and few: "length (n256_children n) \<le> 48"
  shows "\<exists>n'. node256_shrink n = Ret n' \<and> n48_inv n' \<and> n48_children n' = n256_children n
    \<and> n48_header n' = n256_header n"
proof -
  let ?cs = "n256_children n"
  have s: "sorted_keys ?cs" by (rule n256_sorted [OF inv])
  have nc: "num_children (n256_header n) = length ?cs" using inv by (simp add: n256_inv_def)
  obtain ixs where ixs: "number_keys 0 (map fst ?cs) (replicate 256 EMPTY) = Ret ixs"
    using number_keys_Ret [of 0 "map fst ?cs" "replicate 256 EMPTY"] few sorted_keys_distinct [OF s]
    by auto
  have "node256_shrink_from 0 ?cs (replicate 256 EMPTY) (replicate 48 None)
      = Ret (ixs, map Some (map snd ?cs) @ replicate (48 - length ?cs) None)"
    using node256_shrink_from_Ret [of "[]" ?cs "replicate 256 EMPTY" ixs] few ixs sorted_keys_distinct [OF s]
    by simp
  then have "node256_shrink n = Ret \<lparr>n48_header = n256_header n, n48_child_indices = ixs,
      n48_child_pointers = map Some (map snd ?cs) @ replicate (48 - length (map fst ?cs)) None\<rparr>"
    using few nc by (simp only: node256_shrink_def node256_iter_spec assert_then and_then.simps
        prod.case length_map)
  moreover have "length (map snd ?cs) = length (map fst ?cs)" "length (map fst ?cs) \<le> 48"
      "num_children (n256_header n) = length (map fst ?cs)"
    using few nc by simp_all
  note numbered_node48 [OF s this(1,2) ixs this(3)]
  ultimately show ?thesis
    unfolding zip_map_fst_snd by (metis inner48.select_convs(1))
qed

section \<open>The contract\<close>

interpretation n256: inner_node n256_inv n256_header n256_children "\<lambda>_. 256" node256_lookup_child
    node256_write_child node256_remove_child node256_iter node256_min node256_max
proof unfold_locales
  fix n :: "'p inner256" and b p
  assume "n256_inv n" "b \<in> fst ` set (n256_children n) \<or> length (n256_children n) < 256"
  then show "\<exists>n'. node256_write_child n b p = Ret n' \<and> n256_inv n'
    \<and> n256_children n' = al_write b p (n256_children n) \<and> same_path (n256_header n) (n256_header n')
    \<and> (256 :: nat) = 256"
    using node256_write_spec [of n b p] by simp
qed (simp_all add: n256_sorted n256_fit node256_lookup_spec n256_count
  node256_remove_spec node256_iter_spec node256_min_spec node256_max_spec)

end
