(* ===== verification/Inner_Node.thy ===== *)
theory Inner_Node
  imports Node256
begin

text \<open>
  An inner node of any kind.  The source dispatches on the tag of a pointer and then runs
  generic code over the trait \<open>InnerNode\<close> (\<open>src/src/nodes/representation.rs\<close>); here the four
  kinds are the constructors of a sum type, and each operation of the trait is a function by
  cases.  The sum satisfies the contract \<open>inner_node\<close> because each kind does.
\<close>

section \<open>The sum of the node kinds\<close>

datatype 'p inner =
    Inner4 "'p inner_compressed"
  | Inner16 "'p inner_compressed"
  | Inner48 "'p inner48"
  | Inner256 "'p inner256"

fun inner_type :: "'p inner \<Rightarrow> node_type" where
  "inner_type (Inner4 n) = Node4"
| "inner_type (Inner16 n) = Node16"
| "inner_type (Inner48 n) = Node48"
| "inner_type (Inner256 n) = Node256"

fun inner_header :: "'p inner \<Rightarrow> header" where
  "inner_header (Inner4 n) = c_header n"
| "inner_header (Inner16 n) = c_header n"
| "inner_header (Inner48 n) = n48_header n"
| "inner_header (Inner256 n) = n256_header n"

fun set_header :: "header \<Rightarrow> 'p inner \<Rightarrow> 'p inner" where
  "set_header h (Inner4 n) = Inner4 (n\<lparr>c_header := h\<rparr>)"
| "set_header h (Inner16 n) = Inner16 (n\<lparr>c_header := h\<rparr>)"
| "set_header h (Inner48 n) = Inner48 (n\<lparr>n48_header := h\<rparr>)"
| "set_header h (Inner256 n) = Inner256 (n\<lparr>n256_header := h\<rparr>)"

definition map_outcome :: "('a \<Rightarrow> 'b) \<Rightarrow> 'a outcome \<Rightarrow> 'b outcome" where
  "map_outcome f m = and_then m (\<lambda>x. Ret (f x))"

lemma map_outcome_Ret [simp]: "map_outcome f (Ret x) = Ret (f x)"
  by (simp add: map_outcome_def)

fun inner_lookup_child :: "'p inner \<Rightarrow> byte \<Rightarrow> 'p option outcome" where
  "inner_lookup_child (Inner4 n) b = lookup_child_inner n b"
| "inner_lookup_child (Inner16 n) b = lookup_child_inner n b"
| "inner_lookup_child (Inner48 n) b = node48_lookup_child n b"
| "inner_lookup_child (Inner256 n) b = node256_lookup_child n b"

fun inner_write_child :: "'p inner \<Rightarrow> byte \<Rightarrow> 'p \<Rightarrow> 'p inner outcome" where
  "inner_write_child (Inner4 n) b p = map_outcome Inner4 (write_child_inner n b p)"
| "inner_write_child (Inner16 n) b p = map_outcome Inner16 (write_child_inner n b p)"
| "inner_write_child (Inner48 n) b p = map_outcome Inner48 (node48_write_child n b p)"
| "inner_write_child (Inner256 n) b p = map_outcome Inner256 (node256_write_child n b p)"

fun inner_remove_child :: "'p inner \<Rightarrow> byte \<Rightarrow> ('p option \<times> 'p inner) outcome" where
  "inner_remove_child (Inner4 n) b = map_outcome (map_prod id Inner4) (remove_child_inner n b)"
| "inner_remove_child (Inner16 n) b = map_outcome (map_prod id Inner16) (remove_child_inner n b)"
| "inner_remove_child (Inner48 n) b = map_outcome (map_prod id Inner48) (node48_remove_child n b)"
| "inner_remove_child (Inner256 n) b = map_outcome (map_prod id Inner256) (node256_remove_child n b)"

fun inner_iter :: "'p inner \<Rightarrow> (byte \<times> 'p) list outcome" where
  "inner_iter (Inner4 n) = compressed_iter n"
| "inner_iter (Inner16 n) = compressed_iter n"
| "inner_iter (Inner48 n) = node48_iter n"
| "inner_iter (Inner256 n) = node256_iter n"

fun inner_min :: "'p inner \<Rightarrow> (byte \<times> 'p) outcome" where
  "inner_min (Inner4 n) = compressed_min n"
| "inner_min (Inner16 n) = compressed_min n"
| "inner_min (Inner48 n) = node48_min n"
| "inner_min (Inner256 n) = node256_min n"

fun inner_max :: "'p inner \<Rightarrow> (byte \<times> 'p) outcome" where
  "inner_max (Inner4 n) = compressed_max n"
| "inner_max (Inner16 n) = compressed_max n"
| "inner_max (Inner48 n) = node48_max n"
| "inner_max (Inner256 n) = node256_max n"

fun inner_range :: "'p inner \<Rightarrow> byte bound \<Rightarrow> byte bound \<Rightarrow> (byte \<times> 'p) list outcome" where
  "inner_range (Inner4 n) lo hi = compressed_range n lo hi"
| "inner_range (Inner16 n) lo hi = compressed_range n lo hi"
| "inner_range (Inner48 n) lo hi = node48_range n lo hi"
| "inner_range (Inner256 n) lo hi = node256_range n lo hi"

fun inner_grow :: "'p inner \<Rightarrow> 'p inner outcome" where
  "inner_grow (Inner4 n) = map_outcome Inner16 (change_block_size 16 n)"
| "inner_grow (Inner16 n) = map_outcome Inner48 (grow_node48 n)"
| "inner_grow (Inner48 n) = map_outcome Inner256 (node48_grow n)"
| "inner_grow (Inner256 n) = map_outcome Inner256 (node256_grow n)"

fun inner_shrink :: "'p inner \<Rightarrow> 'p inner outcome" where
  "inner_shrink (Inner4 n) = Panic"
| "inner_shrink (Inner16 n) = map_outcome Inner4 (change_block_size 4 n)"
| "inner_shrink (Inner48 n) = map_outcome Inner16 (node48_shrink n)"
| "inner_shrink (Inner256 n) = map_outcome Inner48 (node256_shrink n)"

definition is_full :: "'p inner \<Rightarrow> bool" where
  "is_full n \<longleftrightarrow> upper_capacity (inner_type n) \<le> num_children (inner_header n)"

fun inner_from_header :: "node_type \<Rightarrow> header \<Rightarrow> 'p inner outcome" where
  "inner_from_header Node4 h = Ret (Inner4 (compressed_from_header 4 h))"
| "inner_from_header Node16 h = Ret (Inner16 (compressed_from_header 16 h))"
| "inner_from_header Node48 h = Ret (Inner48 (node48_from_header h))"
| "inner_from_header Node256 h = Ret (Inner256 (node256_from_header h))"
| "inner_from_header LeafKind h = Panic"

definition from_prefix :: "nat \<Rightarrow> bytes \<Rightarrow> nat \<Rightarrow> 'p inner_compressed" where
  \<comment> \<open>\<open>InnerNode4::from_prefix\<close>\<close>
  "from_prefix PREFIX_LEN pfx len = compressed_from_header 4 (header_new PREFIX_LEN pfx len)"

section \<open>Invariant and abstract value\<close>

fun inner_inv :: "'p inner \<Rightarrow> bool" where
  "inner_inv (Inner4 n) = compressed_inv 4 n"
| "inner_inv (Inner16 n) = compressed_inv 16 n"
| "inner_inv (Inner48 n) = n48_inv n"
| "inner_inv (Inner256 n) = n256_inv n"

fun inner_children :: "'p inner \<Rightarrow> (byte \<times> 'p) list" where
  "inner_children (Inner4 n) = c_children n"
| "inner_children (Inner16 n) = c_children n"
| "inner_children (Inner48 n) = n48_children n"
| "inner_children (Inner256 n) = n256_children n"

section \<open>The contract\<close>

abbreviation inner_capacity :: "'p inner \<Rightarrow> nat" where
  "inner_capacity n \<equiv> upper_capacity (inner_type n)"

lemma inner_write_spec:
  assumes "inner_inv n" "b \<in> fst ` set (inner_children n) \<or> length (inner_children n) < inner_capacity n"
  shows "\<exists>n'. inner_write_child n b p = Ret n' \<and> inner_inv n' \<and> inner_type n' = inner_type n
    \<and> inner_children n' = al_write b p (inner_children n)
    \<and> same_path (inner_header n) (inner_header n')"
proof (cases n)
  case (Inner4 m) then show ?thesis using n4.write_spec [of m b p] assms by fastforce
next
  case (Inner16 m) then show ?thesis using n16.write_spec [of m b p] assms by fastforce
next
  case (Inner48 m) then show ?thesis using n48.write_spec [of m b p] assms by fastforce
next
  case (Inner256 m) then show ?thesis using n256.write_spec [of m b p] assms by fastforce
qed

lemma inner_remove_spec:
  assumes "inner_inv n"
  shows "\<exists>n'. inner_remove_child n b = Ret (map_of (inner_children n) b, n') \<and> inner_inv n'
    \<and> inner_type n' = inner_type n \<and> inner_children n' = al_remove b (inner_children n)
    \<and> same_path (inner_header n) (inner_header n')"
proof (cases n)
  case (Inner4 m) then show ?thesis using n4.remove_spec [of m b] assms by fastforce
next
  case (Inner16 m) then show ?thesis using n16.remove_spec [of m b] assms by fastforce
next
  case (Inner48 m) then show ?thesis using n48.remove_spec [of m b] assms by fastforce
next
  case (Inner256 m) then show ?thesis using n256.remove_spec [of m b] assms by fastforce
qed

interpretation inn: inner_node inner_inv inner_header inner_children inner_capacity inner_lookup_child
    inner_write_child inner_remove_child inner_iter inner_min inner_max
proof unfold_locales
  fix n :: "'p inner" and b p
  assume inv: "inner_inv n"
  show "sorted_keys (inner_children n)"
    using inv n4.children_sorted n16.children_sorted n48.children_sorted n256.children_sorted
    by (cases n) auto
  show "num_children (inner_header n) = length (inner_children n)"
    using inv n4.children_count n16.children_count n48.children_count n256.children_count
    by (cases n) auto
  show "length (inner_children n) \<le> inner_capacity n"
    using inv n4.children_fit n16.children_fit n48.children_fit n256.children_fit
    by (cases n) auto
  show "inner_lookup_child n b = Ret (map_of (inner_children n) b)"
    using inv n4.lookup_spec n16.lookup_spec n48.lookup_spec n256.lookup_spec
    by (cases n) auto
  show "inner_iter n = Ret (inner_children n)"
    using inv n4.iter_spec n16.iter_spec n48.iter_spec n256.iter_spec
    by (cases n) auto
  show "\<exists>n'. inner_remove_child n b = Ret (map_of (inner_children n) b, n') \<and> inner_inv n'
    \<and> inner_children n' = al_remove b (inner_children n)
    \<and> same_path (inner_header n) (inner_header n') \<and> inner_capacity n' = inner_capacity n"
    using inner_remove_spec [OF inv] by metis
  show "inner_min n = Ret (hd (inner_children n))" if "inner_children n \<noteq> []"
    using inv that n4.min_spec n16.min_spec n48.min_spec n256.min_spec by (cases n) auto
  show "inner_max n = Ret (last (inner_children n))" if "inner_children n \<noteq> []"
    using inv that n4.max_spec n16.max_spec n48.max_spec n256.max_spec by (cases n) auto
  show "\<exists>n'. inner_write_child n b p = Ret n' \<and> inner_inv n'
    \<and> inner_children n' = al_write b p (inner_children n)
    \<and> same_path (inner_header n) (inner_header n') \<and> inner_capacity n' = inner_capacity n"
    if "b \<in> fst ` set (inner_children n) \<or> length (inner_children n) < inner_capacity n"
    using inner_write_spec [OF inv that] by metis
qed

lemma is_full_iff: "inner_inv n \<Longrightarrow> is_full n \<longleftrightarrow> inner_capacity n \<le> length (inner_children n)"
  by (simp add: is_full_def inn.children_count)

section \<open>Changing the kind\<close>

fun grown_type :: "node_type \<Rightarrow> node_type" where
  "grown_type Node4 = Node16"
| "grown_type Node16 = Node48"
| "grown_type Node48 = Node256"
| "grown_type Node256 = Node256"
| "grown_type LeafKind = LeafKind"

fun shrunk_type :: "node_type \<Rightarrow> node_type" where
  "shrunk_type Node4 = Node4"
| "shrunk_type Node16 = Node4"
| "shrunk_type Node48 = Node16"
| "shrunk_type Node256 = Node48"
| "shrunk_type LeafKind = LeafKind"

text \<open>A full node that is not the largest grows: the same header and children, with room.\<close>

lemma inner_grow_spec:
  assumes inv: "inner_inv n" and full: "is_full n" and ty: "inner_type n \<noteq> Node256"
  shows "\<exists>n'. inner_grow n = Ret n' \<and> inner_inv n' \<and> inner_type n' = grown_type (inner_type n)
    \<and> inner_children n' = inner_children n \<and> inner_header n' = inner_header n
    \<and> length (inner_children n') < inner_capacity n'"
proof -
  have len: "length (inner_children n) = inner_capacity n"
    using is_full_iff [OF inv] full inn.children_fit [OF inv] by simp
  show ?thesis
  proof (cases n)
    case (Inner4 m)
    then show ?thesis using change_block_size_spec [of 4 m 16] inv len by fastforce
  next
    case (Inner16 m)
    then show ?thesis using grow_node48_spec [of m] inv len by fastforce
  next
    case (Inner48 m)
    then show ?thesis using node48_grow_spec [of m] inv len by fastforce
  next
    case (Inner256 m)
    then show ?thesis using ty by simp
  qed
qed

text \<open>A node that should shrink does: the same header and children, in the smaller kind.\<close>

lemma inner_shrink_spec:
  assumes inv: "inner_inv n" and small: "should_shrink_inner_node (inner_type n) (length (inner_children n)) = Ret True"
  shows "\<exists>n'. inner_shrink n = Ret n' \<and> inner_inv n' \<and> inner_type n' = shrunk_type (inner_type n)
    \<and> inner_children n' = inner_children n \<and> inner_header n' = inner_header n"
proof (cases n)
  case (Inner4 m)
  then show ?thesis using small by simp
next
  case (Inner16 m)
  then show ?thesis using change_block_size_spec [of 16 m 4] inv small by fastforce
next
  case (Inner48 m)
  then show ?thesis using node48_shrink_spec [of m] inv small by fastforce
next
  case (Inner256 m)
  then show ?thesis using node256_shrink_spec [of m] inv small by fastforce
qed

lemma inner_from_header_spec:
  assumes "num_children h = 0" "ty \<noteq> LeafKind"
  shows "\<exists>n :: 'p inner. inner_from_header ty h = Ret n \<and> inner_inv n \<and> inner_type n = ty
    \<and> inner_children n = [] \<and> inner_header n = h"
proof -
  have h: "n48_header (node48_from_header h :: 'p inner48) = h"
    "n256_header (node256_from_header h :: 'p inner256) = h"
    by (simp_all add: node48_from_header_def node256_from_header_def)
  show ?thesis
    using assms(2) compressed_from_header_inv [OF assms(1)] node48_from_header_inv [OF assms(1)]
      node256_from_header_inv [OF assms(1)]
    by (cases ty) (simp_all add: h assms(1) compressed_from_header_inv)
qed

lemma set_header_simps [simp]:
  "inner_header (set_header h n) = h"
  "inner_type (set_header h n) = inner_type n"
  by (cases n; simp)+

lemma set_header_inv:
  assumes "h_num_children h = h_num_children (inner_header n)"
  shows "inner_inv (set_header h n) = inner_inv n"
    and "inner_children (set_header h n) = inner_children n"
proof -
  have "num_children h = num_children (inner_header n)"
    using assms by (simp add: num_children_def)
  then have c: "num_children h = num_children (inner_header n)" .
  have "compressed_inv SIZE (m\<lparr>c_header := h\<rparr>) = compressed_inv SIZE m"
      "c_children (m\<lparr>c_header := h\<rparr>) = c_children m"
    if "num_children h = num_children (c_header m)" for m :: "'a inner_compressed" and SIZE
    using that by (cases m, simp only: compressed_inv_def c_children_def inner_compressed.simps)+
  moreover have "n48_inv (m\<lparr>n48_header := h\<rparr>) = n48_inv m"
      "n48_children (m\<lparr>n48_header := h\<rparr>) = n48_children m"
    if "num_children h = num_children (n48_header m)" for m :: "'a inner48"
    using that by (cases m, simp only: n48_inv_def n48_children_def n48_slots_def inner48.simps)+
  moreover have "n256_inv (m\<lparr>n256_header := h\<rparr>) = n256_inv m"
      "n256_children (m\<lparr>n256_header := h\<rparr>) = n256_children m"
    if "num_children h = num_children (n256_header m)" for m :: "'a inner256"
    using that by (cases m, simp only: n256_inv_def n256_children_def inner256.simps)+
  ultimately show "inner_inv (set_header h n) = inner_inv n"
      "inner_children (set_header h n) = inner_children n"
    using c by (cases n; simp)+
qed

text \<open>The new Node4 that splits a path: two children, written in the order of their bytes.\<close>

definition two_children :: "byte \<Rightarrow> 'p \<Rightarrow> byte \<Rightarrow> 'p \<Rightarrow> (byte \<times> 'p) list" where
  "two_children b p c q = (if b < c then [(b, p), (c, q)] else [(c, q), (b, p)])"

definition write_two_ordered ::
    "'p inner_compressed \<Rightarrow> byte \<Rightarrow> 'p \<Rightarrow> byte \<Rightarrow> 'p \<Rightarrow> 'p inner_compressed outcome" where
  "write_two_ordered n b p c q =
     (if b < c
      then and_then (write_child_unchecked n b p) (\<lambda>n. write_child_unchecked n c q)
      else and_then (write_child_unchecked n c q) (\<lambda>n. write_child_unchecked n b p))"

lemma write_two_ordered_spec:
  assumes inv: "compressed_inv 4 n" "c_children n = []" and ne: "b \<noteq> c"
  shows "\<exists>n'. write_two_ordered n b p c q = Ret n' \<and> compressed_inv 4 n'
    \<and> c_children n' = two_children b p c q \<and> same_path (c_header n) (c_header n')"
proof -
  have two: "\<exists>n'. and_then (write_child_unchecked n b p) (\<lambda>n. write_child_unchecked n c q) = Ret n'
      \<and> compressed_inv 4 n' \<and> c_children n' = [(b, p), (c, q)] \<and> same_path (c_header n) (c_header n')"
    if bc: "b < c" for b c :: byte and p q
  proof -
    obtain n1 where n1: "write_child_unchecked n b p = Ret n1" "compressed_inv 4 n1"
      "c_children n1 = [(b, p)]" "same_path (c_header n) (c_header n1)"
      using write_child_unchecked_spec [OF inv(1), of b p] inv(2) by auto
    obtain n2 where "write_child_unchecked n1 c q = Ret n2" "compressed_inv 4 n2"
      "c_children n2 = [(b, p), (c, q)]" "same_path (c_header n1) (c_header n2)"
      using write_child_unchecked_spec [OF n1(2), of c q] n1(3) bc by auto
    then show ?thesis using n1 same_path_trans by auto
  qed
  show ?thesis
  proof (cases "b < c")
    case True
    then show ?thesis using two [of b c p q] by (simp add: write_two_ordered_def two_children_def)
  next
    case False
    then have "c < b" using ne by simp
    then show ?thesis using False two [of c b q p] by (simp add: write_two_ordered_def two_children_def)
  qed
qed

end
