(* ===== verification/Art_Tree.thy ===== *)
theory Art_Tree
  imports Inner_Node
begin

text \<open>
  The memory of the tree and what it stands for.  A heap maps addresses to nodes; a pointer
  carries the kind of its target (the tag that \<open>OpaqueNodePtr\<close> keeps in the low bits).  The
  shape of a well-formed tree is a value of the datatype \<open>art\<close>, which records the address of
  every node; \<open>represents\<close> relates a heap to it.  The abstract value of a tree is its list of
  entries in key order, and the finite map \<open>tree_map\<close> from key bytes to entries.
\<close>

section \<open>Keys, pointers, heaps\<close>

text \<open>
  \<open>AsBytes\<close> is a trait that the user implements: a key is modelled as its byte
  representation together with whatever else it holds.
\<close>

datatype 'k key = Key (as_bytes: bytes) (key_data: 'k)

record ('k, 'v) leaf =
  leaf_key :: "'k key"
  leaf_value :: 'v

datatype node_ptr = Ptr (ptr_type: node_type) (ptr_addr: nat)

datatype ('k, 'v) cell = InnerCell "node_ptr inner" | LeafCell "('k, 'v) leaf"

record ('k, 'v) heap =
  cells :: "nat \<Rightarrow> ('k, 'v) cell option"
  next_addr :: nat

definition empty_heap :: "('k, 'v) heap" where
  "empty_heap = \<lparr>cells = (\<lambda>_. None), next_addr = 0\<rparr>"

definition read_inner :: "('k, 'v) heap \<Rightarrow> node_ptr \<Rightarrow> node_ptr inner outcome" where
  \<comment> \<open>\<open>to_node_ptr\<close> and \<open>as_ref\<close>: dangling or wrongly tagged pointers are undefined behaviour\<close>
  "read_inner hp p =
     (case cells hp (ptr_addr p) of
        Some (InnerCell n) \<Rightarrow> if inner_type n = ptr_type p then Ret n else UB
      | _ \<Rightarrow> UB)"

definition read_leaf :: "('k, 'v) heap \<Rightarrow> node_ptr \<Rightarrow> ('k, 'v) leaf outcome" where
  "read_leaf hp p =
     (case cells hp (ptr_addr p) of
        Some (LeafCell l) \<Rightarrow> if ptr_type p = LeafKind then Ret l else UB
      | _ \<Rightarrow> UB)"

definition write_inner :: "('k, 'v) heap \<Rightarrow> node_ptr \<Rightarrow> node_ptr inner \<Rightarrow> ('k, 'v) heap outcome" where
  "write_inner hp p n =
     and_then (read_inner hp p) (\<lambda>_. Ret (hp\<lparr>cells := (cells hp)(ptr_addr p \<mapsto> InnerCell n)\<rparr>))"

definition write_leaf :: "('k, 'v) heap \<Rightarrow> node_ptr \<Rightarrow> ('k, 'v) leaf \<Rightarrow> ('k, 'v) heap outcome" where
  "write_leaf hp p l =
     and_then (read_leaf hp p) (\<lambda>_. Ret (hp\<lparr>cells := (cells hp)(ptr_addr p \<mapsto> LeafCell l)\<rparr>))"

definition alloc :: "('k, 'v) heap \<Rightarrow> ('k, 'v) cell \<Rightarrow> ('k, 'v) heap" where
  "alloc hp c = \<lparr>cells = (cells hp)(next_addr hp \<mapsto> c), next_addr = Suc (next_addr hp)\<rparr>"

definition alloc_inner :: "('k, 'v) heap \<Rightarrow> node_ptr inner \<Rightarrow> node_ptr \<times> ('k, 'v) heap" where
  "alloc_inner hp n = (Ptr (inner_type n) (next_addr hp), alloc hp (InnerCell n))"

definition alloc_leaf :: "('k, 'v) heap \<Rightarrow> ('k, 'v) leaf \<Rightarrow> node_ptr \<times> ('k, 'v) heap" where
  "alloc_leaf hp l = (Ptr LeafKind (next_addr hp), alloc hp (LeafCell l))"

definition dealloc :: "('k, 'v) heap \<Rightarrow> nat \<Rightarrow> ('k, 'v) heap" where
  "dealloc hp a = hp\<lparr>cells := (cells hp)(a := None)\<rparr>"

definition dealloc_inner :: "('k, 'v) heap \<Rightarrow> node_ptr \<Rightarrow> ('k, 'v) heap outcome" where
  "dealloc_inner hp p = and_then (read_inner hp p) (\<lambda>_. Ret (dealloc hp (ptr_addr p)))"

definition dealloc_leaf :: "('k, 'v) heap \<Rightarrow> node_ptr \<Rightarrow> (('k, 'v) leaf \<times> ('k, 'v) heap) outcome" where
  "dealloc_leaf hp p = and_then (read_leaf hp p) (\<lambda>l. Ret (l, dealloc hp (ptr_addr p)))"

lemma heap_simps [simp]:
  "cells (alloc hp c) = (cells hp)(next_addr hp \<mapsto> c)"
  "next_addr (alloc hp c) = Suc (next_addr hp)"
  "cells (dealloc hp a) = (cells hp)(a := None)"
  "next_addr (dealloc hp a) = next_addr hp"
  by (simp_all add: alloc_def dealloc_def)

section \<open>The shape of a tree\<close>

datatype ('k, 'v) art =
    ALeaf nat "'k key" 'v
  | AInner nat node_type bytes "(byte \<times> ('k, 'v) art) list"

lemma art_induct [case_names ALeaf AInner, induct type: art]:
  assumes "\<And>a k v. P (ALeaf a k v)"
    and "\<And>a ty pf ch. (\<And>b t. (b, t) \<in> set ch \<Longrightarrow> P t) \<Longrightarrow> P (AInner a ty pf ch)"
  shows "P t"
proof (induction t rule: art.induct)
  case (AInner a ty pf ch)
  then show ?case by (intro assms(2)) fastforce
qed (rule assms(1))

fun root_ptr :: "('k, 'v) art \<Rightarrow> node_ptr" where
  "root_ptr (ALeaf a k v) = Ptr LeafKind a"
| "root_ptr (AInner a ty pf ch) = Ptr ty a"

definition child_ptrs :: "(byte \<times> ('k, 'v) art) list \<Rightarrow> (byte \<times> node_ptr) list" where
  "child_ptrs ch = map (map_prod id root_ptr) ch"

fun addrs :: "('k, 'v) art \<Rightarrow> nat list" where
  "addrs (ALeaf a k v) = [a]"
| "addrs (AInner a ty pf ch) = a # concat (map (\<lambda>(b, t). addrs t) ch)"

fun height :: "('k, 'v) art \<Rightarrow> nat" where
  "height (ALeaf a k v) = 0"
| "height (AInner a ty pf ch) = fold max (map (\<lambda>(b, t). Suc (height t)) ch) 0"

fun leaves :: "('k, 'v) art \<Rightarrow> (nat \<times> 'k key \<times> 'v) list" where
  "leaves (ALeaf a k v) = [(a, k, v)]"
| "leaves (AInner a ty pf ch) = concat (map (\<lambda>(b, t). leaves t) ch)"

definition entries :: "('k, 'v) art \<Rightarrow> ('k key \<times> 'v) list" where
  "entries t = map snd (leaves t)"

definition tree_map :: "('k, 'v) art \<Rightarrow> bytes \<Rightarrow> ('k key \<times> 'v) option" where
  "tree_map t = map_of (map (\<lambda>(k, v). (as_bytes k, (k, v))) (entries t))"

text \<open>
  \<open>wf_art path t\<close>: all keys below \<open>t\<close> start with the bytes \<open>path\<close> that lead to it; the children
  of a node are strictly sorted by their key byte and as many as the kind of the node takes.
\<close>

fun wf_art :: "bytes \<Rightarrow> ('k, 'v) art \<Rightarrow> bool" where
  "wf_art path (ALeaf a k v) \<longleftrightarrow> Sublist.prefix path (as_bytes k) \<and> length (as_bytes k) < 2 ^ 32"
| "wf_art path (AInner a ty pf ch) \<longleftrightarrow>
     ty \<noteq> LeafKind \<and> in_range ty (length ch) \<and> sorted_keys ch
     \<and> (\<forall>(b, t)\<in>set ch. wf_art (path @ pf @ [b]) t)"

definition node_ok :: "nat \<Rightarrow> node_ptr inner \<Rightarrow> node_type \<Rightarrow> bytes \<Rightarrow> (byte \<times> node_ptr) list \<Rightarrow> bool" where
  "node_ok N n ty pf cs \<longleftrightarrow>
     inner_type n = ty \<and> inner_inv n \<and> header_repr (inner_header n) pf
     \<and> length (h_prefix (inner_header n)) = N \<and> inner_children n = cs"

fun represents :: "nat \<Rightarrow> ('k, 'v) heap \<Rightarrow> ('k, 'v) art \<Rightarrow> bool" where
  "represents N hp (ALeaf a k v) \<longleftrightarrow> cells hp a = Some (LeafCell \<lparr>leaf_key = k, leaf_value = v\<rparr>)"
| "represents N hp (AInner a ty pf ch) \<longleftrightarrow>
     (\<exists>n. cells hp a = Some (InnerCell n) \<and> node_ok N n ty pf (child_ptrs ch))
     \<and> (\<forall>(b, t)\<in>set ch. represents N hp t)"

text \<open>
  A heap holds the tree \<open>t\<close>, every node at an address of its own, and nothing is allocated at
  or beyond the next free address.
\<close>

definition holds :: "nat \<Rightarrow> ('k, 'v) heap \<Rightarrow> ('k, 'v) art \<Rightarrow> bool" where
  "holds N hp t \<longleftrightarrow> represents N hp t \<and> distinct (addrs t) \<and> (\<forall>a\<in>set (addrs t). a < next_addr hp)"

section \<open>Generic lemmas\<close>

lemma map_of_child_ptrs: "map_of (child_ptrs ch) b = map_option root_ptr (map_of ch b)"
  by (induction ch) (auto simp: child_ptrs_def)

lemma al_write_map:
  "al_write b (f p) (map (map_prod id f) xs) = map (map_prod id f) (al_write b p xs)"
  by (simp add: al_write_def takeWhile_map dropWhile_map comp_def)

lemma child_ptrs_write: "child_ptrs (al_write b t ch) = al_write b (root_ptr t) (child_ptrs ch)"
  by (simp add: child_ptrs_def al_write_map)

lemma child_ptrs_remove: "child_ptrs (al_remove b ch) = al_remove b (child_ptrs ch)"
  by (simp add: child_ptrs_def al_remove_def filter_map comp_def)

lemma length_child_ptrs [simp]: "length (child_ptrs ch) = length ch"
  by (simp add: child_ptrs_def)

lemma fst_child_ptrs [simp]: "fst ` set (child_ptrs ch) = fst ` set ch"
  "map fst (child_ptrs ch) = map fst ch"
  by (force simp: child_ptrs_def)+

lemma child_ptrs_Nil_iff [simp]: "child_ptrs ch = [] \<longleftrightarrow> ch = []"
  by (simp add: child_ptrs_def)

lemma fold_max_le: "x \<in> set xs \<Longrightarrow> x \<le> fold max xs (y :: nat)"
  by (metis Max_ge List.finite_set Max.set_eq_fold list.set_intros(2))

lemma height_child: "(b, t) \<in> set ch \<Longrightarrow> height t < height (AInner a ty pf ch)"
  using fold_max_le [of "Suc (height t)" "map (\<lambda>(b, t). Suc (height t)) ch" 0] by force

lemma fold_max_bound: "\<forall>x\<in>set xs. x \<le> m \<Longrightarrow> y \<le> m \<Longrightarrow> fold max xs (y :: nat) \<le> m"
  by (induction xs arbitrary: y) auto

lemma length_concat_le: "(b, t) \<in> set ch \<Longrightarrow> length (f t) \<le> length (concat (map (\<lambda>(b, t). f t) ch))"
  by (induction ch) auto

lemma height_less_addrs: "height t < length (addrs t)"
proof (induction t)
  case (AInner a ty pf ch)
  have "fold max (map (\<lambda>(b, t). Suc (height t)) ch) 0 \<le> length (concat (map (\<lambda>(b, t). addrs t) ch))"
    using AInner.IH length_concat_le [of _ _ ch addrs]
    by (intro fold_max_bound) (force simp: Suc_le_eq dest: less_le_trans)+
  then show ?case by simp
qed simp

text \<open>The number of nodes of a tree that a heap holds is bounded by its next free address.\<close>

lemma holds_height: "holds N hp t \<Longrightarrow> height t < next_addr hp"
proof -
  assume h: "holds N hp t"
  have "length (addrs t) = card (set (addrs t))"
    using h by (simp add: holds_def distinct_card)
  also have "\<dots> \<le> card {..<next_addr hp}"
    using h by (intro card_mono) (auto simp: holds_def)
  finally show ?thesis using height_less_addrs [of t] by simp
qed

lemma represents_frame:
  "represents N hp t \<Longrightarrow> (\<And>a. a \<in> set (addrs t) \<Longrightarrow> cells hp' a = cells hp a) \<Longrightarrow> represents N hp' t"
proof (induction t)
  case (AInner a ty pf ch)
  have "represents N hp' t" if "(b, t) \<in> set ch" for b t
    using AInner.prems that by (intro AInner.IH [OF that]) auto
  then show ?case using AInner.prems by auto
qed simp

lemma holds_child: "holds N hp (AInner a ty pf ch) \<Longrightarrow> (b, t) \<in> set ch \<Longrightarrow> holds N hp t"
  by (drule split_list) (auto simp: holds_def)

lemma holds_root: "holds N hp (AInner a ty pf ch) \<Longrightarrow> (b, t) \<in> set ch \<Longrightarrow> a \<notin> set (addrs t)"
  by (auto simp: holds_def)

lemma node_ok_Leaf: "\<not> node_ok N n LeafKind pf cs"
  by (cases n) (auto simp: node_ok_def)

lemma read_inner_Ret:
  assumes "represents N hp (AInner a ty pf ch)"
  obtains n where "read_inner hp (Ptr ty a) = Ret n" "node_ok N n ty pf (child_ptrs ch)"
    "cells hp a = Some (InnerCell n)" "ty \<noteq> LeafKind"
proof -
  obtain n where "cells hp a = Some (InnerCell n)" "node_ok N n ty pf (child_ptrs ch)"
    using assms by auto
  then show thesis
    using that [of n] node_ok_Leaf by (auto simp: read_inner_def node_ok_def)
qed

lemma read_leaf_Ret:
  "represents N hp (ALeaf a k v) \<Longrightarrow> read_leaf hp (Ptr LeafKind a) = Ret \<lparr>leaf_key = k, leaf_value = v\<rparr>"
  by (simp add: read_leaf_def)

lemma node_okD:
  assumes "node_ok N n ty pf (child_ptrs ch)"
  shows "inner_type n = ty" "inner_inv n" "header_repr (inner_header n) pf"
    "length (h_prefix (inner_header n)) = N" "inner_children n = child_ptrs ch"
    "inner_lookup_child n b = Ret (map_option root_ptr (map_of ch b))"
    "num_children (inner_header n) = length ch" "inner_iter n = Ret (child_ptrs ch)"
  using assms by (simp_all add: node_ok_def inn.lookup_spec inn.children_count inn.iter_spec map_of_child_ptrs)

lemma wf_child: "wf_art path (AInner a ty pf ch) \<Longrightarrow> (b, t) \<in> set ch \<Longrightarrow> wf_art (path @ pf @ [b]) t"
  by auto

lemma wf_inner_ge2: "wf_art path (AInner a ty pf ch) \<Longrightarrow> 2 \<le> length ch"
  using in_range_ge2 by auto

section \<open>The keys of a tree\<close>

lemma leaves_ne: "wf_art path t \<Longrightarrow> leaves t \<noteq> []"
proof (induction t arbitrary: path)
  case (AInner a ty pf ch)
  then obtain b t ch' where "ch = (b, t) # ch'"
    using wf_inner_ge2 [OF AInner.prems] by (cases ch) auto
  then show ?case using AInner.IH [of b t "path @ pf @ [b]"] AInner.prems by simp
qed simp

lemma wf_leaf_path: "wf_art path t \<Longrightarrow> (a, k, v) \<in> set (leaves t) \<Longrightarrow> Sublist.prefix path (as_bytes k)"
proof (induction t arbitrary: path)
  case (AInner a' ty pf ch)
  then obtain b t where "(b, t) \<in> set ch" "(a, k, v) \<in> set (leaves t)" by auto
  then have "Sublist.prefix (path @ pf @ [b]) (as_bytes k)"
    using AInner wf_child by blast
  then show ?case by (meson append_prefixD)
qed simp

lemma wf_leaf_length: "wf_art path t \<Longrightarrow> (a, k, v) \<in> set (leaves t) \<Longrightarrow> length (as_bytes k) < 2 ^ 32"
proof (induction t arbitrary: path)
  case (AInner a' ty pf ch)
  then obtain b t where "(b, t) \<in> set ch" "(a, k, v) \<in> set (leaves t)" by auto
  then show ?case using AInner.IH wf_child [OF AInner.prems(1)] by blast
qed simp

lemma append_less_append:
  fixes xs :: "'a :: linorder list"
  shows "b < c \<Longrightarrow> xs @ b # ys < xs @ c # zs"
  by (induction xs) auto

lemma prefix_less:
  fixes b c :: byte
  assumes "b < c" "Sublist.prefix (p @ [b]) x" "Sublist.prefix (p @ [c]) y"
  shows "x < y" and "\<not> Sublist.prefix x y" and "\<not> Sublist.prefix y x"
proof -
  obtain r s where x: "x = p @ b # r" and y: "y = p @ c # s"
    using assms(2,3) by (auto simp: prefix_def)
  show "x < y" using assms(1) by (simp add: x y append_less_append)
  show "\<not> Sublist.prefix x y" "\<not> Sublist.prefix y x"
    using assms(1) by (auto simp: x y)
qed

definition before :: "(nat \<times> 'k key \<times> 'v) \<Rightarrow> (nat \<times> 'k key \<times> 'v) \<Rightarrow> bool" where
  "before x y \<longleftrightarrow> as_bytes (fst (snd x)) < as_bytes (fst (snd y))
     \<and> \<not> Sublist.prefix (as_bytes (fst (snd x))) (as_bytes (fst (snd y)))
     \<and> \<not> Sublist.prefix (as_bytes (fst (snd y))) (as_bytes (fst (snd x)))"

lemma sorted_wrt_concat:
  assumes "sorted_wrt (<) (map fst xs)" "\<And>b t. (b, t) \<in> set xs \<Longrightarrow> sorted_wrt P (f t)"
    and "\<And>b s c t x y. (b, s) \<in> set xs \<Longrightarrow> (c, t) \<in> set xs \<Longrightarrow> b < c \<Longrightarrow> x \<in> set (f s) \<Longrightarrow> y \<in> set (f t) \<Longrightarrow> P x y"
  shows "sorted_wrt P (concat (map (\<lambda>(b, t). f t) xs))"
  using assms
proof (induction xs)
  case (Cons e xs)
  obtain b s where e: "e = (b, s)" by (cases e)
  have "sorted_wrt P (concat (map (\<lambda>(b, t). f t) xs))"
    using Cons.prems by (intro Cons.IH) (auto, blast)
  moreover have "P x y" if "x \<in> set (f s)" "(c, t) \<in> set xs" "y \<in> set (f t)" for x c t y
  proof (rule Cons.prems(3))
    show "b < c" using Cons.prems(1) that(2) e by (auto simp: image_iff)
  qed (use that e in auto)
  ultimately show ?case
    using Cons.prems(2) [of b s] e by (auto simp: sorted_wrt_append)
qed simp

text \<open>Left to right, the keys increase strictly and no key is a prefix of another.\<close>

lemma leaves_before: "wf_art path t \<Longrightarrow> sorted_wrt before (leaves t)"
proof (induction t arbitrary: path)
  case (AInner a ty pf ch)
  have "sorted_wrt before (concat (map (\<lambda>(b, t). leaves t) ch))"
  proof (rule sorted_wrt_concat)
    fix b c s t x y
    assume *: "(b, s) \<in> set ch" "(c, t) \<in> set ch" "b < c" "x \<in> set (leaves s)" "y \<in> set (leaves t)"
    obtain a1 k1 v1 a2 k2 v2 where xy: "x = (a1, k1, v1)" "y = (a2, k2, v2)" by (cases x; cases y)
    have p: "Sublist.prefix ((path @ pf) @ [b]) (as_bytes k1)" "Sublist.prefix ((path @ pf) @ [c]) (as_bytes k2)"
      using * xy wf_leaf_path wf_child [OF AInner.prems] by fastforce+
    show "before x y"
      using prefix_less [OF \<open>b < c\<close> p] by (simp add: before_def xy)
  next
    fix b t assume "(b, t) \<in> set ch"
    then show "sorted_wrt before (leaves t)" using AInner wf_child by blast
  qed (use AInner.prems in simp)
  then show ?case by simp
qed simp

lemma key_bytes_strict: "wf_art path t \<Longrightarrow> sorted_wrt (<) (map (as_bytes \<circ> fst) (entries t))"
  using leaves_before [of path t]
  by (simp add: entries_def sorted_wrt_map) (metis (mono_tags, lifting) before_def sorted_wrt_mono_rel)

definition leaf_at :: "('k, 'v) art \<Rightarrow> bytes \<Rightarrow> (nat \<times> 'k key \<times> 'v) option" where
  "leaf_at t kb = find (\<lambda>(a, k, v). as_bytes k = kb) (leaves t)"

lemma tree_map_leaf_at: "tree_map t kb = map_option snd (leaf_at t kb)"
proof -
  have "map_of (map (\<lambda>(k, v). (as_bytes k, (k, v))) (map snd ls)) kb
    = map_option snd (find (\<lambda>(a, k, v). as_bytes k = kb) ls)" for ls :: "(nat \<times> 'a key \<times> 'b) list"
    by (induction ls) (simp_all add: split_def)
  then show ?thesis by (simp add: tree_map_def entries_def leaf_at_def)
qed

lemma leaf_at_eq:
  assumes w: "wf_art path t"
  shows "leaf_at t kb = Some (a, k, v) \<longleftrightarrow> (a, k, v) \<in> set (leaves t) \<and> as_bytes k = kb"
proof -
  have "find (\<lambda>(a, k, v). as_bytes k = kb) ls = Some (a, k, v) \<longleftrightarrow> (a, k, v) \<in> set ls \<and> as_bytes k = kb"
    if "sorted_wrt before ls" for ls
    using that by (induction ls) (auto simp: before_def)
  from this [OF leaves_before [OF w]] show ?thesis by (simp add: leaf_at_def)
qed

lemma tree_map_eq:
  assumes "wf_art path t"
  shows "tree_map t kb = Some e \<longleftrightarrow> e \<in> set (entries t) \<and> as_bytes (fst e) = kb"
proof
  assume "tree_map t kb = Some e"
  then show "e \<in> set (entries t) \<and> as_bytes (fst e) = kb"
    using leaf_at_eq [OF assms] by (force simp: tree_map_leaf_at entries_def)
next
  assume "e \<in> set (entries t) \<and> as_bytes (fst e) = kb"
  then obtain a where "(a, fst e, snd e) \<in> set (leaves t)" by (auto simp: entries_def)
  then have "leaf_at t kb = Some (a, fst e, snd e)"
    using \<open>e \<in> set (entries t) \<and> as_bytes (fst e) = kb\<close> using leaf_at_eq [OF assms, of kb a "fst e" "snd e"] by simp
  then show "tree_map t kb = Some e" by (simp add: tree_map_leaf_at)
qed

lemma sorted_wrt_mem_cases:
  assumes "sorted_wrt P xs" "x \<in> set xs" "y \<in> set xs" "x \<noteq> y"
  shows "P x y \<or> P y x"
  using assms by (induction xs) auto

lemma leaf_unique:
  assumes "wf_art path t" "(a, k, v) \<in> set (leaves t)" "(a', k', v') \<in> set (leaves t)"
    and "Sublist.prefix (as_bytes k) (as_bytes k')"
  shows "(a, k, v) = (a', k', v')"
proof (rule ccontr)
  assume ne: "(a, k, v) \<noteq> (a', k', v')"
  have "sorted_wrt before (leaves t)" using assms(1) by (rule leaves_before)
  then have "before (a, k, v) (a', k', v') \<or> before (a', k', v') (a, k, v)"
    using assms(2,3) ne by (rule sorted_wrt_mem_cases)
  then show False using assms(4) by (auto simp: before_def)
qed

lemma entries_Leaf [simp]: "entries (ALeaf a k v) = [(k, v)]"
  by (simp add: entries_def)

lemma entries_Inner: "entries (AInner a ty pf ch) = concat (map (\<lambda>(b, t). entries t) ch)"
  by (simp add: entries_def map_concat comp_def split_def)

lemma wf_entry_path: "wf_art path t \<Longrightarrow> e \<in> set (entries t) \<Longrightarrow> Sublist.prefix path (as_bytes (fst e))"
  using wf_leaf_path by (fastforce simp: entries_def)

lemma tree_map_Leaf: "tree_map (ALeaf a k v) kb = (if kb = as_bytes k then Some (k, v) else None)"
  by (simp add: tree_map_def)

lemma tree_map_path: "wf_art path t \<Longrightarrow> tree_map t kb \<noteq> None \<Longrightarrow> Sublist.prefix path kb"
  using wf_entry_path by (auto simp: tree_map_eq)

text \<open>Looking a key up in an inner node: follow the path, then the child of the next byte.\<close>

lemma leaf_at_Inner:
  assumes w: "wf_art path (AInner a ty pf ch)"
  shows "leaf_at (AInner a ty pf ch) (path @ pf @ b # r)
      = (case map_of ch b of None \<Rightarrow> None | Some c \<Rightarrow> leaf_at c (path @ pf @ b # r))"
    and "\<not> Sublist.prefix (path @ pf) kb \<or> kb = path @ pf \<Longrightarrow> leaf_at (AInner a ty pf ch) kb = None"
proof -
  have s: "sorted_keys ch" using w by simp
  have child: "wf_art (path @ pf @ [c]) t
      \<and> (\<forall>(a, k, v)\<in>set (leaves t). Sublist.prefix (path @ pf @ [c]) (as_bytes k))"
    if "(c, t) \<in> set ch" for c t
    using wf_child [OF w that] wf_leaf_path [of "path @ pf @ [c]" t] by blast
  let ?kb = "path @ pf @ b # r"
  have at: "leaf_at t ?kb = Some (a', k, v) \<longleftrightarrow> (a', k, v) \<in> set (leaves t) \<and> as_bytes k = ?kb"
    if "(c, t) \<in> set ch" for c t a' k v
    by (rule leaf_at_eq [OF wf_child [OF w that]])
  have "leaf_at (AInner a ty pf ch) ?kb = Some (a', k, v) \<longleftrightarrow>
      (case map_of ch b of None \<Rightarrow> None | Some c \<Rightarrow> leaf_at c ?kb) = Some (a', k, v)" for a' k v
  proof -
    have "leaf_at (AInner a ty pf ch) ?kb = Some (a', k, v)
      \<longleftrightarrow> (\<exists>c t. (c, t) \<in> set ch \<and> (a', k, v) \<in> set (leaves t) \<and> as_bytes k = ?kb)"
      by (auto simp: leaf_at_eq [OF w])
    also have "\<dots> \<longleftrightarrow> (\<exists>t. (b, t) \<in> set ch \<and> (a', k, v) \<in> set (leaves t) \<and> as_bytes k = ?kb)"
    proof -
      have "c = b" if "(c, t) \<in> set ch" "(a', k, v) \<in> set (leaves t)" "as_bytes k = ?kb" for c t
        using child [OF that(1)] that(2,3) by fastforce
      then show ?thesis by blast
    qed
    also have "\<dots> \<longleftrightarrow> (\<exists>t. map_of ch b = Some t \<and> leaf_at t ?kb = Some (a', k, v))"
      unfolding map_of_eq_Some_iff_mem [OF s] using at by (intro ex_cong1) auto
    finally show ?thesis by (auto split: option.splits)
  qed
  then show "leaf_at (AInner a ty pf ch) ?kb
      = (case map_of ch b of None \<Rightarrow> None | Some c \<Rightarrow> leaf_at c ?kb)"
    by (metis option.exhaust prod_cases3)
  show "leaf_at (AInner a ty pf ch) kb = None" if *: "\<not> Sublist.prefix (path @ pf) kb \<or> kb = path @ pf"
  proof (rule ccontr)
    assume "leaf_at (AInner a ty pf ch) kb \<noteq> None"
    then obtain a' k v where "(a', k, v) \<in> set (leaves (AInner a ty pf ch))" "as_bytes k = kb"
      using leaf_at_eq [OF w] by fastforce
    then obtain c t where "(c, t) \<in> set ch" "(a', k, v) \<in> set (leaves t)" by auto
    then have "Sublist.prefix (path @ pf @ [c]) kb" using child \<open>as_bytes k = kb\<close> by blast
    with * show False by (auto simp: prefix_def)
  qed
qed

lemma tree_map_Inner:
  assumes w: "wf_art path (AInner a ty pf ch)"
  shows "tree_map (AInner a ty pf ch) (path @ pf @ b # r)
      = (case map_of ch b of None \<Rightarrow> None | Some c \<Rightarrow> tree_map c (path @ pf @ b # r))"
    and "\<not> Sublist.prefix (path @ pf) kb \<or> kb = path @ pf \<Longrightarrow> tree_map (AInner a ty pf ch) kb = None"
  using leaf_at_Inner [OF w] by (auto simp: tree_map_leaf_at split: option.split)


section \<open>Changing a part of a tree\<close>

text \<open>
  \<open>becomes N hp t hp' t'\<close>: the tree \<open>t\<close> in the heap \<open>hp\<close> has been turned into \<open>t'\<close> in \<open>hp'\<close>.  New
  nodes are at fresh addresses, every node of \<open>t\<close> that is not in \<open>t'\<close> is free, and whatever
  belongs to neither is untouched.
\<close>

definition becomes ::
    "nat \<Rightarrow> ('k, 'v) heap \<Rightarrow> ('k, 'v) art \<Rightarrow> ('k, 'v) heap \<Rightarrow> ('k, 'v) art \<Rightarrow> bool" where
  "becomes N hp t hp' t' \<longleftrightarrow> holds N hp' t' \<and> next_addr hp \<le> next_addr hp'
     \<and> (\<forall>a. a \<notin> set (addrs t) \<and> a \<notin> set (addrs t') \<longrightarrow> cells hp' a = cells hp a)
     \<and> (\<forall>a\<in>set (addrs t) - set (addrs t'). cells hp' a = None)
     \<and> (\<forall>a\<in>set (addrs t'). a \<in> set (addrs t) \<or> next_addr hp \<le> a)"

lemma becomesI:
  assumes "holds N hp' t'" "next_addr hp \<le> next_addr hp'" "set (addrs t) = A" "set (addrs t') = A'"
    "\<And>x. x \<notin> A \<Longrightarrow> x \<notin> A' \<Longrightarrow> cells hp' x = cells hp x"
    "\<And>x. x \<in> A \<Longrightarrow> x \<notin> A' \<Longrightarrow> cells hp' x = None"
    "\<And>x. x \<in> A' \<Longrightarrow> x \<in> A \<or> next_addr hp \<le> x"
  shows "becomes N hp t hp' t'"
  using assms by (simp add: becomes_def)

lemma becomes_frame:
  assumes "becomes N hp t hp' t'" "a < next_addr hp" "a \<notin> set (addrs t)"
  shows "cells hp' a = cells hp a" and "a \<notin> set (addrs t')"
  using assms by (auto simp: becomes_def)

lemma represents_cells: "represents N hp t \<Longrightarrow> a \<in> set (addrs t) \<Longrightarrow> cells hp a \<noteq> None"
  by (induction t) auto

text \<open>The allocated addresses change exactly by those of the two trees.\<close>

lemma becomes_dom:
  assumes "becomes N hp t hp' t'" "holds N hp t"
  shows "dom (cells hp') = dom (cells hp) - set (addrs t) \<union> set (addrs t')"
proof -
  have "cells hp' a \<noteq> None" if "a \<in> set (addrs t')" for a
    using assms(1) that represents_cells by (auto simp: becomes_def holds_def)
  moreover have "cells hp' a = None" if "a \<in> set (addrs t)" "a \<notin> set (addrs t')" for a
    using assms(1) that by (simp add: becomes_def)
  moreover have "cells hp' a = cells hp a" if "a \<notin> set (addrs t)" "a \<notin> set (addrs t')" for a
    using assms(1) that by (simp add: becomes_def)
  ultimately show ?thesis
    by (intro set_eqI) (metis DiffI DiffD1 DiffD2 Un_iff domIff)
qed

lemma addrs_append: "concat (map (\<lambda>(b, t). addrs t) (xs @ (b, c) # ys))
  = concat (map (\<lambda>(b, t). addrs t) xs) @ addrs c @ concat (map (\<lambda>(b, t). addrs t) ys)"
  by simp

text \<open>A change of one child, with the node above it rewritten to point to the new child.\<close>

lemma becomes_child:
  assumes h: "holds N hp (AInner a ty pf ch)" and s: "sorted_keys ch" and c: "(b, c) \<in> set ch"
    and b: "becomes N hp c hp1 c'"
    and n': "node_ok N n' ty pf (child_ptrs (al_write b c' ch))"
  defines "hp2 \<equiv> hp1\<lparr>cells := (cells hp1)(a \<mapsto> InnerCell n')\<rparr>"
  shows "becomes N hp (AInner a ty pf ch) hp2 (AInner a ty pf (al_write b c' ch))"
proof -
  obtain xs ys where ch: "ch = xs @ (b, c) # ys" "al_write b c' ch = xs @ (b, c') # ys"
    using al_split [OF s c] by metis
  define X Y where "X = concat (map (\<lambda>(b, t). addrs t) xs)" "Y = concat (map (\<lambda>(b, t). addrs t) ys)"
  have A: "addrs (AInner a ty pf ch) = a # X @ addrs c @ Y"
    "addrs (AInner a ty pf (al_write b c' ch)) = a # X @ addrs c' @ Y"
    unfolding ch(2) by (simp_all add: ch(1) X_Y_def)
  have lt: "\<forall>x\<in>set (a # X @ addrs c @ Y). x < next_addr hp" and dist: "distinct (a # X @ addrs c @ Y)"
    using h unfolding holds_def A by blast+
  have b': "represents N hp1 c'" "distinct (addrs c')" "\<forall>x\<in>set (addrs c'). x < next_addr hp1"
    "next_addr hp \<le> next_addr hp1"
    "\<And>a. a \<notin> set (addrs c) \<Longrightarrow> a \<notin> set (addrs c') \<Longrightarrow> cells hp1 a = cells hp a"
    "\<And>a. a \<in> set (addrs c) \<Longrightarrow> a \<notin> set (addrs c') \<Longrightarrow> cells hp1 a = None"
    "\<And>a. a \<in> set (addrs c') \<Longrightarrow> a \<in> set (addrs c) \<or> next_addr hp \<le> a"
    using b by (auto simp: becomes_def holds_def)
  have new: "x \<notin> set (addrs c')" if x: "x = a \<or> x \<in> set X \<or> x \<in> set Y" for x
  proof
    assume "x \<in> set (addrs c')"
    then consider "x \<in> set (addrs c)" | "next_addr hp \<le> x" using b'(7) by blast
    then show False
    proof cases
      case 1
      then show False using dist x by auto
    next
      case 2
      moreover have "x < next_addr hp" using lt x by auto
      ultimately show False by simp
    qed
  qed
  have same: "cells hp2 x = cells hp x" if x: "x \<in> set X \<or> x \<in> set Y" for x
  proof -
    have "x \<noteq> a" "x \<notin> set (addrs c)" using x dist by auto
    then show ?thesis using b'(5) new x by (simp add: hp2_def)
  qed
  have rest: "represents N hp2 t" if "(b', t) \<in> set (xs @ ys)" for b' t
  proof (rule represents_frame [of N hp])
    show "represents N hp t" using h that ch(1) by (auto simp: holds_def)
    show "cells hp2 x = cells hp x" if "x \<in> set (addrs t)" for x
      using that \<open>(b', t) \<in> set (xs @ ys)\<close> by (intro same) (auto simp: X_Y_def)
  qed
  have "represents N hp2 c'"
  proof (rule represents_frame [of N hp1])
    show "represents N hp1 c'" by (rule b'(1))
    show "cells hp2 x = cells hp1 x" if "x \<in> set (addrs c')" for x
      using that new [of a] by (auto simp: hp2_def)
  qed
  with rest n' have "represents N hp2 (AInner a ty pf (al_write b c' ch))"
    by (auto simp: ch(2) hp2_def)
  moreover have "distinct (addrs (AInner a ty pf (al_write b c' ch)))"
    using dist b'(2) new unfolding A by auto
  moreover have "\<forall>x\<in>set (a # X @ Y). x < next_addr hp1"
    using lt b'(4) by (auto intro: less_le_trans)
  then have "\<forall>x\<in>set (addrs (AInner a ty pf (al_write b c' ch))). x < next_addr hp2"
    using b'(3) unfolding A by (auto simp: hp2_def)
  ultimately have "holds N hp2 (AInner a ty pf (al_write b c' ch))"
    by (simp add: holds_def)
  moreover have "next_addr hp \<le> next_addr hp2" using b'(4) by (simp add: hp2_def)
  moreover have "cells hp2 x = cells hp x" if "x \<notin> set (a # X @ addrs c @ Y)" "x \<notin> set (a # X @ addrs c' @ Y)" for x
    using b'(5) [of x] that by (simp add: hp2_def)
  moreover have "cells hp2 x = None" if "x \<in> set (a # X @ addrs c @ Y)" "x \<notin> set (a # X @ addrs c' @ Y)" for x
    using b'(6) [of x] that by (auto simp: hp2_def)
  moreover have "x \<in> set (a # X @ addrs c @ Y) \<or> next_addr hp \<le> x" if "x \<in> set (a # X @ addrs c' @ Y)" for x
    using b'(7) [of x] that by auto
  ultimately show ?thesis
    unfolding becomes_def A by blast
qed

text \<open>If the child stays where it is, the node above it does not change.\<close>

lemma becomes_child_same:
  assumes h: "holds N hp (AInner a ty pf ch)" and s: "sorted_keys ch" and c: "(b, c) \<in> set ch"
    and b: "becomes N hp c hp1 c'" and r: "root_ptr c' = root_ptr c"
  shows "becomes N hp (AInner a ty pf ch) hp1 (AInner a ty pf (al_write b c' ch))"
proof -
  obtain n where n: "cells hp a = Some (InnerCell n)" "node_ok N n ty pf (child_ptrs ch)"
    using h by (auto simp: holds_def)
  obtain xs ys where "ch = xs @ (b, c) # ys" "al_write b c' ch = xs @ (b, c') # ys"
    using al_split [OF s c] by metis
  then have "child_ptrs (al_write b c' ch) = child_ptrs ch"
    using r by (simp add: child_ptrs_def)
  moreover have "cells hp1 a = Some (InnerCell n)"
    using becomes_frame(1) [OF b, of a] h holds_root [OF h c] n(1) by (auto simp: holds_def)
  then have "hp1\<lparr>cells := (cells hp1)(a \<mapsto> InnerCell n)\<rparr> = hp1"
    by (simp add: fun_upd_idem)
  ultimately show ?thesis
    using becomes_child [OF h s c b, of n] n(2) by simp
qed

end
