(* ===== verification/Lookup.thy ===== *)
theory Lookup
  imports Art_Tree
begin

text \<open>
  Reading a tree: the leaf of the smallest and of the largest key
  (\<open>src/src/nodes/operations/minmax.rs\<close>), the compressed path of a node in full, matching it
  against a key (\<open>match_prefix\<close> in \<open>representation.rs\<close>, \<open>inner_read_full_prefix\<close> in
  \<open>header.rs\<close>) and the search for a key (\<open>src/src/nodes/operations/lookup.rs\<close>).

  The loops go down the tree; their fuel bounds the number of steps, and any fuel above
  the height of the tree is enough.
\<close>

section \<open>Operations\<close>

fun minimum_unchecked :: "nat \<Rightarrow> ('k, 'v) heap \<Rightarrow> node_ptr \<Rightarrow> node_ptr outcome" where
  "minimum_unchecked 0 hp current_node = NoFuel"
| "minimum_unchecked (Suc fuel) hp current_node =
     (if ptr_type current_node = LeafKind then Ret current_node
      else and_then (read_inner hp current_node) (\<lambda>inner_node.
           and_then (inner_min inner_node) (\<lambda>(_, child). minimum_unchecked fuel hp child)))"

fun maximum_unchecked :: "nat \<Rightarrow> ('k, 'v) heap \<Rightarrow> node_ptr \<Rightarrow> node_ptr outcome" where
  "maximum_unchecked 0 hp current_node = NoFuel"
| "maximum_unchecked (Suc fuel) hp current_node =
     (if ptr_type current_node = LeafKind then Ret current_node
      else and_then (read_inner hp current_node) (\<lambda>inner_node.
           and_then (inner_max inner_node) (\<lambda>(_, child). maximum_unchecked fuel hp child)))"

definition inner_read_full_prefix ::
    "nat \<Rightarrow> ('k, 'v) heap \<Rightarrow> node_ptr inner \<Rightarrow> nat \<Rightarrow> (bytes \<times> node_ptr option) outcome" where
  "inner_read_full_prefix fuel hp node current_depth =
     (let h = inner_header node; len = prefix_len h in
      if len \<le> length (h_prefix h) then Ret (read_prefix h, None)
      else
        and_then (inner_min node) (\<lambda>(_, min_child).
        and_then (minimum_unchecked fuel hp min_child) (\<lambda>leaf_ptr.
        and_then (read_leaf hp leaf_ptr) (\<lambda>l.
        let key = as_bytes (leaf_key l) in
        and_then (assume_that (current_depth \<le> length key)) (\<lambda>_.
        and_then (assume_that (current_depth + len \<le> length key)) (\<lambda>_.
        and_then (assume_that (current_depth \<le> current_depth + len)) (\<lambda>_.
        and_then (slice_range key current_depth (current_depth + len)) (\<lambda>full.
        Ret (full, Some leaf_ptr)))))))))"

record mismatch =
  matched_bytes :: nat
  prefix_byte :: byte
  mismatch_leaf_ptr :: "node_ptr option"

datatype match_prefix_result = Mismatch mismatch | Match nat

definition match_prefix ::
    "nat \<Rightarrow> ('k, 'v) heap \<Rightarrow> node_ptr inner \<Rightarrow> bytes \<Rightarrow> nat \<Rightarrow> match_prefix_result outcome" where
  "match_prefix fuel hp node key current_depth =
     and_then (assume_that (current_depth \<le> length key)) (\<lambda>_.
     and_then (inner_read_full_prefix fuel hp node current_depth) (\<lambda>(pfx, leaf_ptr).
     and_then (slice_range key current_depth (length key)) (\<lambda>key.
     let matched = matching_len pfx key in
     if matched < length pfx then
       and_then (index_at pfx matched) (\<lambda>b.
       Ret (Mismatch \<lparr>matched_bytes = matched, prefix_byte = b, mismatch_leaf_ptr = leaf_ptr\<rparr>))
     else Ret (Match matched))))"

definition check_prefix_lookup_child ::
    "nat \<Rightarrow> ('k, 'v) heap \<Rightarrow> node_ptr \<Rightarrow> bytes \<Rightarrow> nat \<Rightarrow> (node_ptr option \<times> nat) outcome" where
  "check_prefix_lookup_child fuel hp inner_ptr key_bytes current_depth =
     and_then (read_inner hp inner_ptr) (\<lambda>inner_node.
     and_then (match_prefix fuel hp inner_node key_bytes current_depth) (\<lambda>r.
     case r of Mismatch _ \<Rightarrow> Ret (None, current_depth)
     | Match matched \<Rightarrow>
         let current_depth = current_depth + matched in
         if current_depth < length key_bytes then
           and_then (index_at key_bytes current_depth) (\<lambda>next_key_fragment.
           and_then (inner_lookup_child inner_node next_key_fragment) (\<lambda>child_lookup.
           Ret (child_lookup, if child_lookup \<noteq> None then current_depth + 1 else current_depth)))
         else Ret (None, current_depth)))"

fun search_from ::
    "nat \<Rightarrow> ('k, 'v) heap \<Rightarrow> bytes \<Rightarrow> node_ptr \<Rightarrow> nat \<Rightarrow> node_ptr option outcome" where
  "search_from 0 hp key_bytes current_node current_depth = NoFuel"
| "search_from (Suc fuel) hp key_bytes current_node current_depth =
     (if ptr_type current_node = LeafKind then
        and_then (read_leaf hp current_node) (\<lambda>l.
        Ret (if as_bytes (leaf_key l) = key_bytes then Some current_node else None))
      else
        and_then (check_prefix_lookup_child fuel hp current_node key_bytes current_depth)
          (\<lambda>(next_node, current_depth).
        case next_node of None \<Rightarrow> Ret None
        | Some next_node \<Rightarrow> search_from fuel hp key_bytes next_node current_depth))"

definition search_unchecked :: "('k, 'v) heap \<Rightarrow> node_ptr \<Rightarrow> bytes \<Rightarrow> node_ptr option outcome" where
  "search_unchecked hp root key_bytes = search_from (Suc (next_addr hp)) hp key_bytes root 0"

section \<open>The smallest and the largest leaf\<close>

lemma first_child:
  assumes "represents N hp (AInner a ty pf ch)" "wf_art path (AInner a ty pf ch)"
  obtains n b t ch' where "read_inner hp (Ptr ty a) = Ret n" "node_ok N n ty pf (child_ptrs ch)"
    "ch = (b, t) # ch'" "inner_min n = Ret (b, root_ptr t)" "ty \<noteq> LeafKind"
proof -
  obtain n where n: "read_inner hp (Ptr ty a) = Ret n" "node_ok N n ty pf (child_ptrs ch)" "ty \<noteq> LeafKind"
    using read_inner_Ret [OF assms(1)] by metis
  obtain b t ch' where ch: "ch = (b, t) # ch'"
    using wf_inner_ge2 [OF assms(2)] by (cases ch) auto
  have "inner_min n = Ret (hd (inner_children n))"
    using node_okD(2,5) [OF n(2)] ch by (intro inn.min_spec) (auto simp: child_ptrs_def)
  then have "inner_min n = Ret (b, root_ptr t)"
    using node_okD(5) [OF n(2)] ch by (simp add: child_ptrs_def)
  with n ch show thesis using that by blast
qed

lemma last_child:
  assumes "represents N hp (AInner a ty pf ch)" "wf_art path (AInner a ty pf ch)"
  obtains n b t ch' where "read_inner hp (Ptr ty a) = Ret n" "node_ok N n ty pf (child_ptrs ch)"
    "ch = ch' @ [(b, t)]" "inner_max n = Ret (b, root_ptr t)" "ty \<noteq> LeafKind"
proof -
  obtain n where n: "read_inner hp (Ptr ty a) = Ret n" "node_ok N n ty pf (child_ptrs ch)" "ty \<noteq> LeafKind"
    using read_inner_Ret [OF assms(1)] by metis
  obtain b t ch' where ch: "ch = ch' @ [(b, t)]"
    using wf_inner_ge2 [OF assms(2)] by (cases ch rule: rev_cases) auto
  have "inner_max n = Ret (last (inner_children n))"
    using node_okD(2,5) [OF n(2)] ch by (intro inn.max_spec) (auto simp: child_ptrs_def)
  then have "inner_max n = Ret (b, root_ptr t)"
    using node_okD(5) [OF n(2)] ch by (simp add: child_ptrs_def)
  with n ch show thesis using that by blast
qed

lemma minimum_from_spec:
  assumes "represents N hp t" "wf_art path t" "height t < fuel"
  shows "minimum_unchecked fuel hp (root_ptr t) = Ret (Ptr LeafKind (fst (hd (leaves t))))"
  using assms
proof (induction t arbitrary: path fuel)
  case (ALeaf a k v)
  then show ?case by (cases fuel) simp_all
next
  case (AInner a ty pf ch)
  obtain n b t ch' where n: "read_inner hp (Ptr ty a) = Ret n" "ch = (b, t) # ch'"
    "inner_min n = Ret (b, root_ptr t)" "ty \<noteq> LeafKind"
    using first_child [OF AInner.prems(1,2)] by metis
  obtain f where f: "fuel = Suc f" using AInner.prems(3) by (cases fuel) auto
  have mem: "(b, t) \<in> set ch" using n(2) by simp
  have w: "wf_art (path @ pf @ [b]) t" by (rule wf_child [OF AInner.prems(2) mem])
  have "height t < f" using height_child [OF mem, of a ty pf] AInner.prems(3) f by simp
  moreover have "represents N hp t" using AInner.prems(1) mem by auto
  ultimately have "minimum_unchecked f hp (root_ptr t) = Ret (Ptr LeafKind (fst (hd (leaves t))))"
    using AInner.IH [OF mem] w by blast
  then show ?case
    using n leaves_ne [OF w] by (simp add: f)
qed

lemma maximum_from_spec:
  assumes "represents N hp t" "wf_art path t" "height t < fuel"
  shows "maximum_unchecked fuel hp (root_ptr t) = Ret (Ptr LeafKind (fst (last (leaves t))))"
  using assms
proof (induction t arbitrary: path fuel)
  case (ALeaf a k v)
  then show ?case by (cases fuel) simp_all
next
  case (AInner a ty pf ch)
  obtain n b t ch' where n: "read_inner hp (Ptr ty a) = Ret n" "ch = ch' @ [(b, t)]"
    "inner_max n = Ret (b, root_ptr t)" "ty \<noteq> LeafKind"
    using last_child [OF AInner.prems(1,2)] by metis
  obtain f where f: "fuel = Suc f" using AInner.prems(3) by (cases fuel) auto
  have mem: "(b, t) \<in> set ch" using n(2) by simp
  have w: "wf_art (path @ pf @ [b]) t" by (rule wf_child [OF AInner.prems(2) mem])
  have "height t < f" using height_child [OF mem, of a ty pf] AInner.prems(3) f by simp
  moreover have "represents N hp t" using AInner.prems(1) mem by auto
  ultimately have "maximum_unchecked f hp (root_ptr t) = Ret (Ptr LeafKind (fst (last (leaves t))))"
    using AInner.IH [OF mem] w by blast
  then show ?case
    using n leaves_ne [OF w] by (simp add: f)
qed

section \<open>Matching the compressed path of a node\<close>

text \<open>
  The path of a node is read in full: from the header when it fits there, otherwise from the
  smallest leaf below the node, which has the whole path in its key.
\<close>

lemma read_leaf_first:
  assumes "represents N hp t" "wf_art path t" "hd (leaves t) = (a, k, v)"
  shows "read_leaf hp (Ptr LeafKind a) = Ret \<lparr>leaf_key = k, leaf_value = v\<rparr>"
proof -
  have leaf: "(a, k, v) \<in> set (leaves t) \<Longrightarrow> cells hp a = Some (LeafCell \<lparr>leaf_key = k, leaf_value = v\<rparr>)"
    using assms(1) by (induction t) auto
  then show ?thesis
    using leaves_ne [OF assms(2)] assms(3) by (auto simp: read_leaf_def dest: hd_in_set)
qed

lemma leaves_addrs: "(a, k, v) \<in> set (leaves t) \<Longrightarrow> a \<in> set (addrs t)"
proof (induction t)
  case (AInner a' ty pf ch)
  then obtain b t where "(b, t) \<in> set ch" "(a, k, v) \<in> set (leaves t)" by auto
  with AInner.IH show ?case by force
qed simp

lemma read_full_prefix_spec:
  assumes r: "represents N hp (AInner a ty pf ch)" and w: "wf_art path (AInner a ty pf ch)"
    and fuel: "height (AInner a ty pf ch) \<le> fuel"
    and n: "read_inner hp (Ptr ty a) = Ret n"
  shows "\<exists>lp. inner_read_full_prefix fuel hp n (length path) = Ret (pf, lp) \<and>
    (case lp of None \<Rightarrow> length pf \<le> N
     | Some p \<Rightarrow> ptr_addr p \<in> set (addrs (AInner a ty pf ch)) \<and> (\<exists>l. read_leaf hp p = Ret l \<and> Sublist.prefix (path @ pf) (as_bytes (leaf_key l))))"
proof -
  obtain b t ch' where t: "node_ok N n ty pf (child_ptrs ch)" "ch = (b, t) # ch'"
    "inner_min n = Ret (b, root_ptr t)"
    using first_child [OF r w] n by (metis outcome.inject)
  have h: "header_repr (inner_header n) pf" "length (h_prefix (inner_header n)) = N"
    using node_okD(3,4) [OF t(1)] by auto
  show ?thesis
  proof (cases "length pf \<le> N")
    case True
    then show ?thesis
      using h by (auto simp: inner_read_full_prefix_def header_repr_lengths read_prefix_repr)
  next
    case False
    have mem: "(b, t) \<in> set ch" using t(2) by simp
    have wt: "wf_art (path @ pf @ [b]) t" by (rule wf_child [OF w mem])
    have rt: "represents N hp t" using r mem by auto
    have "height t < fuel" using height_child [OF mem, of a ty pf] fuel by simp
    then have m: "minimum_unchecked fuel hp (root_ptr t) = Ret (Ptr LeafKind (fst (hd (leaves t))))"
      by (rule minimum_from_spec [OF rt wt])
    obtain a' k v where hd: "hd (leaves t) = (a', k, v)" by (cases "hd (leaves t)")
    have "read_leaf hp (Ptr LeafKind a') = Ret \<lparr>leaf_key = k, leaf_value = v\<rparr>"
      by (rule read_leaf_first [OF rt wt hd])
    moreover have "(a', k, v) \<in> set (leaves t)"
      using hd leaves_ne [OF wt] hd_in_set by metis
    then have "Sublist.prefix (path @ pf @ [b]) (as_bytes k)" by (rule wf_leaf_path [OF wt])
    then obtain z where z: "as_bytes k = path @ pf @ b # z" by (auto simp: prefix_def)
    moreover have "a' \<in> set (addrs t)"
      by (rule leaves_addrs) fact
    then have "a' \<in> set (addrs (AInner a ty pf ch))" using mem by auto
    ultimately show ?thesis
      using False t(3) m hd h
      by (simp add: inner_read_full_prefix_def Let_def header_repr_lengths slice_range_def)
  qed
qed

lemma match_prefix_spec:
  assumes r: "represents N hp (AInner a ty pf ch)" and w: "wf_art path (AInner a ty pf ch)"
    and fuel: "height (AInner a ty pf ch) \<le> fuel"
    and n: "read_inner hp (Ptr ty a) = Ret n"
    and key: "key = path @ rest"
  shows "if Sublist.prefix pf rest
     then match_prefix fuel hp n key (length path) = Ret (Match (length pf))
     else matching_len pf rest < length pf \<and>
       (\<exists>lp. match_prefix fuel hp n key (length path)
          = Ret (Mismatch \<lparr>matched_bytes = matching_len pf rest,
                prefix_byte = pf ! matching_len pf rest, mismatch_leaf_ptr = lp\<rparr>) \<and>
         (case lp of None \<Rightarrow> length pf \<le> N
          | Some p \<Rightarrow> ptr_addr p \<in> set (addrs (AInner a ty pf ch)) \<and> (\<exists>l. read_leaf hp p = Ret l \<and> Sublist.prefix (path @ pf) (as_bytes (leaf_key l)))))"
proof -
  obtain lp where lp: "inner_read_full_prefix fuel hp n (length path) = Ret (pf, lp)"
    "case lp of None \<Rightarrow> length pf \<le> N
     | Some p \<Rightarrow> ptr_addr p \<in> set (addrs (AInner a ty pf ch)) \<and> (\<exists>l. read_leaf hp p = Ret l \<and> Sublist.prefix (path @ pf) (as_bytes (leaf_key l)))"
    using read_full_prefix_spec [OF r w fuel n] by blast
  have slice: "slice_range key (length path) (length key) = Ret rest"
    by (simp add: slice_range_def key)
  have mp: "match_prefix fuel hp n key (length path) =
      (if matching_len pf rest < length pf
       then Ret (Mismatch \<lparr>matched_bytes = matching_len pf rest,
            prefix_byte = pf ! matching_len pf rest, mismatch_leaf_ptr = lp\<rparr>)
       else Ret (Match (matching_len pf rest)))"
    using key slice by (simp add: match_prefix_def lp(1) Let_def)
  show ?thesis
  proof (cases "Sublist.prefix pf rest")
    case True
    then have "matching_len pf rest = length pf" by (simp add: matching_len_full_iff)
    then show ?thesis using True by (simp add: mp)
  next
    case False
    then have "matching_len pf rest < length pf"
      using matching_len_full_iff [of pf rest] matching_len_le(1) [of pf rest] by simp
    then show ?thesis using False lp(2) by (auto simp: mp)
  qed
qed

text \<open>One step of a search: into the child of the next key byte, or nowhere.\<close>

lemma check_prefix_lookup_child_spec:
  assumes r: "represents N hp (AInner a ty pf ch)" and w: "wf_art path (AInner a ty pf ch)"
    and fuel: "height (AInner a ty pf ch) \<le> fuel" and key: "key = path @ rest"
  shows "(\<exists>d. check_prefix_lookup_child fuel hp (Ptr ty a) key (length path) = Ret (None, d)
        \<and> leaf_at (AInner a ty pf ch) key = None)
    \<or> (\<exists>b t r. rest = pf @ b # r \<and> (b, t) \<in> set ch \<and>
         check_prefix_lookup_child fuel hp (Ptr ty a) key (length path)
           = Ret (Some (root_ptr t), length (path @ pf @ [b])) \<and>
         leaf_at (AInner a ty pf ch) key = leaf_at t key)"
proof -
  obtain n where n: "read_inner hp (Ptr ty a) = Ret n" "node_ok N n ty pf (child_ptrs ch)"
    using read_inner_Ret [OF r] by metis
  note mp = match_prefix_spec [OF r w fuel n(1) key]
  show ?thesis
  proof (cases "Sublist.prefix pf rest")
    case False
    then have "\<not> Sublist.prefix (path @ pf) key" by (simp add: key)
    then have "leaf_at (AInner a ty pf ch) key = None" by (simp add: leaf_at_Inner(2) [OF w])
    then show ?thesis
      using mp False n(1) by (auto simp: check_prefix_lookup_child_def)
  next
    case True
    then obtain r' where r': "rest = pf @ r'" by (auto simp: prefix_def)
    show ?thesis
    proof (cases r')
      case Nil
      then have "leaf_at (AInner a ty pf ch) key = None"
        using leaf_at_Inner(2) [OF w, of key] by (simp add: key r')
      then show ?thesis
        using mp True n(1) Nil by (simp add: check_prefix_lookup_child_def key r')
    next
      case (Cons b r'')
      have chk: "check_prefix_lookup_child fuel hp (Ptr ty a) key (length path)
          = Ret (map_option root_ptr (map_of ch b),
              if map_of ch b = None then length (path @ pf) else length (path @ pf @ [b]))"
      proof -
        have mp': "match_prefix fuel hp n key (length path) = Ret (Match (length pf))"
          using mp True by simp
        have idx: "index_at key (length path + length pf) = Ret b"
          using Cons nth_append_length [of "path @ pf" b r''] by (simp add: key r' index_at_def)
        have lt: "length path + length pf < length key"
          using Cons by (simp add: key r')
        show ?thesis
          unfolding check_prefix_lookup_child_def n(1) and_then.simps mp'
          using lt by (auto simp: idx node_okD(6) [OF n(2)] Let_def)
      qed
      have look: "leaf_at (AInner a ty pf ch) key
          = (case map_of ch b of None \<Rightarrow> None | Some c \<Rightarrow> leaf_at c key)"
        unfolding key r' Cons by (rule leaf_at_Inner(1) [OF w])
      show ?thesis
      proof (cases "map_of ch b")
        case None
        then show ?thesis using chk look by auto
      next
        case (Some t)
        then have "(b, t) \<in> set ch" by (rule map_of_SomeD)
        then show ?thesis
          using Some chk look Cons r' by (intro disjI2 exI [of _ b] exI [of _ t] exI [of _ r'']) simp
      qed
    qed
  qed
qed

section \<open>Search\<close>

lemma search_from_spec:
  assumes "represents N hp t" "wf_art path t" "height t < fuel" "Sublist.prefix path key"
  shows "search_from fuel hp key (root_ptr t) (length path)
    = Ret (map_option (\<lambda>(a, _). Ptr LeafKind a) (leaf_at t key))"
  using assms
proof (induction t arbitrary: path fuel)
  case (ALeaf a k v)
  then show ?case by (cases fuel) (simp_all add: read_leaf_def leaf_at_def)
next
  case (AInner a ty pf ch)
  obtain f where f: "fuel = Suc f" using AInner.prems(3) by (cases fuel) auto
  obtain rest where key: "key = path @ rest" using AInner.prems(4) by (auto simp: prefix_def)
  have ty: "ty \<noteq> LeafKind" using AInner.prems(2) by simp
  have "height (AInner a ty pf ch) \<le> f" using AInner.prems(3) f by simp
  from check_prefix_lookup_child_spec [OF AInner.prems(1,2) this key]
  consider d where "check_prefix_lookup_child f hp (Ptr ty a) key (length path) = Ret (None, d)"
      "leaf_at (AInner a ty pf ch) key = None"
    | b t r where "rest = pf @ b # r" "(b, t) \<in> set ch"
      "check_prefix_lookup_child f hp (Ptr ty a) key (length path)
        = Ret (Some (root_ptr t), length (path @ pf @ [b]))"
      "leaf_at (AInner a ty pf ch) key = leaf_at t key"
    by blast
  then show ?case
  proof cases
    case 1
    then show ?thesis using ty by (simp add: f)
  next
    case (2 b t r)
    have "height t < f"
      using height_child [OF 2(2), of a ty pf] AInner.prems(3) f by simp
    moreover have "represents N hp t" using AInner.prems(1) 2(2) by auto
    moreover have "Sublist.prefix (path @ pf @ [b]) key" by (simp add: key 2(1))
    ultimately have "search_from f hp key (root_ptr t) (length (path @ pf @ [b]))
        = Ret (map_option (\<lambda>(a, _). Ptr LeafKind a) (leaf_at t key))"
      using AInner.IH [OF 2(2)] wf_child [OF AInner.prems(2) 2(2)] by blast
    then show ?thesis using 2(3,4) ty by (simp add: f)
  qed
qed

text \<open>
  Searching the tree a heap holds returns, without panic or undefined behaviour, the leaf
  with exactly the given key, if there is one.
\<close>

lemma search_unchecked_spec:
  assumes "holds N hp t" "wf_art [] t"
  shows "search_unchecked hp (root_ptr t) key
    = Ret (map_option (\<lambda>(a, _). Ptr LeafKind a) (leaf_at t key))"
  using search_from_spec [of N hp t "[]" "Suc (next_addr hp)" key] assms holds_height [OF assms(1)]
  by (simp add: search_unchecked_def holds_def)

end
