(* ===== verification/Insert.thy ===== *)
theory Insert
  imports Lookup
begin

text \<open>
  Insertion (\<open>src/src/nodes/operations/insert.rs\<close>): the search for the point where a key goes
  in, and the application of that point to the tree.

  The abstract insertion \<open>tree_insert\<close> works on tree shapes; it is defined by recursion on the
  shape, with the key bytes that are left.  The lemmas show that the iterative search and the
  update in place implement it, that it fails exactly for a key that is a proper prefix of a
  key in the tree or an extension of one, and that otherwise it updates the map at that key.
\<close>

section \<open>Searching for the insert point\<close>

datatype insert_prefix_error = InsertPrefixError (byte_repr: bytes)

datatype insert_search_result_type =
    MismatchPrefix mismatch node_ptr
  | SplitLeaf node_ptr nat
  | Exact node_ptr
  | IntoExisting node_ptr

record insert_point =
  ip_grandparent_ptr_and_parent_key_byte :: "(node_ptr \<times> byte) option"
  ip_parent_ptr_and_child_key_byte :: "(node_ptr \<times> byte) option"
  insert_type :: insert_search_result_type
  key_bytes_used :: nat
  ip_root :: node_ptr

datatype control_flow = Break mismatch | Continue "node_ptr option"

definition test_prefix_identify_insert ::
    "nat \<Rightarrow> ('k, 'v) heap \<Rightarrow> node_ptr \<Rightarrow> bytes \<Rightarrow> nat \<Rightarrow>
      (insert_prefix_error + (control_flow \<times> nat)) outcome" where
  "test_prefix_identify_insert fuel hp inner_ptr key current_depth =
     and_then (read_inner hp inner_ptr) (\<lambda>inner_node.
     and_then (match_prefix fuel hp inner_node key current_depth) (\<lambda>r.
     case r of Mismatch mismatch \<Rightarrow> Ret (Inr (Break mismatch, current_depth))
     | Match matched \<Rightarrow>
         let current_depth = current_depth + matched in
         if current_depth < length key then
           and_then (index_at key current_depth) (\<lambda>next_key_fragment.
           and_then (inner_lookup_child inner_node next_key_fragment) (\<lambda>child.
           Ret (Inr (Continue child, current_depth))))
         else Ret (Inl (InsertPrefixError key))))"

fun search_insert_from ::
    "nat \<Rightarrow> ('k, 'v) heap \<Rightarrow> node_ptr \<Rightarrow> bytes \<Rightarrow> (node_ptr \<times> byte) option \<Rightarrow> (node_ptr \<times> byte) option
      \<Rightarrow> node_ptr \<Rightarrow> nat \<Rightarrow> (insert_prefix_error + insert_point) outcome" where
  "search_insert_from 0 hp root key_bytes grandparent parent current_node current_depth = NoFuel"
| "search_insert_from (Suc fuel) hp root key_bytes grandparent parent current_node current_depth =
     (let point = \<lambda>ty depth.
        \<lparr>ip_grandparent_ptr_and_parent_key_byte = grandparent,
         ip_parent_ptr_and_child_key_byte = parent,
         insert_type = ty, key_bytes_used = depth, ip_root = root\<rparr> in
      if ptr_type current_node = LeafKind then
        and_then (read_leaf hp current_node) (\<lambda>leaf_node.
        let leaf_bytes = as_bytes (leaf_key leaf_node) in
        if leaf_bytes = key_bytes then Ret (Inr (point (Exact current_node) current_depth))
        else
          and_then (assume_that (current_depth \<le> length leaf_bytes)) (\<lambda>_.
          and_then (assume_that (current_depth \<le> length key_bytes)) (\<lambda>_.
          let prefix_size = matching_len (drop current_depth leaf_bytes) (drop current_depth key_bytes);
              new_key_bytes_used = current_depth + prefix_size in
          if length key_bytes \<le> new_key_bytes_used \<or> length leaf_bytes \<le> new_key_bytes_used
          then Ret (Inl (InsertPrefixError key_bytes))
          else Ret (Inr (point (SplitLeaf current_node new_key_bytes_used) current_depth)))))
      else
        and_then (test_prefix_identify_insert fuel hp current_node key_bytes current_depth) (\<lambda>r.
        case r of Inl e \<Rightarrow> Ret (Inl e)
        | Inr (Continue next_child_node, current_depth) \<Rightarrow>
            and_then (assume_that (current_depth < length key_bytes)) (\<lambda>_.
            case next_child_node of
              Some next_child_node \<Rightarrow>
                and_then (index_at key_bytes current_depth) (\<lambda>b.
                search_insert_from fuel hp root key_bytes parent (Some (current_node, b))
                  next_child_node (current_depth + 1))
            | None \<Rightarrow> Ret (Inr (point (IntoExisting current_node) current_depth)))
        | Inr (Break mismatch, current_depth) \<Rightarrow>
            if length key_bytes \<le> current_depth + matched_bytes mismatch
            then Ret (Inl (InsertPrefixError key_bytes))
            else Ret (Inr (point (MismatchPrefix mismatch current_node) current_depth))))"

definition search_for_insert_point ::
    "('k, 'v) heap \<Rightarrow> node_ptr \<Rightarrow> bytes \<Rightarrow> (insert_prefix_error + insert_point) outcome" where
  "search_for_insert_point hp root key_bytes =
     search_insert_from (Suc (next_addr hp)) hp root key_bytes None None root 0"

section \<open>Applying the insert point\<close>

record ('k, 'v) insert_result =
  ir_leaf_node_ptr :: node_ptr
  existing_leaf :: "('k, 'v) leaf option"
  ir_new_root :: node_ptr

definition write_new_child_in_existing_node ::
    "('k, 'v) heap \<Rightarrow> node_ptr \<Rightarrow> ('k, 'v) leaf \<Rightarrow> nat \<Rightarrow> (node_ptr \<times> node_ptr \<times> ('k, 'v) heap) outcome" where
  "write_new_child_in_existing_node hp inner_node_ptr new_leaf_node used =
     (if ptr_type inner_node_ptr = LeafKind then Panic else
      and_then (read_inner hp inner_node_ptr) (\<lambda>inner_node.
      and_then (index_at (as_bytes (leaf_key new_leaf_node)) used) (\<lambda>new_leaf_key_byte.
      let (new_leaf_ptr, hp) = alloc_leaf hp new_leaf_node in
      if is_full inner_node then
        and_then (inner_grow inner_node) (\<lambda>new_node.
        and_then (inner_write_child new_node new_leaf_key_byte new_leaf_ptr) (\<lambda>new_node.
        let (new_inner_node, hp) = alloc_inner hp new_node in
        and_then (dealloc_inner hp inner_node_ptr) (\<lambda>hp.
        Ret (new_inner_node, new_leaf_ptr, hp))))
      else
        and_then (inner_write_child inner_node new_leaf_key_byte new_leaf_ptr) (\<lambda>inner_node.
        and_then (write_inner hp inner_node_ptr inner_node) (\<lambda>hp.
        Ret (inner_node_ptr, new_leaf_ptr, hp))))))"

definition parent_write_child ::
    "('k, 'v) heap \<Rightarrow> node_ptr \<Rightarrow> byte \<Rightarrow> node_ptr \<Rightarrow> ('k, 'v) heap outcome" where
  "parent_write_child hp parent_inner_node key_byte new_child =
     (if ptr_type parent_inner_node = LeafKind then Panic else
      and_then (read_inner hp parent_inner_node) (\<lambda>parent_node.
      and_then (inner_write_child parent_node key_byte new_child) (\<lambda>parent_node.
      write_inner hp parent_inner_node parent_node)))"

definition split_prefix ::
    "nat \<Rightarrow> ('k, 'v) heap \<Rightarrow> mismatch \<Rightarrow> node_ptr \<Rightarrow> nat \<Rightarrow> 'k key \<Rightarrow> 'v
      \<Rightarrow> (node_ptr \<times> node_ptr \<times> ('k, 'v) heap) outcome" where
  \<comment> \<open>the arm \<open>MismatchPrefix\<close>\<close>
  "split_prefix PREFIX_LEN hp mismatch mismatched_inner_node_ptr used key v =
     (let key_bytes = as_bytes key; matched = matched_bytes mismatch in
      and_then (assume_that (used + matched < length key_bytes)) (\<lambda>_.
      and_then (read_inner hp mismatched_inner_node_ptr) (\<lambda>node.
      and_then (index_at key_bytes (used + matched)) (\<lambda>key_byte.
      let (new_leaf_pointer, hp) = alloc_leaf hp \<lparr>leaf_key = key, leaf_value = v\<rparr>;
          h = inner_header node; pfx = read_prefix h in
      and_then (slice_range pfx 0 (min (length pfx) matched)) (\<lambda>pfx.
      and_then (write_two_ordered (from_prefix PREFIX_LEN pfx matched)
        (prefix_byte mismatch) mismatched_inner_node_ptr key_byte new_leaf_pointer) (\<lambda>new_n4.
      let shrink_len = matched + 1 in
      and_then
        (case mismatch_leaf_ptr mismatch of
           Some leaf_ptr \<Rightarrow>
             and_then (read_leaf hp leaf_ptr) (\<lambda>l.
             ltrim_by_with_leaf h shrink_len used (as_bytes (leaf_key l)))
         | None \<Rightarrow> ltrim_by h shrink_len) (\<lambda>h.
      and_then (write_inner hp mismatched_inner_node_ptr (set_header h node)) (\<lambda>hp.
      let (new_inner, hp) = alloc_inner hp (Inner4 new_n4) in
      Ret (new_inner, new_leaf_pointer, hp)))))))))"

definition split_leaf ::
    "nat \<Rightarrow> ('k, 'v) heap \<Rightarrow> node_ptr \<Rightarrow> nat \<Rightarrow> nat \<Rightarrow> 'k key \<Rightarrow> 'v
      \<Rightarrow> (node_ptr \<times> node_ptr \<times> ('k, 'v) heap) outcome" where
  \<comment> \<open>the arm \<open>SplitLeaf\<close>\<close>
  "split_leaf PREFIX_LEN hp leaf_ptr new_used used key v =
     and_then (read_leaf hp leaf_ptr) (\<lambda>l.
     let key_bytes = as_bytes key; leaf_bytes = as_bytes (leaf_key l) in
     and_then (assume_that (used < length leaf_bytes)) (\<lambda>_.
     and_then (assume_that (used < length key_bytes)) (\<lambda>_.
     and_then (assume_that (new_used < length leaf_bytes)) (\<lambda>_.
     and_then (assume_that (new_used < length key_bytes)) (\<lambda>_.
     and_then (assume_that (used \<le> new_used)) (\<lambda>_.
     and_then (slice_range key_bytes used new_used) (\<lambda>pfx.
     and_then (index_at leaf_bytes new_used) (\<lambda>leaf_node_key_byte.
     and_then (index_at key_bytes new_used) (\<lambda>new_leaf_node_key_byte.
     let (new_leaf_node_pointer, hp) = alloc_leaf hp \<lparr>leaf_key = key, leaf_value = v\<rparr> in
     and_then (write_two_ordered (from_prefix PREFIX_LEN pfx (new_used - used))
       leaf_node_key_byte leaf_ptr new_leaf_node_key_byte new_leaf_node_pointer) (\<lambda>new_n4.
     let (new_inner, hp) = alloc_inner hp (Inner4 new_n4) in
     Ret (new_inner, new_leaf_node_pointer, hp)))))))))))"

definition insert_local ::
    "nat \<Rightarrow> ('k, 'v) heap \<Rightarrow> insert_point \<Rightarrow> 'k key \<Rightarrow> 'v
      \<Rightarrow> (node_ptr \<times> node_ptr \<times> ('k, 'v) heap) outcome" where
  \<comment> \<open>the new node at the insert point, before it is written back to the parent\<close>
  "insert_local PREFIX_LEN hp ip key v =
     (case insert_type ip of
        MismatchPrefix mismatch p \<Rightarrow> split_prefix PREFIX_LEN hp mismatch p (key_bytes_used ip) key v
      | SplitLeaf p new_used \<Rightarrow> split_leaf PREFIX_LEN hp p new_used (key_bytes_used ip) key v
      | IntoExisting p \<Rightarrow>
          write_new_child_in_existing_node hp p \<lparr>leaf_key = key, leaf_value = v\<rparr> (key_bytes_used ip)
      | Exact p \<Rightarrow> Panic)"

definition insert_apply ::
    "nat \<Rightarrow> ('k, 'v) heap \<Rightarrow> insert_point \<Rightarrow> 'k key \<Rightarrow> 'v
      \<Rightarrow> (('k, 'v) insert_result \<times> ('k, 'v) heap) outcome" where
  "insert_apply PREFIX_LEN hp ip key v =
     (case insert_type ip of
        Exact leaf_node_ptr \<Rightarrow>
          and_then (read_leaf hp leaf_node_ptr) (\<lambda>old_leaf_node.
          and_then (write_leaf hp leaf_node_ptr \<lparr>leaf_key = key, leaf_value = v\<rparr>) (\<lambda>hp.
          Ret (\<lparr>ir_leaf_node_ptr = leaf_node_ptr, existing_leaf = Some old_leaf_node,
                ir_new_root = ip_root ip\<rparr>, hp)))
      | _ \<Rightarrow>
          and_then (insert_local PREFIX_LEN hp ip key v) (\<lambda>(new_inner_node, leaf_node_ptr, hp).
          case ip_parent_ptr_and_child_key_byte ip of
            Some (parent_ptr, parent_key_fragment) \<Rightarrow>
              and_then (parent_write_child hp parent_ptr parent_key_fragment new_inner_node) (\<lambda>hp.
              Ret (\<lparr>ir_leaf_node_ptr = leaf_node_ptr, existing_leaf = None,
                    ir_new_root = ip_root ip\<rparr>, hp))
          | None \<Rightarrow>
              Ret (\<lparr>ir_leaf_node_ptr = leaf_node_ptr, existing_leaf = None,
                    ir_new_root = new_inner_node\<rparr>, hp)))"

section \<open>Insertion on tree shapes\<close>

lemma art_size_child: "(b, c) \<in> set ch \<Longrightarrow> size c < size (AInner a ty pf ch)"
  by (induction ch) auto

text \<open>
  \<open>rest\<close> is what is left of the key below the node; a new leaf goes to the address \<open>nx\<close> and
  a new inner node to the one after it.
\<close>

function tree_insert :: "nat \<Rightarrow> 'k key \<Rightarrow> 'v \<Rightarrow> bytes \<Rightarrow> ('k, 'v) art \<Rightarrow> ('k, 'v) art option" where
  "tree_insert nx k v rest (ALeaf a k0 v0) =
     (if as_bytes k0 = as_bytes k then Some (ALeaf a k v)
      else
        let r0 = drop (length (as_bytes k) - length rest) (as_bytes k0); m = matching_len r0 rest in
        if length rest \<le> m \<or> length r0 \<le> m then None
        else Some (AInner (Suc nx) Node4 (take m rest)
               (two_children (r0 ! m) (ALeaf a k0 v0) (rest ! m) (ALeaf nx k v))))"
| "tree_insert nx k v rest (AInner a ty pf ch) =
     (let m = matching_len pf rest in
      if m < length pf then
        if length rest \<le> m then None
        else Some (AInner (Suc nx) Node4 (take m pf)
               (two_children (pf ! m) (AInner a ty (drop (Suc m) pf) ch) (rest ! m) (ALeaf nx k v)))
      else
        case drop m rest of [] \<Rightarrow> None
        | b # rest' \<Rightarrow>
            (case map_of ch b of
               Some c \<Rightarrow> map_option (\<lambda>c'. AInner a ty pf (al_write b c' ch)) (tree_insert nx k v rest' c)
             | None \<Rightarrow>
                 Some (if upper_capacity ty \<le> length ch
                       then AInner (Suc nx) (grown_type ty) pf (al_write b (ALeaf nx k v) ch)
                       else AInner a ty pf (al_write b (ALeaf nx k v) ch))))"
  by pat_completeness auto
termination
  by (relation "measure (\<lambda>(_, _, _, _, t). size t)") (use art_size_child in \<open>auto dest!: map_of_SomeD simp del: art.size\<close>)

lemma set_two_children: "set (two_children b p c q) = {(b, p), (c, q)}"
  by (auto simp: two_children_def)

lemma sorted_two_children: "b \<noteq> c \<Longrightarrow> sorted_keys (two_children b p c q)"
  by (auto simp: two_children_def)

lemma length_two_children [simp]: "length (two_children b p c q) = 2"
  by (simp add: two_children_def)

lemma child_ptrs_two: "child_ptrs (two_children b p c q) = two_children b (root_ptr p) c (root_ptr q)"
  by (simp add: two_children_def child_ptrs_def)

lemma set_entries_Inner: "set (entries (AInner a ty pf ch)) = (\<Union>(b, t)\<in>set ch. set (entries t))"
  by (auto simp: entries_Inner)

lemma nth_mismatch:
  assumes "matching_len pf rest < length pf" "matching_len pf rest < length rest"
  defines "m \<equiv> matching_len pf rest"
  shows "pf = take m pf @ pf ! m # drop (Suc m) pf" "rest = take m pf @ rest ! m # drop (Suc m) rest"
    "pf ! m \<noteq> rest ! m"
proof -
  show "pf = take m pf @ pf ! m # drop (Suc m) pf"
    using assms(1) by (simp add: m_def id_take_nth_drop)
  have "rest = take m rest @ rest ! m # drop (Suc m) rest"
    using assms(2) by (simp add: m_def id_take_nth_drop)
  then show "rest = take m pf @ rest ! m # drop (Suc m) rest"
    unfolding m_def take_matching_len [of pf rest] .
  show "pf ! m \<noteq> rest ! m"
    using nth_matching_len assms by blast
qed

text \<open>A node with a child for every byte is the largest kind; only the other kinds grow.\<close>

lemma full_256_has_all:
  assumes "sorted_keys ch" "length ch = 256"
  shows "b \<in> fst ` set (ch :: (byte \<times> 'a) list)"
proof -
  have "card (fst ` set ch) = 256"
    using sorted_keys_distinct [OF assms(1)] assms(2) by (metis distinct_card length_map list.set_map)
  moreover have "card (UNIV :: byte set) = 256"
    by (simp add: card_word)
  ultimately have "fst ` set ch = (UNIV :: byte set)"
    by (metis card_subset_eq finite subset_UNIV)
  then show ?thesis by simp
qed

lemma wf_write:
  assumes "wf_art path (AInner a ty pf ch)" "wf_art (path @ pf @ [b]) c'"
    and "in_range ty' (length (al_write b c' ch))" "ty' \<noteq> LeafKind"
  shows "wf_art path (AInner a' ty' pf (al_write b c' ch))"
  using assms by (auto simp: sorted_al_write set_al_write)

lemma in_range_insert:
  assumes "in_range ty n" "ty \<noteq> LeafKind" "ty = Node256 \<longrightarrow> n < 256"
  shows "if upper_capacity ty \<le> n then in_range (grown_type ty) (Suc n) \<and> grown_type ty \<noteq> LeafKind
    else in_range ty (Suc n)"
  using assms by (cases ty) (auto simp: in_range_def)

text \<open>Insertion keeps the tree well-formed.\<close>

lemma tree_insert_wf:
  assumes "wf_art path t" "as_bytes k = path @ rest" "length (as_bytes k) < 2 ^ 32"
    "tree_insert nx k v rest t = Some t'"
  shows "wf_art path t'"
  using assms
proof (induction t arbitrary: path rest t')
  case (ALeaf a k0 v0)
  show ?case
  proof (cases "as_bytes k0 = as_bytes k")
    case True
    then show ?thesis using ALeaf.prems by auto
  next
    case False
    obtain r0 where r0: "as_bytes k0 = path @ r0" using ALeaf.prems(1) by (auto simp: prefix_def)
    let ?m = "matching_len r0 rest"
    have m: "?m < length rest" "?m < length r0"
      and t': "t' = AInner (Suc nx) Node4 (take ?m rest)
               (two_children (r0 ! ?m) (ALeaf a k0 v0) (rest ! ?m) (ALeaf nx k v))"
      using ALeaf.prems(2,4) False r0 by (auto simp: Let_def split: if_splits)
    note s = nth_mismatch [OF m(2,1)]
    have "take ?m rest = take ?m r0" by (rule take_matching_len [symmetric])
    moreover have "Sublist.prefix (path @ take ?m r0 @ [r0 ! ?m]) (as_bytes k0)"
      by (subst r0, subst (5) s(1)) simp
    moreover have "Sublist.prefix (path @ take ?m r0 @ [rest ! ?m]) (as_bytes k)"
      by (subst ALeaf.prems(2), subst (4) s(2)) simp
    ultimately show ?thesis
      using ALeaf.prems(1,3) s(3) by (simp add: t' set_two_children sorted_two_children in_range_def)
  qed
next
  case (AInner a ty pf ch)
  let ?m = "matching_len pf rest"
  show ?case
  proof (cases "?m < length pf")
    case True
    then have m: "?m < length rest"
      and t': "t' = AInner (Suc nx) Node4 (take ?m pf)
               (two_children (pf ! ?m) (AInner a ty (drop (Suc ?m) pf) ch) (rest ! ?m) (ALeaf nx k v))"
      using AInner.prems(4) by (auto simp: Let_def split: if_splits)
    note s = nth_mismatch [OF True m]
    have eq: "path @ take ?m pf @ pf ! ?m # drop (Suc ?m) pf @ [b] = path @ pf @ [b]" for b
      using arg_cong [OF s(1) [symmetric], of "\<lambda>x. path @ x @ [b]"] by simp
    have "wf_art (path @ take ?m pf @ [pf ! ?m]) (AInner a ty (drop (Suc ?m) pf) ch)"
      using AInner.prems(1) by (simp add: eq)
    moreover have "Sublist.prefix (path @ take ?m pf @ [rest ! ?m]) (as_bytes k)"
      by (subst AInner.prems(2), subst (4) s(2)) simp
    ultimately show ?thesis
      using AInner.prems(3) s(3) by (simp add: t' set_two_children sorted_two_children in_range_def)
  next
    case False
    then have m: "?m = length pf" using matching_len_le(1) [of pf rest] by simp
    then obtain r where r: "rest = pf @ r" by (metis matching_len_full_iff prefix_def)
    then obtain b rest' where b: "rest = pf @ b # rest'"
      using AInner.prems(4) m by (cases r) (simp_all add: Let_def)
    have s: "sorted_keys ch" and ty: "ty \<noteq> LeafKind" "in_range ty (length ch)"
      using AInner.prems(1) by simp_all
    show ?thesis
    proof (cases "map_of ch b")
      case (Some c)
      then have c: "(b, c) \<in> set ch" by (rule map_of_SomeD)
      obtain c' where c': "tree_insert nx k v rest' c = Some c'" "t' = AInner a ty pf (al_write b c' ch)"
        using AInner.prems(4) m b Some by (auto simp: Let_def)
      have "wf_art (path @ pf @ [b]) c'"
        using AInner.IH [OF c wf_child [OF AInner.prems(1) c] _ AInner.prems(3) c'(1)]
          AInner.prems(2) b by simp
      moreover have "length (al_write b c' ch) = length ch"
        using c s by (simp add: length_al_write rev_image_eqI)
      ultimately show ?thesis
        unfolding c'(2) using ty by (intro wf_write [OF AInner.prems(1)]) simp_all
    next
      case None
      then have new: "b \<notin> fst ` set ch" by (simp add: map_of_eq_None_iff)
      let ?ch = "al_write b (ALeaf nx k v) ch"
      have len: "length ?ch = Suc (length ch)" using new s by (simp add: length_al_write)
      have "ty = Node256 \<longrightarrow> length ch < 256"
        using full_256_has_all [OF s, of b] new ty(2) by (auto simp: in_range_def le_neq_implies_less)
      note rg = in_range_insert [OF ty(2,1) this]
      have leaf: "wf_art (path @ pf @ [b]) (ALeaf nx k v)"
        using AInner.prems(2,3) b by simp
      have "t' = (if upper_capacity ty \<le> length ch then AInner (Suc nx) (grown_type ty) pf ?ch
          else AInner a ty pf ?ch)"
        using AInner.prems(4) m b None by (auto simp: Let_def)
      then show ?thesis
        using rg len ty(1) wf_write [OF AInner.prems(1) leaf] by (auto split: if_splits)
    qed
  qed
qed


text \<open>
  A successful insertion replaces the entry of the key, if there is one, and keeps all others.
\<close>

lemma entries_write:
  assumes w: "wf_art path (AInner a ty pf ch)" and k: "as_bytes k = path @ pf @ b # r"
    and c': "set (entries c') = insert (k, v) {e \<in> E. as_bytes (fst e) \<noteq> as_bytes k}"
    and E: "\<And>c. map_of ch b = Some c \<Longrightarrow> E = set (entries c)" "map_of ch b = None \<Longrightarrow> E = {}"
  shows "set (entries (AInner a' ty' pf' (al_write b c' ch)))
    = insert (k, v) {e \<in> set (entries (AInner a ty pf ch)). as_bytes (fst e) \<noteq> as_bytes k}"
proof -
  have s: "sorted_keys ch" using w by simp
  have other: "as_bytes (fst e) \<noteq> as_bytes k" if "(c, t) \<in> set ch" "c \<noteq> b" "e \<in> set (entries t)" for c t e
    using wf_entry_path [OF wf_child [OF w that(1)] that(3)] that(2) k by auto
  have "(\<Union>(b, t)\<in>{x \<in> set ch. fst x = b}. set (entries t)) = E"
  proof (cases "map_of ch b")
    case None
    then have "{x \<in> set ch. fst x = b} = {}" by (force simp: map_of_eq_None_iff)
    then show ?thesis using E(2) None by (simp only: UN_empty)
  next
    case (Some c)
    then have "{x \<in> set ch. fst x = b} = {(b, c)}"
      using map_of_SomeD [OF Some] sorted_keys_unique [OF s] by auto
    then show ?thesis using E(1) Some by simp
  qed
  then have all: "set (entries (AInner a ty pf ch)) = E \<union> (\<Union>(c, t)\<in>{x \<in> set ch. fst x \<noteq> b}. set (entries t))"
    by (auto simp: set_entries_Inner)
  have "set (entries (AInner a' ty' pf' (al_write b c' ch)))
      = set (entries c') \<union> (\<Union>(c, t)\<in>{x \<in> set ch. fst x \<noteq> b}. set (entries t))"
    by (simp add: set_entries_Inner set_al_write [OF s])
  with all c' show ?thesis using other by fastforce
qed

lemma tree_insert_entries:
  assumes "wf_art path t" "as_bytes k = path @ rest" "tree_insert nx k v rest t = Some t'"
  shows "set (entries t') = insert (k, v) {e \<in> set (entries t). as_bytes (fst e) \<noteq> as_bytes k}"
  using assms
proof (induction t arbitrary: path rest t')
  case (ALeaf a k0 v0)
  then show ?case
    by (auto simp: Let_def set_entries_Inner set_two_children split: if_splits)
next
  case (AInner a ty pf ch)
  let ?m = "matching_len pf rest"
  show ?case
  proof (cases "?m < length pf")
    case True
    then have t': "t' = AInner (Suc nx) Node4 (take ?m pf)
               (two_children (pf ! ?m) (AInner a ty (drop (Suc ?m) pf) ch) (rest ! ?m) (ALeaf nx k v))"
      using AInner.prems(3) by (auto simp: Let_def split: if_splits)
    have "\<not> Sublist.prefix pf rest" using True matching_len_full_iff [of pf rest] by auto
    then have "tree_map (AInner a ty pf ch) (as_bytes k) = None"
      using tree_map_Inner(2) [OF AInner.prems(1), of "as_bytes k"] AInner.prems(2) by simp
    then have "as_bytes (fst e) \<noteq> as_bytes k" if "e \<in> set (entries (AInner a ty pf ch))" for e
      using that tree_map_eq [OF AInner.prems(1)] by (metis option.distinct(1))
    then show ?thesis
      by (auto simp: t' set_entries_Inner set_two_children)
  next
    case False
    then have m: "?m = length pf" using matching_len_le(1) [of pf rest] by simp
    then obtain r where r: "rest = pf @ r" by (metis matching_len_full_iff prefix_def)
    then obtain b rest' where b: "rest = pf @ b # rest'"
      using AInner.prems(3) m by (cases r) (simp_all add: Let_def)
    have k: "as_bytes k = path @ pf @ b # rest'" using AInner.prems(2) b by simp
    show ?thesis
    proof (cases "map_of ch b")
      case (Some c)
      then have c: "(b, c) \<in> set ch" by (rule map_of_SomeD)
      obtain c' where c': "tree_insert nx k v rest' c = Some c'" "t' = AInner a ty pf (al_write b c' ch)"
        using AInner.prems(3) m b Some by (auto simp: Let_def)
      have "set (entries c') = insert (k, v) {e \<in> set (entries c). as_bytes (fst e) \<noteq> as_bytes k}"
        using AInner.IH [OF c wf_child [OF AInner.prems(1) c] _ c'(1)] k by simp
      then show ?thesis
        unfolding c'(2) using Some by (intro entries_write [OF AInner.prems(1) k]) simp_all
    next
      case None
      let ?ch = "al_write b (ALeaf nx k v) ch"
      have "t' = (if upper_capacity ty \<le> length ch then AInner (Suc nx) (grown_type ty) pf ?ch
          else AInner a ty pf ?ch)"
        using AInner.prems(3) m b None by (auto simp: Let_def)
      moreover have "set (entries (AInner a' ty' pf ?ch)) = insert (k, v)
          {e \<in> set (entries (AInner a ty pf ch)). as_bytes (fst e) \<noteq> as_bytes k}" for a' ty'
        using None by (intro entries_write [OF AInner.prems(1) k, where E = "{}"]) simp_all
      ultimately show ?thesis by (simp split: if_split)
    qed
  qed
qed

lemma tree_insert_map:
  assumes "wf_art path t" "as_bytes k = path @ rest" "length (as_bytes k) < 2 ^ 32"
    "tree_insert nx k v rest t = Some t'"
  shows "tree_map t' = (tree_map t)(as_bytes k \<mapsto> (k, v))"
proof
  fix kb
  have "tree_map t' kb = Some e \<longleftrightarrow> ((tree_map t)(as_bytes k \<mapsto> (k, v))) kb = Some e" for e
    using tree_map_eq [OF tree_insert_wf [OF assms], of kb e] tree_map_eq [OF assms(1), of kb e]
      tree_insert_entries [OF assms(1,2,4)] by auto
  then show "tree_map t' kb = ((tree_map t)(as_bytes k \<mapsto> (k, v))) kb"
    by (metis option.exhaust)
qed

text \<open>An insertion fails exactly when the key and a key of the tree are prefixes of one another.\<close>

definition conflicts :: "bytes \<Rightarrow> bytes \<Rightarrow> bool" where
  "conflicts k k0 \<longleftrightarrow> k0 \<noteq> k \<and> (Sublist.prefix k k0 \<or> Sublist.prefix k0 k)"

lemma tree_insert_None:
  assumes "wf_art path t" "as_bytes k = path @ rest"
  shows "tree_insert nx k v rest t = None \<longleftrightarrow> (\<exists>e\<in>set (entries t). conflicts (as_bytes k) (as_bytes (fst e)))"
  using assms
proof (induction t arbitrary: path rest)
  case (ALeaf a k0 v0)
  obtain r0 where r0: "as_bytes k0 = path @ r0" using ALeaf.prems(1) by (auto simp: prefix_def)
  let ?m = "matching_len r0 rest"
  have "length rest \<le> ?m \<or> length r0 \<le> ?m \<longleftrightarrow> Sublist.prefix rest r0 \<or> Sublist.prefix r0 rest"
    using matching_len_full_iff [of r0 rest] matching_len_full_iff [of rest r0] matching_len_le [of r0 rest]
      matching_len_commute [of r0 rest] by auto
  then show ?case
    using r0 ALeaf.prems(2) by (auto simp: Let_def conflicts_def)
next
  case (AInner a ty pf ch)
  let ?m = "matching_len pf rest"
  have below: "Sublist.prefix (path @ pf @ [b]) (as_bytes (fst e))"
    if "(b, t) \<in> set ch" "e \<in> set (entries t)" for b t e
    by (rule wf_entry_path [OF wf_child [OF AInner.prems(1) that(1)] that(2)])
  obtain b0 t0 e0 where e0: "(b0, t0) \<in> set ch" "e0 \<in> set (entries t0)"
  proof -
    have "2 \<le> length ch" by (rule wf_inner_ge2 [OF AInner.prems(1)])
    then obtain b0 t0 ch' where ch: "ch = (b0, t0) # ch'" by (cases ch) auto
    then have "(b0, t0) \<in> set ch" by simp
    moreover from leaves_ne [OF wf_child [OF AInner.prems(1) this]] have "entries t0 \<noteq> []"
      by (simp add: entries_def)
    then obtain e0 where "e0 \<in> set (entries t0)" by (cases "entries t0") auto
    ultimately show thesis by (rule that)
  qed
  have e0_in: "e0 \<in> set (entries (AInner a ty pf ch))" using e0 by (auto simp: set_entries_Inner)
  show ?case
  proof (cases "?m < length pf")
    case True
    show ?thesis
    proof (cases "length rest \<le> ?m")
      case short: True
      then have "Sublist.prefix rest pf"
        using matching_len_full_iff [of rest pf] matching_len_le(2) [of pf rest]
        by (simp add: matching_len_commute)
      then obtain z where "pf = rest @ z" by (auto simp: prefix_def)
      then have "conflicts (as_bytes k) (as_bytes (fst e0))"
        using below [OF e0] AInner.prems(2) by (auto simp: conflicts_def prefix_def)
      then show ?thesis using short True e0_in by (auto simp: Let_def)
    next
      case long: False
      have "\<not> conflicts (as_bytes k) (as_bytes (fst e))" if e: "e \<in> set (entries (AInner a ty pf ch))" for e
      proof -
        obtain b t where "(b, t) \<in> set ch" "e \<in> set (entries t)"
          using e by (auto simp: set_entries_Inner)
        then obtain z where z: "as_bytes (fst e) = path @ pf @ z"
          using below by (fastforce simp: prefix_def)
        have "?m < length rest" using long by simp
        note s = nth_mismatch [OF True this]
        have 1: "as_bytes (fst e) = (path @ take ?m pf) @ pf ! ?m # (drop (Suc ?m) pf @ z)"
          unfolding z by (subst s(1)) simp
        have 2: "as_bytes k = (path @ take ?m pf) @ rest ! ?m # drop (Suc ?m) rest"
          unfolding AInner.prems(2) by (subst s(2)) simp
        show ?thesis
          unfolding conflicts_def 1 2 using s(3) by simp
      qed
      then show ?thesis using long True by (auto simp: Let_def)
    qed
  next
    case False
    then have m: "?m = length pf" using matching_len_le(1) [of pf rest] by simp
    then obtain r where r: "rest = pf @ r" by (metis matching_len_full_iff prefix_def)
    show ?thesis
    proof (cases r)
      case Nil
      then have "conflicts (as_bytes k) (as_bytes (fst e0))"
        using below [OF e0] AInner.prems(2) r by (auto simp: conflicts_def prefix_def)
      then show ?thesis using m r Nil e0_in by (auto simp: Let_def)
    next
      case (Cons b rest')
      then have k: "as_bytes k = path @ pf @ b # rest'" using AInner.prems(2) r by simp
      have other: "\<not> conflicts (as_bytes k) (as_bytes (fst e))"
        if "(c, t) \<in> set ch" "c \<noteq> b" "e \<in> set (entries t)" for c t e
        using below [OF that(1,3)] that(2) by (auto simp: k conflicts_def prefix_def)
      show ?thesis
      proof (cases "map_of ch b")
        case None
        then have "b \<notin> fst ` set ch" by (simp add: map_of_eq_None_iff)
        have "\<not> conflicts (as_bytes k) (as_bytes (fst e))"
          if e: "e \<in> set (entries (AInner a ty pf ch))" for e
        proof -
          obtain c t where ct: "(c, t) \<in> set ch" "e \<in> set (entries t)"
            using e by (auto simp: set_entries_Inner)
          with \<open>b \<notin> fst ` set ch\<close> have "c \<noteq> b" by force
          then show ?thesis using other ct by blast
        qed
        then show ?thesis using m r Cons None by (auto simp: Let_def)
      next
        case (Some c)
        then have c: "(b, c) \<in> set ch" by (rule map_of_SomeD)
        have uniq: "t = c" if "(b, t) \<in> set ch" for t
          using sorted_keys_unique [OF _ that c] AInner.prems(1) by simp
        have IH: "tree_insert nx k v rest' c = None
            \<longleftrightarrow> (\<exists>e\<in>set (entries c). conflicts (as_bytes k) (as_bytes (fst e)))"
          by (rule AInner.IH [OF c wf_child [OF AInner.prems(1) c]]) (simp add: k)
        have "(\<exists>e\<in>set (entries (AInner a ty pf ch)). conflicts (as_bytes k) (as_bytes (fst e)))
            \<longleftrightarrow> (\<exists>e\<in>set (entries c). conflicts (as_bytes k) (as_bytes (fst e)))"
        proof
          assume "\<exists>e\<in>set (entries (AInner a ty pf ch)). conflicts (as_bytes k) (as_bytes (fst e))"
          then obtain e c' t where e: "(c', t) \<in> set ch" "e \<in> set (entries t)"
              "conflicts (as_bytes k) (as_bytes (fst e))"
            by (auto simp: set_entries_Inner)
          then have "c' = b" using other by blast
          then have "t = c" using e(1) uniq by simp
          then show "\<exists>e\<in>set (entries c). conflicts (as_bytes k) (as_bytes (fst e))" using e by blast
        next
          assume "\<exists>e\<in>set (entries c). conflicts (as_bytes k) (as_bytes (fst e))"
          then show "\<exists>e\<in>set (entries (AInner a ty pf ch)). conflicts (as_bytes k) (as_bytes (fst e))"
            using c by (auto simp: set_entries_Inner)
        qed
        then show ?thesis using m r Cons Some IH by (simp add: Let_def)
      qed
    qed
  qed
qed


section \<open>The code implements the abstract insertion\<close>

lemma alloc_leaf_simps: "alloc_leaf hp l = (Ptr LeafKind (next_addr hp), alloc hp (LeafCell l))"
  by (simp add: alloc_leaf_def)

lemma read_inner_alloc [simp]:
  "ptr_addr p \<noteq> next_addr hp \<Longrightarrow> read_inner (alloc hp c) p = read_inner hp p"
  "ptr_addr p \<noteq> next_addr hp \<Longrightarrow> read_leaf (alloc hp c) p = read_leaf hp p"
  by (simp_all add: read_inner_def read_leaf_def)

text \<open>Two nodes below a new \<open>Node4\<close>: the node that was there and a new leaf.\<close>

lemma holds_leaf_alloc:
  "holds N (alloc hp (LeafCell \<lparr>leaf_key = k, leaf_value = v\<rparr>)) (ALeaf (next_addr hp) k v)"
  by (simp add: holds_def)

lemma becomes_split:
  assumes t: "holds N hp t" and t1: "addrs t1 = addrs t"
    and r1: "represents N hp1 t1"
    and hp1: "\<And>x. x \<notin> set (addrs t) \<Longrightarrow> x \<noteq> next_addr hp \<Longrightarrow> cells hp1 x = cells hp x"
      "cells hp1 (next_addr hp) = Some (LeafCell \<lparr>leaf_key = k, leaf_value = v\<rparr>)"
      "next_addr hp1 = Suc (next_addr hp)"
    and n4: "node_ok N (Inner4 n) Node4 pf (two_children b (root_ptr t1) c (Ptr LeafKind (next_addr hp)))"
  shows "becomes N hp t (alloc hp1 (InnerCell (Inner4 n)))
    (AInner (Suc (next_addr hp)) Node4 pf (two_children b t1 c (ALeaf (next_addr hp) k v)))"
proof -
  let ?nx = "next_addr hp" and ?leaf = "ALeaf (next_addr hp) k v"
  let ?t' = "AInner (Suc ?nx) Node4 pf (two_children b t1 c ?leaf)"
  define hp2 where "hp2 = alloc hp1 (InnerCell (Inner4 n))"
  have lt: "\<forall>x\<in>set (addrs t). x < ?nx" and dist: "distinct (addrs t)"
    using t by (auto simp: holds_def)
  have cells2: "cells hp2 = (cells hp1)(Suc ?nx \<mapsto> InnerCell (Inner4 n))"
    by (simp add: hp2_def hp1(3))
  have A: "set (addrs ?t') = insert (Suc ?nx) (insert ?nx (set (addrs t)))"
    by (auto simp: two_children_def t1)
  have "represents N hp2 t1"
    using lt t1 by (intro represents_frame [OF r1]) (auto simp: cells2)
  moreover have "represents N hp2 ?leaf"
    using hp1(2) by (simp add: cells2)
  ultimately have "represents N hp2 ?t'"
    using n4 by (auto simp: child_ptrs_two set_two_children cells2)
  moreover have "distinct (addrs ?t')"
    using lt dist by (auto simp: two_children_def t1)
  moreover have "\<forall>x\<in>set (addrs ?t'). x < next_addr hp2"
    using lt unfolding A by (auto simp: hp2_def hp1(3))
  ultimately have "holds N hp2 ?t'" by (simp add: holds_def)
  then show ?thesis
    unfolding becomes_def A using hp1(1) by (auto simp: hp2_def hp1(3))
qed

lemma from_prefix_ok:
  assumes "take N pfx = take N pf" "length pf < 2 ^ 32" "b \<noteq> c"
  shows "\<exists>n. write_two_ordered (from_prefix N pfx (length pf)) b p c q = Ret n \<and>
    node_ok N (Inner4 n) Node4 pf (two_children b p c q)"
proof -
  let ?h = "header_new N pfx (length pf)"
  have h: "header_repr ?h pf" "length (h_prefix ?h) = N" "num_children ?h = 0"
    using header_new_repr [OF assms(1,2)] by auto
  have n: "compressed_inv 4 (from_prefix N pfx (length pf) :: node_ptr inner_compressed)"
    "c_children (from_prefix N pfx (length pf) :: node_ptr inner_compressed) = []"
    "c_header (from_prefix N pfx (length pf) :: node_ptr inner_compressed) = ?h"
    unfolding from_prefix_def using compressed_from_header_inv [OF h(3)] by blast+
  obtain n' where "write_two_ordered (from_prefix N pfx (length pf)) b p c q = Ret n'"
    "compressed_inv 4 n'" "c_children n' = two_children b p c q" "same_path ?h (c_header n')"
    using write_two_ordered_spec [OF n(1,2) assms(3), of p q] n(3) by auto
  then show ?thesis
    using h header_repr_same_path by (auto simp: node_ok_def)
qed

text \<open>The arm \<open>SplitLeaf\<close>.\<close>

lemma split_leaf_spec:
  assumes t: "holds N hp (ALeaf a k0 v0)"
    and k: "as_bytes k = path @ rest" "length (as_bytes k) < 2 ^ 32"
    and k0: "as_bytes k0 = path @ r0"
  defines "m \<equiv> matching_len r0 rest"
  assumes m: "m < length rest" "m < length r0"
  shows "\<exists>hp'. split_leaf N hp (Ptr LeafKind a) (length path + m) (length path) k v
      = Ret (Ptr Node4 (Suc (next_addr hp)), Ptr LeafKind (next_addr hp), hp') \<and>
    becomes N hp (ALeaf a k0 v0) hp' (AInner (Suc (next_addr hp)) Node4 (take m rest)
      (two_children (r0 ! m) (ALeaf a k0 v0) (rest ! m) (ALeaf (next_addr hp) k v)))"
proof -
  let ?leaf = "\<lparr>leaf_key = k, leaf_value = v\<rparr>"
  let ?hp1 = "alloc hp (LeafCell ?leaf)"
  have r: "read_leaf hp (Ptr LeafKind a) = Ret \<lparr>leaf_key = k0, leaf_value = v0\<rparr>"
    using t by (simp add: holds_def read_leaf_def)
  have ne: "r0 ! m \<noteq> rest ! m" using nth_matching_len m by (simp add: m_def)
  have len: "length (take m rest) = m" "length (take m rest) < 2 ^ 32" using m(1) k by simp_all
  have nonempty: "r0 \<noteq> []" "rest \<noteq> []" using m by auto
  obtain n where n: "write_two_ordered (from_prefix N (take m rest) m) (r0 ! m) (Ptr LeafKind a)
        (rest ! m) (Ptr LeafKind (next_addr hp)) = Ret n"
    "node_ok N (Inner4 n) Node4 (take m rest)
      (two_children (r0 ! m) (Ptr LeafKind a) (rest ! m) (Ptr LeafKind (next_addr hp)))"
    using from_prefix_ok [OF refl len(2) ne, of N] len(1) by auto
  have "split_leaf N hp (Ptr LeafKind a) (length path + m) (length path) k v
      = Ret (Ptr Node4 (Suc (next_addr hp)), Ptr LeafKind (next_addr hp), alloc ?hp1 (InnerCell (Inner4 n)))"
    using m n(1) nonempty by (simp add: split_leaf_def r k k0 slice_range_def alloc_leaf_def alloc_inner_def
        nth_append Let_def)
  moreover have "becomes N hp (ALeaf a k0 v0) (alloc ?hp1 (InnerCell (Inner4 n)))
      (AInner (Suc (next_addr hp)) Node4 (take m rest)
      (two_children (r0 ! m) (ALeaf a k0 v0) (rest ! m) (ALeaf (next_addr hp) k v)))"
  proof (rule becomes_split [OF t refl])
    show "represents N ?hp1 (ALeaf a k0 v0)"
      using t by (auto simp: holds_def)
  qed (use n(2) in simp_all)
  ultimately show ?thesis by blast
qed

text \<open>The arm \<open>MismatchPrefix\<close>.\<close>

lemma split_prefix_spec:
  assumes t: "holds N hp (AInner a ty pf ch)" and w: "wf_art path (AInner a ty pf ch)"
    and k: "as_bytes k = path @ rest" "length (as_bytes k) < 2 ^ 32"
  defines "m \<equiv> matching_len pf rest"
  assumes m: "m < length pf" "m < length rest"
    and lp: "case lp of None \<Rightarrow> length pf \<le> N
      | Some p \<Rightarrow> ptr_addr p < next_addr hp \<and> (\<exists>l. read_leaf hp p = Ret l \<and> Sublist.prefix (path @ pf) (as_bytes (leaf_key l)))"
  shows "\<exists>hp'. split_prefix N hp \<lparr>matched_bytes = m, prefix_byte = pf ! m, mismatch_leaf_ptr = lp\<rparr>
        (Ptr ty a) (length path) k v
      = Ret (Ptr Node4 (Suc (next_addr hp)), Ptr LeafKind (next_addr hp), hp') \<and>
    becomes N hp (AInner a ty pf ch) hp' (AInner (Suc (next_addr hp)) Node4 (take m pf)
      (two_children (pf ! m) (AInner a ty (drop (Suc m) pf) ch) (rest ! m) (ALeaf (next_addr hp) k v)))"
proof -
  let ?nx = "next_addr hp"
  let ?leaf = "\<lparr>leaf_key = k, leaf_value = v\<rparr>"
  define hp1 where "hp1 = alloc hp (LeafCell ?leaf)"
  obtain n where n: "read_inner hp (Ptr ty a) = Ret n" "node_ok N n ty pf (child_ptrs ch)"
    "cells hp a = Some (InnerCell n)" "ty \<noteq> LeafKind"
    using read_inner_Ret [of N hp a ty pf ch] t by (auto simp: holds_def)
  have a: "a < ?nx" using t by (simp add: holds_def)
  have lt: "\<forall>x\<in>set (addrs (AInner a ty pf ch)). x < ?nx" using t unfolding holds_def by blast
  define h where "h = inner_header n"
  have h: "header_repr h pf" "length (h_prefix h) = N"
    using node_okD(3,4) [OF n(2)] by (simp_all add: h_def)
  have ne: "pf ! m \<noteq> rest ! m" using nth_matching_len m by (simp add: m_def)
  have pfx: "take N (take (min (length (read_prefix h)) m) (read_prefix h)) = take N (take m pf)"
    using read_prefix_repr [OF h(1)] h(2) by (auto simp: min_def)
  have len: "length (take m pf) = m" "length (take m pf) < 2 ^ 32" using m(1) header_repr_bound [OF h(1)] by simp_all
  obtain n4 where n4: "write_two_ordered (from_prefix N (take (min (length (read_prefix h)) m) (read_prefix h)) m)
        (pf ! m) (Ptr ty a) (rest ! m) (Ptr LeafKind ?nx) = Ret n4"
    "node_ok N (Inner4 n4) Node4 (take m pf) (two_children (pf ! m) (Ptr ty a) (rest ! m) (Ptr LeafKind ?nx))"
    using from_prefix_ok [OF pfx len(2) ne] len(1) by metis
  have "\<exists>h'. (case lp of
           Some leaf_ptr \<Rightarrow> and_then (read_leaf hp1 leaf_ptr) (\<lambda>l.
             ltrim_by_with_leaf h (Suc m) (length path) (as_bytes (leaf_key l)))
         | None \<Rightarrow> ltrim_by h (Suc m)) = Ret h'
      \<and> header_repr h' (drop (Suc m) pf) \<and> h_num_children h' = h_num_children h
      \<and> length (h_prefix h') = length (h_prefix h)"
  proof (cases lp)
    case None
    then show ?thesis using ltrim_by_repr [OF h(1), of "Suc m"] m(1) h(2) lp by simp
  next
    case (Some p)
    then obtain l where l: "ptr_addr p < next_addr hp" "read_leaf hp p = Ret l"
        "Sublist.prefix (path @ pf) (as_bytes (leaf_key l))"
      using lp by auto
    then obtain z where z: "as_bytes (leaf_key l) = path @ pf @ z" by (auto simp: prefix_def)
    have "ptr_addr p < next_addr hp"
      using lp Some by simp
    then have "read_leaf hp1 p = Ret l"
      using l(2) by (simp add: hp1_def)
    then show ?thesis
      using ltrim_by_with_leaf_repr [OF h(1), of "Suc m" "length path" "as_bytes (leaf_key l)"] m(1) z Some
      by simp
  qed
  then obtain h' where h': "(case lp of
           Some leaf_ptr \<Rightarrow> and_then (read_leaf hp1 leaf_ptr) (\<lambda>l.
             ltrim_by_with_leaf h (Suc m) (length path) (as_bytes (leaf_key l)))
         | None \<Rightarrow> ltrim_by h (Suc m)) = Ret h'"
      "header_repr h' (drop (Suc m) pf)" "h_num_children h' = h_num_children h"
      "length (h_prefix h') = N"
    using h(2) by auto
  define hp2 where "hp2 = hp1\<lparr>cells := (cells hp1)(a \<mapsto> InnerCell (set_header h' n))\<rparr>"
  have r1: "read_inner hp1 (Ptr ty a) = Ret n"
    using n(1) a by (simp add: hp1_def)
  have "split_prefix N hp \<lparr>matched_bytes = m, prefix_byte = pf ! m, mismatch_leaf_ptr = lp\<rparr>
        (Ptr ty a) (length path) k v
      = Ret (Ptr Node4 (Suc ?nx), Ptr LeafKind ?nx, alloc hp2 (InnerCell (Inner4 n4)))"
    unfolding split_prefix_def
    using m(2) n4(1) h'(1) r1
    by (simp add: k n(1) alloc_leaf_def alloc_inner_def slice_range_def nth_append write_inner_def
        hp2_def flip: hp1_def h_def) (simp add: hp1_def)
  moreover have "becomes N hp (AInner a ty pf ch) (alloc hp2 (InnerCell (Inner4 n4)))
      (AInner (Suc ?nx) Node4 (take m pf)
      (two_children (pf ! m) (AInner a ty (drop (Suc m) pf) ch) (rest ! m) (ALeaf ?nx k v)))"
  proof (rule becomes_split [OF t])
    show "represents N hp2 (AInner a ty (drop (Suc m) pf) ch)"
    proof -
      have "node_ok N (set_header h' n) ty (drop (Suc m) pf) (child_ptrs ch)"
        using n(2) h'(2-4) set_header_inv [of h' n] by (simp add: node_ok_def h_def)
      moreover have "represents N hp2 t" if "(b, t) \<in> set ch" for b t
      proof (rule represents_frame [of N hp])
        show "represents N hp t" using holds_child [OF t that] by (simp add: holds_def)
        show "cells hp2 x = cells hp x" if x: "x \<in> set (addrs t)" for x
        proof -
          have "x \<noteq> a" using holds_root [OF t \<open>(b, t) \<in> set ch\<close>] x by auto
          moreover have "x < ?nx" using holds_child [OF t \<open>(b, t) \<in> set ch\<close>] x by (auto simp: holds_def)
          ultimately show ?thesis by (simp add: hp2_def hp1_def)
        qed
      qed
      ultimately show ?thesis by (auto simp: hp2_def)
    qed
  qed (use n4(2) a in \<open>auto simp: hp2_def hp1_def\<close>)
  ultimately show ?thesis by blast
qed


text \<open>The arm \<open>IntoExisting\<close>: in place, or into a copy of the next larger kind.\<close>

lemma set_addrs_new_child:
  assumes "sorted_keys ch" "b \<notin> fst ` set ch"
  shows "set (addrs (AInner a ty pf (al_write b (ALeaf nx k v) ch)))
      = insert a (insert nx (\<Union>(b, t)\<in>set ch. set (addrs t)))"
    and "distinct (addrs (AInner a ty pf (al_write b (ALeaf nx k v) ch)))
      \<longleftrightarrow> distinct (a # nx # concat (map (\<lambda>(b, t). addrs t) ch))"
proof -
  obtain xs ys where "ch = xs @ ys" "al_write b (ALeaf nx k v) ch = xs @ (b, ALeaf nx k v) # ys"
    using al_split_new [OF assms] by metis
  then show "set (addrs (AInner a ty pf (al_write b (ALeaf nx k v) ch)))
      = insert a (insert nx (\<Union>(b, t)\<in>set ch. set (addrs t)))"
    "distinct (addrs (AInner a ty pf (al_write b (ALeaf nx k v) ch)))
      \<longleftrightarrow> distinct (a # nx # concat (map (\<lambda>(b, t). addrs t) ch))"
    by auto
qed

lemma becomes_new_child:
  assumes t: "holds N hp (AInner a ty pf ch)" and s: "sorted_keys ch" and b: "b \<notin> fst ` set ch"
    and n': "node_ok N n' ty' pf (child_ptrs (al_write b (ALeaf (next_addr hp) k v) ch))"
    and a': "a' = a \<and> next_addr hp' = Suc (next_addr hp) \<or>
      a' = Suc (next_addr hp) \<and> next_addr hp' = Suc (Suc (next_addr hp)) \<and> cells hp' a = None"
    and hp': "\<And>x. x \<noteq> a \<Longrightarrow> x \<noteq> a' \<Longrightarrow> x \<noteq> next_addr hp \<Longrightarrow> cells hp' x = cells hp x"
      "cells hp' (next_addr hp) = Some (LeafCell \<lparr>leaf_key = k, leaf_value = v\<rparr>)"
      "cells hp' a' = Some (InnerCell n')"
  shows "becomes N hp (AInner a ty pf ch) hp' (AInner a' ty' pf (al_write b (ALeaf (next_addr hp) k v) ch))"
proof -
  let ?nx = "next_addr hp" and ?t' = "AInner a' ty' pf (al_write b (ALeaf (next_addr hp) k v) ch)"
  let ?B = "\<Union>(b, t)\<in>set ch. set (addrs t)"
  have A: "set (addrs (AInner a ty pf ch)) = insert a ?B" "set (addrs ?t') = insert a' (insert ?nx ?B)"
    using set_addrs_new_child(1) [OF s b] by auto
  have lt: "\<And>x. x \<in> insert a ?B \<Longrightarrow> x < ?nx" and dist: "distinct (a # concat (map (\<lambda>(b, t). addrs t) ch))"
    using t unfolding holds_def A by auto
  have aB: "a \<notin> ?B" using dist by auto
  have rep: "represents N hp' t" if "(c, t) \<in> set ch" for c t
  proof (rule represents_frame [of N hp])
    show "represents N hp t" using holds_child [OF t that] by (simp add: holds_def)
    show "cells hp' x = cells hp x" if "x \<in> set (addrs t)" for x
    proof (rule hp'(1))
      have "x \<in> ?B" using that \<open>(c, t) \<in> set ch\<close> by blast
      then show "x \<noteq> a" "x \<noteq> a'" "x \<noteq> ?nx" using aB a' lt [of x] by auto
    qed
  qed
  have "represents N hp' ?t'"
    using n' hp'(2,3) rep by (auto simp: set_al_write [OF s])
  moreover have "distinct (addrs ?t')"
    unfolding set_addrs_new_child(2) [OF s b] using dist lt a' by fastforce
  moreover have "x < next_addr hp'" if "x \<in> insert a' (insert ?nx ?B)" for x
  proof -
    have "x < ?nx \<or> x = a' \<or> x = ?nx" using that lt [of x] by blast
    moreover have "a < ?nx" using lt by blast
    ultimately show ?thesis using a' by auto
  qed
  ultimately have "holds N hp' ?t'" unfolding holds_def A(2) by blast
  moreover have "cells hp' x = cells hp x" if "x \<notin> insert a ?B" "x \<notin> insert a' (insert ?nx ?B)" for x
    using hp'(1) that by blast
  moreover have "cells hp' x = None" if "x \<in> insert a ?B" "x \<notin> insert a' (insert ?nx ?B)" for x
    using a' that by blast
  moreover have "x \<in> insert a ?B \<or> ?nx \<le> x" if "x \<in> insert a' (insert ?nx ?B)" for x
    using a' that by auto
  moreover have "?nx \<le> next_addr hp'" using a' by auto
  ultimately show ?thesis by (intro becomesI [OF _ _ A])
qed

lemma write_new_child_spec:
  fixes v :: 'v
  assumes t: "holds N hp (AInner a ty pf ch)" and w: "wf_art path (AInner a ty pf ch)"
    and k: "as_bytes k = path @ pf @ b # rest'" and b: "map_of ch b = None"
  defines "t' \<equiv> if upper_capacity ty \<le> length ch
      then AInner (Suc (next_addr hp)) (grown_type ty) pf (al_write b (ALeaf (next_addr hp) k v) ch)
      else AInner a ty pf (al_write b (ALeaf (next_addr hp) k v) ch)"
  shows "\<exists>hp'. write_new_child_in_existing_node hp (Ptr ty a) \<lparr>leaf_key = k, leaf_value = v\<rparr> (length path + length pf)
      = Ret (root_ptr t', Ptr LeafKind (next_addr hp), hp') \<and> becomes N hp (AInner a ty pf ch) hp' t'"
proof -
  let ?nx = "next_addr hp"
  define hp1 where "hp1 = alloc hp (LeafCell \<lparr>leaf_key = k, leaf_value = v\<rparr>)"
  have s: "sorted_keys ch" and ty: "ty \<noteq> LeafKind" "in_range ty (length ch)" using w by simp_all
  have new: "b \<notin> fst ` set ch" using b by (simp add: map_of_eq_None_iff)
  obtain n where n: "read_inner hp (Ptr ty a) = Ret n" "node_ok N n ty pf (child_ptrs ch)"
    "cells hp a = Some (InnerCell n)"
    using read_inner_Ret t unfolding holds_def by metis
  note nD = node_okD [OF n(2)]
  have a: "a < ?nx" using t by (simp add: holds_def)
  have idx: "index_at (as_bytes k) (length path + length pf) = Ret b"
    using nth_append_length [of "path @ pf" b rest'] by (simp add: index_at_def k)
  have full: "is_full n \<longleftrightarrow> upper_capacity ty \<le> length ch"
    using is_full_iff [OF nD(2)] nD by simp
  have ok: "node_ok N n' ty' pf (child_ptrs (al_write b (ALeaf ?nx k v) ch))"
    if "inner_inv n'" "inner_type n' = ty'" "inner_children n' = al_write b (Ptr LeafKind ?nx) (child_ptrs ch)"
      "same_path (inner_header n) (inner_header n')" for n' ty'
    using that nD header_repr_same_path by (simp add: node_ok_def child_ptrs_write)
  show ?thesis
  proof (cases "upper_capacity ty \<le> length ch")
    case True
    have "ty \<noteq> Node256"
      using full_256_has_all [OF s, of b] new ty(2) True by (auto simp: in_range_def)
    then obtain g where g: "inner_grow n = Ret g" "inner_inv g" "inner_type g = grown_type ty"
      "inner_children g = inner_children n" "inner_header g = inner_header n"
      "length (inner_children g) < inner_capacity g"
      using inner_grow_spec [OF nD(2)] full True nD by auto
    obtain n' where n': "inner_write_child g b (Ptr LeafKind ?nx) = Ret n'" "inner_inv n'"
      "inner_type n' = inner_type g" "inner_children n' = al_write b (Ptr LeafKind ?nx) (inner_children g)"
      "same_path (inner_header g) (inner_header n')"
      using inner_write_spec [OF g(2)] g(6) by blast
    define hp' where "hp' = dealloc (alloc hp1 (InnerCell n')) a"
    have "write_new_child_in_existing_node hp (Ptr ty a) \<lparr>leaf_key = k, leaf_value = v\<rparr> (length path + length pf)
      = Ret (Ptr (grown_type ty) (Suc ?nx), Ptr LeafKind ?nx, hp')"
      using ty n(1) idx full True g(1,3) n'(1,3) a
      by (simp add: write_new_child_in_existing_node_def alloc_leaf_def alloc_inner_def dealloc_inner_def
          hp'_def flip: hp1_def) (simp add: hp1_def)
    moreover have "becomes N hp (AInner a ty pf ch) hp'
        (AInner (Suc ?nx) (grown_type ty) pf (al_write b (ALeaf ?nx k v) ch))"
      using a n' g nD by (intro becomes_new_child [OF t s new ok]) (auto simp: hp'_def hp1_def)
    ultimately show ?thesis using True by (auto simp: t'_def)
  next
    case False
    obtain n' where n': "inner_write_child n b (Ptr LeafKind ?nx) = Ret n'" "inner_inv n'"
      "inner_type n' = inner_type n" "inner_children n' = al_write b (Ptr LeafKind ?nx) (inner_children n)"
      "same_path (inner_header n) (inner_header n')"
      using inner_write_spec [OF nD(2)] nD(1,5) False by (metis length_child_ptrs not_le)
    define hp' where "hp' = hp1\<lparr>cells := (cells hp1)(a \<mapsto> InnerCell n')\<rparr>"
    have "write_new_child_in_existing_node hp (Ptr ty a) \<lparr>leaf_key = k, leaf_value = v\<rparr> (length path + length pf)
      = Ret (Ptr ty a, Ptr LeafKind ?nx, hp')"
      using ty n(1) idx full False n'(1) a
      by (simp add: write_new_child_in_existing_node_def alloc_leaf_def write_inner_def hp'_def
          flip: hp1_def) (simp add: hp1_def)
    moreover have "becomes N hp (AInner a ty pf ch) hp' (AInner a ty pf (al_write b (ALeaf ?nx k v) ch))"
      using a n' nD by (intro becomes_new_child [OF t s new ok]) (auto simp: hp'_def hp1_def)
    ultimately show ?thesis using False by (auto simp: t'_def)
  qed
qed

text \<open>The search, by the three ways a node can meet the key.\<close>

lemma test_prefix_spec:
  assumes t: "holds N hp (AInner a ty pf ch)" and w: "wf_art path (AInner a ty pf ch)"
    and fuel: "height (AInner a ty pf ch) \<le> fuel" and key: "key = path @ rest"
  defines "m \<equiv> matching_len pf rest"
  shows "\<not> Sublist.prefix pf rest \<Longrightarrow> m < length pf \<and> (\<exists>lp. test_prefix_identify_insert fuel hp (Ptr ty a) key (length path)
      = Ret (Inr (Break \<lparr>matched_bytes = m, prefix_byte = pf ! m, mismatch_leaf_ptr = lp\<rparr>, length path)) \<and>
      (case lp of None \<Rightarrow> length pf \<le> N
       | Some p \<Rightarrow> ptr_addr p < next_addr hp \<and> (\<exists>l. read_leaf hp p = Ret l \<and> Sublist.prefix (path @ pf) (as_bytes (leaf_key l)))))"
    and "rest = pf \<Longrightarrow> test_prefix_identify_insert fuel hp (Ptr ty a) key (length path)
      = Ret (Inl (InsertPrefixError key))"
    and "rest = pf @ b # r \<Longrightarrow> test_prefix_identify_insert fuel hp (Ptr ty a) key (length path)
      = Ret (Inr (Continue (map_option root_ptr (map_of ch b)), length path + length pf))"
proof -
  have rep: "represents N hp (AInner a ty pf ch)" using t by (simp add: holds_def)
  obtain n where n: "read_inner hp (Ptr ty a) = Ret n" "node_ok N n ty pf (child_ptrs ch)"
    using read_inner_Ret [OF rep] by metis
  note mp = match_prefix_spec [OF rep w fuel n(1) key]
  show "m < length pf \<and> (\<exists>lp. test_prefix_identify_insert fuel hp (Ptr ty a) key (length path)
      = Ret (Inr (Break \<lparr>matched_bytes = m, prefix_byte = pf ! m, mismatch_leaf_ptr = lp\<rparr>, length path)) \<and>
      (case lp of None \<Rightarrow> length pf \<le> N
       | Some p \<Rightarrow> ptr_addr p < next_addr hp \<and> (\<exists>l. read_leaf hp p = Ret l \<and> Sublist.prefix (path @ pf) (as_bytes (leaf_key l)))))"
    if np: "\<not> Sublist.prefix pf rest"
  proof -
    obtain lp where lp: "m < length pf" "match_prefix fuel hp n key (length path)
          = Ret (Mismatch \<lparr>matched_bytes = m, prefix_byte = pf ! m, mismatch_leaf_ptr = lp\<rparr>)"
      "case lp of None \<Rightarrow> length pf \<le> N
       | Some p \<Rightarrow> ptr_addr p \<in> set (addrs (AInner a ty pf ch)) \<and> (\<exists>l. read_leaf hp p = Ret l \<and> Sublist.prefix (path @ pf) (as_bytes (leaf_key l)))"
      using mp [unfolded if_not_P [OF np], folded m_def] by blast
    have "\<forall>x\<in>set (addrs (AInner a ty pf ch)). x < next_addr hp" using t unfolding holds_def by blast
    then have "case lp of None \<Rightarrow> length pf \<le> N
       | Some p \<Rightarrow> ptr_addr p < next_addr hp \<and> (\<exists>l. read_leaf hp p = Ret l \<and> Sublist.prefix (path @ pf) (as_bytes (leaf_key l)))"
      using lp(3) by (auto split: option.splits)
    with lp(1,2) n(1) show ?thesis
      by (intro conjI exI [of _ lp]) (simp_all add: test_prefix_identify_insert_def)
  qed
  show "test_prefix_identify_insert fuel hp (Ptr ty a) key (length path) = Ret (Inl (InsertPrefixError key))"
    if "rest = pf"
    using mp that n(1) by (simp add: test_prefix_identify_insert_def key)
  show "test_prefix_identify_insert fuel hp (Ptr ty a) key (length path)
      = Ret (Inr (Continue (map_option root_ptr (map_of ch b)), length path + length pf))"
    if r: "rest = pf @ b # r"
  proof -
    have "index_at key (length path + length pf) = Ret b" "length path + length pf < length key"
      using nth_append_length [of "path @ pf" b r] by (simp_all add: index_at_def key r)
    moreover have "match_prefix fuel hp n key (length path) = Ret (Match (length pf))"
      using mp r by simp
    ultimately show ?thesis
      by (simp add: test_prefix_identify_insert_def n(1) node_okD(6) [OF n(2)])
  qed
qed


section \<open>Search and application together\<close>

definition inserted_leaf :: "node_ptr \<Rightarrow> 'k key \<Rightarrow> 'v \<Rightarrow> ('k, 'v) art \<Rightarrow> bool" where
  "inserted_leaf lp k v t \<longleftrightarrow> ptr_type lp = LeafKind \<and> (ptr_addr lp, k, v) \<in> set (leaves t)"

text \<open>
  The point is at the root of \<open>t\<close>: the new node is still to be written to the parent of \<open>t\<close>.
\<close>

definition point_at_root ::
    "nat \<Rightarrow> ('k, 'v) heap \<Rightarrow> 'k key \<Rightarrow> 'v \<Rightarrow> (node_ptr \<times> byte) option \<Rightarrow> insert_point \<Rightarrow>
      ('k, 'v) art \<Rightarrow> ('k, 'v) art \<Rightarrow> bool" where
  "point_at_root N hp k v parent ip t t' \<longleftrightarrow>
     ip_parent_ptr_and_child_key_byte ip = parent \<and> (\<forall>p. insert_type ip \<noteq> Exact p) \<and>
     tree_map t (as_bytes k) = None \<and>
     (\<exists>hp' lp. insert_local N hp ip k v = Ret (root_ptr t', lp, hp') \<and> becomes N hp t hp' t'
       \<and> inserted_leaf lp k v t')"

text \<open>The point is inside \<open>t\<close>: applying it leaves the root of \<open>t\<close> where it is.\<close>

definition point_inside ::
    "nat \<Rightarrow> ('k, 'v) heap \<Rightarrow> 'k key \<Rightarrow> 'v \<Rightarrow> insert_point \<Rightarrow> ('k, 'v) art \<Rightarrow> ('k, 'v) art \<Rightarrow> bool" where
  "point_inside N hp k v ip t t' \<longleftrightarrow> root_ptr t' = root_ptr t \<and>
     (\<exists>hp' lp. insert_apply N hp ip k v =
         Ret (\<lparr>ir_leaf_node_ptr = lp,
               existing_leaf = map_option (\<lambda>(k0, v0). \<lparr>leaf_key = k0, leaf_value = v0\<rparr>) (tree_map t (as_bytes k)),
               ir_new_root = ip_root ip\<rparr>, hp')
       \<and> becomes N hp t hp' t' \<and> inserted_leaf lp k v t')"

lemma insert_apply_local:
  assumes "\<forall>p. insert_type ip \<noteq> Exact p" "insert_local N hp ip k v = Ret (np, lp, hp')"
  shows "insert_apply N hp ip k v =
    (case ip_parent_ptr_and_child_key_byte ip of
       Some (pp, b) \<Rightarrow> and_then (parent_write_child hp' pp b np) (\<lambda>hp'.
         Ret (\<lparr>ir_leaf_node_ptr = lp, existing_leaf = None, ir_new_root = ip_root ip\<rparr>, hp'))
     | None \<Rightarrow> Ret (\<lparr>ir_leaf_node_ptr = lp, existing_leaf = None, ir_new_root = np\<rparr>, hp'))"
  using assms by (cases "insert_type ip") (simp_all add: insert_apply_def)

lemma parent_write_spec:
  assumes t: "holds N hp (AInner a ty pf ch)" and s: "sorted_keys ch" and c: "(b, c) \<in> set ch"
    and b: "becomes N hp c hp1 c'"
  shows "\<exists>hp2. parent_write_child hp1 (Ptr ty a) b (root_ptr c') = Ret hp2
    \<and> becomes N hp (AInner a ty pf ch) hp2 (AInner a ty pf (al_write b c' ch))"
proof -
  obtain n where n: "cells hp a = Some (InnerCell n)" "node_ok N n ty pf (child_ptrs ch)"
    using t by (auto simp: holds_def)
  note nD = node_okD [OF n(2)]
  have "cells hp1 a = Some (InnerCell n)"
    using becomes_frame(1) [OF b, of a] holds_root [OF t c] n(1) t by (auto simp: holds_def)
  then have r: "read_inner hp1 (Ptr ty a) = Ret n"
    using nD(1) by (simp add: read_inner_def)
  have "b \<in> fst ` set (inner_children n)" using c nD(5) by (force simp: rev_image_eqI)
  then obtain n' where n': "inner_write_child n b (root_ptr c') = Ret n'" "inner_inv n'"
    "inner_type n' = inner_type n" "inner_children n' = al_write b (root_ptr c') (inner_children n)"
    "same_path (inner_header n) (inner_header n')"
    using inner_write_spec [OF nD(2)] by blast
  have "node_ok N n' ty pf (child_ptrs (al_write b c' ch))"
    using n' nD header_repr_same_path by (simp add: node_ok_def child_ptrs_write)
  moreover have "ty \<noteq> LeafKind" using n(2) node_ok_Leaf by auto
  ultimately show ?thesis
    using becomes_child [OF t s c b] r n'(1)
    by (simp add: parent_write_child_def write_inner_def)
qed

lemma inserted_leaf_child:
  assumes "inserted_leaf lp k v c'" "sorted_keys ch"
  shows "inserted_leaf lp k v (AInner a ty pf (al_write b c' ch))"
  using assms by (auto simp: inserted_leaf_def set_al_write)

lemma search_insert_spec:
  assumes "holds N hp t" "wf_art path t" "as_bytes k = path @ rest" "length (as_bytes k) < 2 ^ 32"
    and "height t < fuel"
  shows "case tree_insert (next_addr hp) k v rest t of
      None \<Rightarrow> search_insert_from fuel hp root (as_bytes k) gp par (root_ptr t) (length path)
        = Ret (Inl (InsertPrefixError (as_bytes k)))
    | Some t' \<Rightarrow> \<exists>ip. search_insert_from fuel hp root (as_bytes k) gp par (root_ptr t) (length path) = Ret (Inr ip)
        \<and> ip_root ip = root \<and> (point_at_root N hp k v par ip t t' \<or> point_inside N hp k v ip t t')"
  using assms
proof (induction t arbitrary: path rest fuel gp par)
  case (ALeaf a k0 v0)
  obtain f where f: "fuel = Suc f" using ALeaf.prems(5) by (cases fuel) auto
  obtain r0 where r0: "as_bytes k0 = path @ r0" using ALeaf.prems(2) by (auto simp: prefix_def)
  have read: "read_leaf hp (Ptr LeafKind a) = Ret \<lparr>leaf_key = k0, leaf_value = v0\<rparr>"
    using ALeaf.prems(1) by (simp add: holds_def read_leaf_def)
  let ?m = "matching_len r0 rest"
  consider (exact) "as_bytes k0 = as_bytes k" | (clash) "as_bytes k0 \<noteq> as_bytes k" "length rest \<le> ?m \<or> length r0 \<le> ?m"
    | (split) "as_bytes k0 \<noteq> as_bytes k" "?m < length rest" "?m < length r0" by fastforce
  then show ?case
  proof cases
    case exact
    let ?ip = "\<lparr>ip_grandparent_ptr_and_parent_key_byte = gp, ip_parent_ptr_and_child_key_byte = par,
        insert_type = Exact (Ptr LeafKind a), key_bytes_used = length path, ip_root = root\<rparr>"
    let ?hp = "hp\<lparr>cells := (cells hp)(a \<mapsto> LeafCell \<lparr>leaf_key = k, leaf_value = v\<rparr>)\<rparr>"
    have "insert_apply N hp ?ip k v = Ret (\<lparr>ir_leaf_node_ptr = Ptr LeafKind a,
        existing_leaf = Some \<lparr>leaf_key = k0, leaf_value = v0\<rparr>, ir_new_root = root\<rparr>, ?hp)"
      by (simp add: insert_apply_def read write_leaf_def)
    moreover have "becomes N hp (ALeaf a k0 v0) ?hp (ALeaf a k v)"
      using ALeaf.prems(1) by (simp add: becomes_def holds_def)
    ultimately have "point_inside N hp k v ?ip (ALeaf a k0 v0) (ALeaf a k v)"
      using exact by (simp add: point_inside_def tree_map_Leaf inserted_leaf_def)
    then show ?thesis using exact read by (simp add: f)
  next
    case clash
    then show ?thesis
      using read by (simp add: f ALeaf.prems(3) r0 Let_def) 
  next
    case split
    let ?ip = "\<lparr>ip_grandparent_ptr_and_parent_key_byte = gp, ip_parent_ptr_and_child_key_byte = par,
        insert_type = SplitLeaf (Ptr LeafKind a) (length path + ?m), key_bytes_used = length path, ip_root = root\<rparr>"
    let ?t' = "AInner (Suc (next_addr hp)) Node4 (take ?m rest)
      (two_children (r0 ! ?m) (ALeaf a k0 v0) (rest ! ?m) (ALeaf (next_addr hp) k v))"
    obtain hp' where "split_leaf N hp (Ptr LeafKind a) (length path + ?m) (length path) k v
      = Ret (Ptr Node4 (Suc (next_addr hp)), Ptr LeafKind (next_addr hp), hp')"
      "becomes N hp (ALeaf a k0 v0) hp' ?t'"
      using split_leaf_spec [OF ALeaf.prems(1,3,4) r0 split(2,3), of v] by blast
    then have "point_at_root N hp k v par ?ip (ALeaf a k0 v0) ?t'"
      using split(1) by (auto simp: point_at_root_def insert_local_def tree_map_Leaf inserted_leaf_def
          set_two_children)
    moreover have "tree_insert (next_addr hp) k v rest (ALeaf a k0 v0) = Some ?t'"
      using split by (simp add: r0 ALeaf.prems(3) Let_def)
    moreover have "search_insert_from fuel hp root (as_bytes k) gp par (root_ptr (ALeaf a k0 v0)) (length path)
        = Ret (Inr ?ip)"
      using split read by (simp add: f ALeaf.prems(3) r0 Let_def)
    ultimately show ?thesis by simp
  qed
next
  case (AInner a ty pf ch)
  let ?t = "AInner a ty pf ch" and ?m = "matching_len pf rest"
  obtain f where f: "fuel = Suc f" using AInner.prems(5) by (cases fuel) auto
  have hf: "height ?t \<le> f" using AInner.prems(5) f by simp
  have ty: "ty \<noteq> LeafKind" and s: "sorted_keys ch" using AInner.prems(2) by simp_all
  note test = test_prefix_spec [OF AInner.prems(1,2) hf AInner.prems(3)]
  consider (diff) "\<not> Sublist.prefix pf rest" | (same) "rest = pf" | (below) b r where "rest = pf @ b # r"
    by (metis append_Nil2 list.exhaust prefix_def)
  then show ?case
  proof cases
    case diff
    obtain lp where lp: "?m < length pf" "test_prefix_identify_insert f hp (Ptr ty a) (as_bytes k) (length path)
        = Ret (Inr (Break \<lparr>matched_bytes = ?m, prefix_byte = pf ! ?m, mismatch_leaf_ptr = lp\<rparr>, length path))"
      "case lp of None \<Rightarrow> length pf \<le> N
       | Some p \<Rightarrow> ptr_addr p < next_addr hp \<and> (\<exists>l. read_leaf hp p = Ret l \<and> Sublist.prefix (path @ pf) (as_bytes (leaf_key l)))"
      using test(1) [OF diff] by blast
    show ?thesis
    proof (cases "length rest \<le> ?m")
      case True
      then show ?thesis using lp(1,2) ty by (simp add: f AInner.prems(3) Let_def)
    next
      case False
      let ?ip = "\<lparr>ip_grandparent_ptr_and_parent_key_byte = gp, ip_parent_ptr_and_child_key_byte = par,
        insert_type = MismatchPrefix \<lparr>matched_bytes = ?m, prefix_byte = pf ! ?m, mismatch_leaf_ptr = lp\<rparr> (Ptr ty a),
        key_bytes_used = length path, ip_root = root\<rparr>"
      let ?t' = "AInner (Suc (next_addr hp)) Node4 (take ?m pf)
        (two_children (pf ! ?m) (AInner a ty (drop (Suc ?m) pf) ch) (rest ! ?m) (ALeaf (next_addr hp) k v))"
      obtain hp' where "split_prefix N hp \<lparr>matched_bytes = ?m, prefix_byte = pf ! ?m, mismatch_leaf_ptr = lp\<rparr>
          (Ptr ty a) (length path) k v = Ret (Ptr Node4 (Suc (next_addr hp)), Ptr LeafKind (next_addr hp), hp')"
        "becomes N hp ?t hp' ?t'"
        using split_prefix_spec [OF AInner.prems(1-4) lp(1) _ lp(3), of v] False by auto
      moreover have "tree_map ?t (as_bytes k) = None"
        using tree_map_Inner(2) [OF AInner.prems(2), of "as_bytes k"] diff by (simp add: AInner.prems(3))
      ultimately have "point_at_root N hp k v par ?ip ?t ?t'"
        by (auto simp: point_at_root_def insert_local_def inserted_leaf_def set_two_children)
      moreover have "tree_insert (next_addr hp) k v rest ?t = Some ?t'"
        using False lp(1) by (simp add: Let_def)
      moreover have "search_insert_from fuel hp root (as_bytes k) gp par (root_ptr ?t) (length path) = Ret (Inr ?ip)"
        using False lp(1,2) ty by (simp add: f AInner.prems(3) Let_def)
      ultimately show ?thesis by simp
    qed
  next
    case same
    then have "?m = length pf" using matching_len_full_iff [of pf rest] by simp
    then show ?thesis using test(2) [OF same] same ty by (simp add: f Let_def)
  next
    case (below b r)
    then have m: "?m = length pf" using matching_len_full_iff [of pf rest] by simp
    have key: "as_bytes k = path @ pf @ b # r" using AInner.prems(3) below by simp
    have idx: "index_at (as_bytes k) (length path + length pf) = Ret b"
        "length path + length pf < length (as_bytes k)"
      using nth_append_length [of "path @ pf" b r] by (simp_all add: index_at_def key)
    note tst = test(3) [OF below]
    show ?thesis
    proof (cases "map_of ch b")
      case None
      let ?ip = "\<lparr>ip_grandparent_ptr_and_parent_key_byte = gp, ip_parent_ptr_and_child_key_byte = par,
        insert_type = IntoExisting (Ptr ty a), key_bytes_used = length path + length pf, ip_root = root\<rparr>"
      let ?t' = "if upper_capacity ty \<le> length ch
        then AInner (Suc (next_addr hp)) (grown_type ty) pf (al_write b (ALeaf (next_addr hp) k v) ch)
        else AInner a ty pf (al_write b (ALeaf (next_addr hp) k v) ch)"
      obtain hp' where "write_new_child_in_existing_node hp (Ptr ty a) \<lparr>leaf_key = k, leaf_value = v\<rparr>
          (length path + length pf) = Ret (root_ptr ?t', Ptr LeafKind (next_addr hp), hp')" "becomes N hp ?t hp' ?t'"
        using write_new_child_spec [OF AInner.prems(1,2) key None, of v] by blast
      moreover have "tree_map ?t (as_bytes k) = None"
        using tree_map_Inner(1) [OF AInner.prems(2), of b r] None by (simp add: key)
      moreover have "inserted_leaf (Ptr LeafKind (next_addr hp)) k v ?t'"
        using s by (auto simp: inserted_leaf_def set_al_write)
      ultimately have "point_at_root N hp k v par ?ip ?t ?t'"
        unfolding point_at_root_def insert_local_def by auto
      moreover have "tree_insert (next_addr hp) k v rest ?t = Some ?t'"
        using m None by (simp add: below Let_def)
      moreover have "search_insert_from fuel hp root (as_bytes k) gp par (root_ptr ?t) (length path) = Ret (Inr ?ip)"
        using tst None idx ty by (simp add: f Let_def)
      ultimately show ?thesis by simp
    next
      case (Some c)
      then have c: "(b, c) \<in> set ch" by (rule map_of_SomeD)
      have hc: "holds N hp c" by (rule holds_child [OF AInner.prems(1) c])
      have "height c < f" using height_child [OF c, of a ty pf] hf by simp
      note IH = AInner.IH [OF c hc wf_child [OF AInner.prems(2) c] _ AInner.prems(4) this,
          of r par "Some (Ptr ty a, b)"]
      have step: "search_insert_from fuel hp root (as_bytes k) gp par (root_ptr ?t) (length path)
          = search_insert_from f hp root (as_bytes k) par (Some (Ptr ty a, b)) (root_ptr c) (length (path @ pf @ [b]))"
        using tst Some idx ty by (simp add: f Let_def)
      have map: "tree_map ?t (as_bytes k) = tree_map c (as_bytes k)"
        using tree_map_Inner(1) [OF AInner.prems(2), of b r] Some by (simp add: key)
      have ins: "tree_insert (next_addr hp) k v rest ?t
          = map_option (\<lambda>c'. AInner a ty pf (al_write b c' ch)) (tree_insert (next_addr hp) k v r c)"
        using m Some by (simp add: below Let_def)
      show ?thesis
      proof (cases "tree_insert (next_addr hp) k v r c")
        case None
        then show ?thesis using IH step ins key by simp
      next
        case (Some c')
        let ?t' = "AInner a ty pf (al_write b c' ch)"
        obtain ip where ip: "search_insert_from f hp root (as_bytes k) par (Some (Ptr ty a, b)) (root_ptr c)
            (length (path @ pf @ [b])) = Ret (Inr ip)" "ip_root ip = root"
          "point_at_root N hp k v (Some (Ptr ty a, b)) ip c c' \<or> point_inside N hp k v ip c c'"
          using IH Some key by auto
        from ip(3) have "point_inside N hp k v ip ?t ?t'"
        proof
          assume "point_at_root N hp k v (Some (Ptr ty a, b)) ip c c'"
          then obtain hp1 lp where l: "insert_local N hp ip k v = Ret (root_ptr c', lp, hp1)"
            "becomes N hp c hp1 c'" "inserted_leaf lp k v c'" "\<forall>p. insert_type ip \<noteq> Exact p"
            "ip_parent_ptr_and_child_key_byte ip = Some (Ptr ty a, b)" "tree_map c (as_bytes k) = None"
            by (auto simp: point_at_root_def)
          obtain hp2 where "parent_write_child hp1 (Ptr ty a) b (root_ptr c') = Ret hp2" "becomes N hp ?t hp2 ?t'"
            using parent_write_spec [OF AInner.prems(1) s c l(2)] by blast
          then show ?thesis
            using insert_apply_local [OF l(4,1)] l(3,5,6) inserted_leaf_child [OF _ s]
            by (simp add: point_inside_def map)
        next
          assume "point_inside N hp k v ip c c'"
          then obtain hp1 lp where l: "root_ptr c' = root_ptr c" "insert_apply N hp ip k v =
            Ret (\<lparr>ir_leaf_node_ptr = lp,
               existing_leaf = map_option (\<lambda>(k0, v0). \<lparr>leaf_key = k0, leaf_value = v0\<rparr>) (tree_map c (as_bytes k)),
               ir_new_root = ip_root ip\<rparr>, hp1)" "becomes N hp c hp1 c'" "inserted_leaf lp k v c'"
            by (auto simp: point_inside_def)
          then show ?thesis
            using becomes_child_same [OF AInner.prems(1) s c l(3,1)] inserted_leaf_child [OF l(4) s]
            by (simp add: point_inside_def map)
        qed
        then show ?thesis using ip step ins Some by simp
      qed
    qed
  qed
qed

text \<open>
  At the root of a tree: the search reports a conflict exactly when the abstract insertion
  fails; otherwise applying the point turns the tree into the result of the abstract insertion,
  and returns the previous entry of the key and the root of the new tree.
\<close>

lemma insert_root_spec:
  assumes h: "holds N hp t" and w: "wf_art [] t" and l: "length (as_bytes k) < 2 ^ 32"
  shows "case tree_insert (next_addr hp) k v (as_bytes k) t of
      None \<Rightarrow> search_for_insert_point hp (root_ptr t) (as_bytes k) = Ret (Inl (InsertPrefixError (as_bytes k)))
    | Some t' \<Rightarrow> \<exists>ip hp' lp. search_for_insert_point hp (root_ptr t) (as_bytes k) = Ret (Inr ip)
        \<and> insert_apply N hp ip k v =
           Ret (\<lparr>ir_leaf_node_ptr = lp,
               existing_leaf = map_option (\<lambda>(k0, v0). \<lparr>leaf_key = k0, leaf_value = v0\<rparr>) (tree_map t (as_bytes k)),
               ir_new_root = root_ptr t'\<rparr>, hp')
        \<and> becomes N hp t hp' t' \<and> inserted_leaf lp k v t'"
proof -
  have fuel: "height t < Suc (next_addr hp)" using holds_height [OF h] by simp
  note spec = search_insert_spec [where path = "[]" and rest = "as_bytes k" and gp = None and par = None
      and root = "root_ptr t" and v = v, OF h w _ l fuel]
  show ?thesis
  proof (cases "tree_insert (next_addr hp) k v (as_bytes k) t")
    case None
    then show ?thesis using spec by (simp add: search_for_insert_point_def)
  next
    case (Some t')
    then obtain ip where ip: "search_for_insert_point hp (root_ptr t) (as_bytes k) = Ret (Inr ip)"
      "ip_root ip = root_ptr t" "point_at_root N hp k v None ip t t' \<or> point_inside N hp k v ip t t'"
      using spec by (auto simp: search_for_insert_point_def)
    from ip(3) show ?thesis
    proof
      assume "point_at_root N hp k v None ip t t'"
      then obtain hp1 lp where 1: "insert_local N hp ip k v = Ret (root_ptr t', lp, hp1)"
        "becomes N hp t hp1 t'" "inserted_leaf lp k v t'" "\<forall>p. insert_type ip \<noteq> Exact p"
        "ip_parent_ptr_and_child_key_byte ip = None" "tree_map t (as_bytes k) = None"
        by (auto simp: point_at_root_def)
      then show ?thesis
        using insert_apply_local [OF 1(4,1)] ip(1) Some by auto
    next
      assume "point_inside N hp k v ip t t'"
      then show ?thesis using ip(1,2) Some by (auto simp: point_inside_def)
    qed
  qed
qed

end
