(* ===== verification/Delete.thy ===== *)
theory Delete
  imports Insert
begin

text \<open>
  Deletion (\<open>src/src/nodes/operations/delete.rs\<close>): the search for a leaf with its parent and
  grandparent, and the removal of that leaf.  A node that is left with one child is merged
  with it, a node that is small enough for the next smaller kind is copied into it.

  The abstract deletion \<open>tree_delete\<close> works on tree shapes.  The lemmas show that the code
  implements it, that it removes exactly the given key and keeps the tree well-formed, and
  that the leaf and every node taken out of the tree is freed.
\<close>

section \<open>Removing a child\<close>

definition join_prefix :: "header \<Rightarrow> byte \<Rightarrow> header \<Rightarrow> header outcome" where
  \<comment> \<open>the new header of the only child: path of the parent, key byte, path of the child\<close>
  "join_prefix parent_header child_key_byte child_header =
     (let parent_prefix = read_prefix parent_header;
          parent_len = prefix_len parent_header;
          ((old_prefix, old_len, old_capped_len), child_header) = clear_prefix child_header in
      and_then (push_prefix child_header parent_prefix parent_len) (\<lambda>child_header.
      and_then (push_prefix child_header [child_key_byte] 1) (\<lambda>child_header.
      and_then (slice_range old_prefix 0 old_capped_len) (\<lambda>old.
      push_prefix child_header old old_len))))"

definition remove_child_from_inner_node_and_compress ::
    "('k, 'v) heap \<Rightarrow> node_ptr \<Rightarrow> byte \<Rightarrow> (node_ptr option \<times> ('k, 'v) heap) outcome" where
  "remove_child_from_inner_node_and_compress hp inner_node_ptr key_fragment =
     and_then (read_inner hp inner_node_ptr) (\<lambda>inner_node.
     and_then (inner_remove_child inner_node key_fragment) (\<lambda>(removed, inner_node).
     and_then (unwrap removed) (\<lambda>_.
     and_then (write_inner hp inner_node_ptr inner_node) (\<lambda>hp.
     if num_children (inner_header inner_node) = 1 then
       and_then (inner_iter inner_node) (\<lambda>children.
       case children of [] \<Rightarrow> Panic
       | (child_key_byte, child_node_ptr) # others \<Rightarrow>
         and_then (assert_that (others = [])) (\<lambda>_.
         and_then
           (if ptr_type child_node_ptr = LeafKind then Ret hp
            else
              and_then (read_inner hp child_node_ptr) (\<lambda>child.
              and_then (join_prefix (inner_header inner_node) child_key_byte (inner_header child)) (\<lambda>h.
              write_inner hp child_node_ptr (set_header h child)))) (\<lambda>hp.
         and_then (dealloc_inner hp inner_node_ptr) (\<lambda>hp.
         Ret (Some child_node_ptr, hp)))))
     else
       and_then (should_shrink_inner_node (inner_type inner_node) (num_children (inner_header inner_node))) (\<lambda>small.
       if small then
         and_then (inner_shrink inner_node) (\<lambda>new_inner_node.
         let (new_inner_node_ptr, hp) = alloc_inner hp new_inner_node in
         and_then (dealloc_inner hp inner_node_ptr) (\<lambda>hp.
         Ret (Some new_inner_node_ptr, hp)))
       else Ret (None, hp))))))"

record ('k, 'v) delete_result =
  dr_new_root :: "node_ptr option"
  deleted_leaf :: "('k, 'v) leaf"

record delete_point =
  dp_grandparent_ptr_and_parent_key_byte :: "(node_ptr \<times> byte) option"
  dp_parent_ptr_and_child_key_byte :: "(node_ptr \<times> byte) option"
  dp_leaf_node_ptr :: node_ptr

definition inner_delete_non_root_unchecked ::
    "('k, 'v) heap \<Rightarrow> node_ptr \<Rightarrow> node_ptr \<times> byte \<Rightarrow> (node_ptr \<times> byte) option \<Rightarrow> node_ptr
      \<Rightarrow> (('k, 'v) delete_result \<times> ('k, 'v) heap) outcome" where
  "inner_delete_non_root_unchecked hp leaf_node_ptr parent grandparent original_root =
     (case parent of (parent_node_ptr, parent_key_byte) \<Rightarrow>
      if ptr_type parent_node_ptr = LeafKind then Panic else
      and_then (remove_child_from_inner_node_and_compress hp parent_node_ptr parent_key_byte)
        (\<lambda>(new_parent, hp).
      and_then
        (case (new_parent, grandparent) of
           (Some new_parent, Some (grandparent_node_ptr, grandparent_key_byte)) \<Rightarrow>
             parent_write_child hp grandparent_node_ptr grandparent_key_byte new_parent
         | _ \<Rightarrow> Ret hp) (\<lambda>hp.
      and_then (dealloc_leaf hp leaf_node_ptr) (\<lambda>(leaf_node, hp).
      Ret (\<lparr>dr_new_root = Some (case (new_parent, grandparent) of
               (Some new_parent, None) \<Rightarrow> new_parent | _ \<Rightarrow> original_root),
            deleted_leaf = leaf_node\<rparr>, hp)))))"

definition delete_apply ::
    "('k, 'v) heap \<Rightarrow> delete_point \<Rightarrow> node_ptr \<Rightarrow> (('k, 'v) delete_result \<times> ('k, 'v) heap) outcome" where
  "delete_apply hp dp root =
     (case (dp_parent_ptr_and_child_key_byte dp, dp_grandparent_ptr_and_parent_key_byte dp) of
        (None, None) \<Rightarrow>
          and_then (dealloc_leaf hp (dp_leaf_node_ptr dp)) (\<lambda>(leaf_node, hp).
          Ret (\<lparr>dr_new_root = None, deleted_leaf = leaf_node\<rparr>, hp))
      | (None, Some _) \<Rightarrow> Panic
      | (Some parent, grandparent) \<Rightarrow>
          inner_delete_non_root_unchecked hp (dp_leaf_node_ptr dp) parent grandparent root)"

section \<open>Finding the leaf\<close>

fun search_delete_from ::
    "nat \<Rightarrow> ('k, 'v) heap \<Rightarrow> bytes \<Rightarrow> (node_ptr \<times> byte) option \<Rightarrow> (node_ptr \<times> byte) option
      \<Rightarrow> node_ptr \<Rightarrow> nat \<Rightarrow> delete_point option outcome" where
  "search_delete_from 0 hp key_bytes grandparent parent current_node current_depth = NoFuel"
| "search_delete_from (Suc fuel) hp key_bytes grandparent parent current_node current_depth =
     (if ptr_type current_node = LeafKind then
        and_then (read_leaf hp current_node) (\<lambda>leaf_node.
        Ret (if as_bytes (leaf_key leaf_node) = key_bytes
             then Some \<lparr>dp_grandparent_ptr_and_parent_key_byte = grandparent,
                dp_parent_ptr_and_child_key_byte = parent, dp_leaf_node_ptr = current_node\<rparr>
             else None))
      else
        and_then (check_prefix_lookup_child fuel hp current_node key_bytes current_depth)
          (\<lambda>(next_node, current_depth).
        case next_node of None \<Rightarrow> Ret None
        | Some next_node \<Rightarrow>
            and_then (assert_that (0 < current_depth)) (\<lambda>_.
            and_then (index_at key_bytes (current_depth - 1)) (\<lambda>last_key_byte.
            search_delete_from fuel hp key_bytes parent (Some (current_node, last_key_byte))
              next_node current_depth))))"

definition search_for_delete_point ::
    "('k, 'v) heap \<Rightarrow> node_ptr \<Rightarrow> bytes \<Rightarrow> delete_point option outcome" where
  "search_for_delete_point hp root key_bytes =
     search_delete_from (Suc (next_addr hp)) hp key_bytes None None root 0"

fun find_extreme_to_delete ::
    "(node_ptr inner \<Rightarrow> (byte \<times> node_ptr) outcome) \<Rightarrow> nat \<Rightarrow> ('k, 'v) heap \<Rightarrow> (node_ptr \<times> byte) option
      \<Rightarrow> (node_ptr \<times> byte) option \<Rightarrow> node_ptr \<Rightarrow> delete_point outcome" where
  \<comment> \<open>the common loop of the two functions below: \<open>pick\<close> is \<open>min\<close> or \<open>max\<close>\<close>
  "find_extreme_to_delete pick 0 hp grandparent parent current_node = NoFuel"
| "find_extreme_to_delete pick (Suc fuel) hp grandparent parent current_node =
     (if ptr_type current_node = LeafKind then
        Ret \<lparr>dp_grandparent_ptr_and_parent_key_byte = grandparent,
             dp_parent_ptr_and_child_key_byte = parent, dp_leaf_node_ptr = current_node\<rparr>
      else
        and_then (read_inner hp current_node) (\<lambda>inner_node.
        and_then (pick inner_node) (\<lambda>(last_key_byte, next_node).
        find_extreme_to_delete pick fuel hp parent (Some (current_node, last_key_byte)) next_node)))"

definition find_minimum_to_delete :: "('k, 'v) heap \<Rightarrow> node_ptr \<Rightarrow> delete_point outcome" where
  "find_minimum_to_delete hp root =
     find_extreme_to_delete inner_min (Suc (next_addr hp)) hp None None root"

definition find_maximum_to_delete :: "('k, 'v) heap \<Rightarrow> node_ptr \<Rightarrow> delete_point outcome" where
  "find_maximum_to_delete hp root =
     find_extreme_to_delete inner_max (Suc (next_addr hp)) hp None None root"

section \<open>Deletion on tree shapes\<close>

text \<open>
  What becomes of a node whose children are now \<open>ch\<close>.  A new node goes to the address \<open>nx\<close>.
\<close>

fun collapse :: "nat \<Rightarrow> nat \<Rightarrow> node_type \<Rightarrow> bytes \<Rightarrow> (byte \<times> ('k, 'v) art) list \<Rightarrow> ('k, 'v) art" where
  "collapse nx a ty pf [(b, ALeaf a' k v)] = ALeaf a' k v"
| "collapse nx a ty pf [(b, AInner a' ty' pf' ch)] = AInner a' ty' (pf @ b # pf') ch"
| "collapse nx a ty pf ch =
     (if should_shrink_inner_node ty (length ch) = Ret True then AInner nx (shrunk_type ty) pf ch
      else AInner a ty pf ch)"

text \<open>
  \<open>None\<close>: the key is not in the tree; \<open>Some None\<close>: it was the only key.
\<close>

function tree_delete :: "nat \<Rightarrow> bytes \<Rightarrow> bytes \<Rightarrow> ('k, 'v) art \<Rightarrow> ('k, 'v) art option option" where
  "tree_delete nx kb rest (ALeaf a k v) = (if as_bytes k = kb then Some None else None)"
| "tree_delete nx kb rest (AInner a ty pf ch) =
     (if Sublist.prefix pf rest then
        case drop (length pf) rest of [] \<Rightarrow> None
        | b # rest' \<Rightarrow>
            (case map_of ch b of None \<Rightarrow> None
             | Some c \<Rightarrow> map_option
                 (\<lambda>r. Some (case r of None \<Rightarrow> collapse nx a ty pf (al_remove b ch)
                        | Some c' \<Rightarrow> AInner a ty pf (al_write b c' ch))) (tree_delete nx kb rest' c))
      else None)"
  by pat_completeness auto
termination
  by (relation "measure (\<lambda>(_, _, _, t). size t)") (use art_size_child in \<open>auto dest!: map_of_SomeD simp del: art.size\<close>)

section \<open>What the abstract deletion does\<close>

lemma collapse_cases:
  assumes "ch \<noteq> []"
  obtains (leaf) b a' k v where "ch = [(b, ALeaf a' k v)]" "collapse nx a ty pf ch = ALeaf a' k v"
  | (inner) b a' ty' pf' ch' where "ch = [(b, AInner a' ty' pf' ch')]"
      "collapse nx a ty pf ch = AInner a' ty' (pf @ b # pf') ch'"
  | (many) "2 \<le> length ch"
      "collapse nx a ty pf ch = (if should_shrink_inner_node ty (length ch) = Ret True
         then AInner nx (shrunk_type ty) pf ch else AInner a ty pf ch)"
  using assms by (cases "(nx, a, ty, pf, ch)" rule: collapse.cases) auto

lemma entries_collapse: "ch \<noteq> [] \<Longrightarrow> entries (collapse nx a ty pf ch) = entries (AInner a ty pf ch)"
  by (erule collapse_cases [where nx = nx and a = a and ty = ty and pf = pf]) (auto simp: entries_Inner)

lemma in_range_remove:
  assumes "in_range ty (Suc n)" "ty \<noteq> LeafKind" "2 \<le> n"
  shows "if should_shrink_inner_node ty n = Ret True
    then in_range (shrunk_type ty) n \<and> shrunk_type ty \<noteq> LeafKind else in_range ty n"
  using assms by (cases ty) (auto simp: in_range_def)

lemma collapse_wf:
  assumes w: "wf_art path (AInner a ty pf ch)" and b: "(b, c) \<in> set ch"
  shows "wf_art path (collapse nx a ty pf (al_remove b ch))"
proof -
  have "sorted_keys ch" using w by simp
  then obtain xs ys where s: "ch = xs @ (b, c) # ys" "al_remove b ch = xs @ ys"
    using al_split [OF _ b] by metis
  have sub: "wf_art (path @ pf @ [b']) t" if "(b', t) \<in> set (al_remove b ch)" for b' t
    using wf_child [OF w] that by (simp add: set_al_remove)
  have len: "length ch = Suc (length (al_remove b ch))" unfolding s(2) by (simp add: s(1))
  have "al_remove b ch \<noteq> []" using wf_inner_ge2 [OF w] len by auto
  then show ?thesis
  proof (cases rule: collapse_cases [where nx = nx and a = a and ty = ty and pf = pf])
    case (leaf b' a' k v)
    then show ?thesis using sub [of b' "ALeaf a' k v"] by (auto simp: append_prefixD)
  next
    case (inner b' a' ty' pf' ch')
    then show ?thesis using sub [of b' "AInner a' ty' pf' ch'"] by auto
  next
    case many
    then show ?thesis
      using in_range_remove [of ty "length (al_remove b ch)"] w sub len
      by (auto simp: sorted_al_remove split: if_splits)
  qed
qed

text \<open>The entries of a node, split by whether they are below the child of the byte \<open>b\<close>.\<close>

lemma entries_other:
  assumes w: "wf_art path (AInner a ty pf ch)"
  shows "(\<Union>(c, t)\<in>{x \<in> set ch. fst x \<noteq> b}. set (entries t))
      = {e \<in> set (entries (AInner a ty pf ch)). \<not> Sublist.prefix (path @ pf @ [b]) (as_bytes (fst e))}"
proof -
  have "Sublist.prefix (path @ pf @ [b]) (as_bytes (fst e)) \<longleftrightarrow> b' = b"
    if "(b', t) \<in> set ch" "e \<in> set (entries t)" for b' t e
    using wf_entry_path [OF wf_child [OF w that(1)] that(2)] by (auto simp: prefix_def)
  then show ?thesis by (fastforce simp: set_entries_Inner)
qed

lemma entries_below:
  assumes w: "wf_art path (AInner a ty pf ch)" and c: "(b, c) \<in> set ch"
  shows "{e \<in> set (entries (AInner a ty pf ch)). Sublist.prefix (path @ pf @ [b]) (as_bytes (fst e))}
    = set (entries c)"
proof -
  have s: "sorted_keys ch" using w by simp
  have "Sublist.prefix (path @ pf @ [b]) (as_bytes (fst e)) \<longleftrightarrow> t = c"
    if "(b', t) \<in> set ch" "e \<in> set (entries t)" "b' = b \<or> t = c" for b' t e
    using wf_entry_path [OF wf_child [OF w that(1)] that(2)] wf_entry_path [OF wf_child [OF w c], of e]
      sorted_keys_unique [OF s c, of t] that by (auto simp: prefix_def)
  moreover have "b' = b" if "(b', t) \<in> set ch" "e \<in> set (entries t)"
      "Sublist.prefix (path @ pf @ [b]) (as_bytes (fst e))" for b' t e
    using wf_entry_path [OF wf_child [OF w that(1)] that(2)] that(3) by (auto simp: prefix_def)
  ultimately show ?thesis using c by (fastforce simp: set_entries_Inner)
qed

lemma entries_without:
  assumes w: "wf_art path (AInner a ty pf ch)" and c: "(b, c) \<in> set ch"
    and k: "kb = path @ pf @ b # r"
    and E: "E = {e \<in> set (entries c). as_bytes (fst e) \<noteq> kb}"
  shows "(\<Union>(c, t)\<in>{x \<in> set ch. fst x \<noteq> b}. set (entries t)) \<union> E
    = {e \<in> set (entries (AInner a ty pf ch)). as_bytes (fst e) \<noteq> kb}"
  unfolding entries_other [OF w] E entries_below [OF w c, symmetric] using k by auto

text \<open>
  The abstract deletion finds exactly the keys of the tree, keeps the tree well-formed and
  takes out the one entry.
\<close>

lemma tree_delete_spec:
  assumes "wf_art path t" "kb = path @ rest"
  shows "case tree_delete nx kb rest t of
      None \<Rightarrow> tree_map t kb = None
    | Some None \<Rightarrow> (\<exists>a k v. t = ALeaf a k v \<and> as_bytes k = kb)
    | Some (Some t') \<Rightarrow> wf_art path t' \<and> tree_map t kb \<noteq> None
        \<and> set (entries t') = {e \<in> set (entries t). as_bytes (fst e) \<noteq> kb}"
  using assms
proof (induction t arbitrary: path rest)
  case (ALeaf a k v)
  then show ?case by (auto simp: tree_map_Leaf)
next
  case (AInner a ty pf ch)
  let ?t = "AInner a ty pf ch"
  note w = AInner.prems(1)
  have s: "sorted_keys ch" using w by simp
  consider (off) "\<not> Sublist.prefix pf rest \<or> rest = pf" | (below) b r where "rest = pf @ b # r"
    by (metis append_Nil2 list.exhaust prefix_def)
  then show ?case
  proof cases
    case off
    then have "tree_map ?t kb = None"
      using tree_map_Inner(2) [OF w, of kb] AInner.prems(2) by auto
    then show ?thesis using off by auto
  next
    case (below b r)
    then have kb: "kb = path @ pf @ b # r" using AInner.prems(2) by simp
    note tm = tree_map_Inner(1) [OF w, of b r, folded kb]
    show ?thesis
    proof (cases "map_of ch b")
      case None
      then show ?thesis using tm below by simp
    next
      case (Some c)
      then have c: "(b, c) \<in> set ch" by (rule map_of_SomeD)
      have kb': "kb = (path @ pf @ [b]) @ r" using kb by simp
      note IH = AInner.IH [OF c wf_child [OF w c] kb']
      have step: "tree_delete nx kb rest ?t = map_option
          (\<lambda>r. Some (case r of None \<Rightarrow> collapse nx a ty pf (al_remove b ch)
             | Some c' \<Rightarrow> AInner a ty pf (al_write b c' ch))) (tree_delete nx kb r c)"
        using Some below by simp
      show ?thesis
      proof (cases "tree_delete nx kb r c")
        case None
        then show ?thesis using IH step tm Some by simp
      next
        case del: (Some res)
        show ?thesis
        proof (cases res)
          case None
          then obtain a' k v where leaf: "c = ALeaf a' k v" "as_bytes k = kb" using IH del by auto
          have "length (al_remove b ch) = length ch - 1"
            using c by (simp add: length_al_remove [OF s] rev_image_eqI)
          then have "al_remove b ch \<noteq> []" using wf_inner_ge2 [OF w] by auto
          then have "set (entries (collapse nx a ty pf (al_remove b ch)))
              = {e \<in> set (entries ?t). as_bytes (fst e) \<noteq> kb}"
            using entries_without [OF w c kb, of "{}"] leaf
            by (simp add: entries_collapse) (simp add: set_entries_Inner set_al_remove)
          then show ?thesis
            using step del None collapse_wf [OF w c] tm Some leaf by (simp add: tree_map_Leaf)
        next
          case c': (Some c')
          then have c'': "wf_art (path @ pf @ [b]) c'" "tree_map c kb \<noteq> None"
            "set (entries c') = {e \<in> set (entries c). as_bytes (fst e) \<noteq> kb}"
            using IH del by simp_all
          have "length (al_write b c' ch) = length ch"
            using c s by (simp add: length_al_write rev_image_eqI)
          then have "wf_art path (AInner a ty pf (al_write b c' ch))"
            using w by (intro wf_write [OF w c''(1)]) simp_all
          moreover have "set (entries (AInner a ty pf (al_write b c' ch)))
              = {e \<in> set (entries ?t). as_bytes (fst e) \<noteq> kb}"
            using entries_without [OF w c kb c''(3)]
            by (simp add: set_entries_Inner set_al_write [OF s]) blast
          ultimately show ?thesis using step del c' tm Some c''(2) by simp
        qed
      qed
    qed
  qed
qed

lemma tree_delete_map:
  assumes w: "wf_art path t" and k: "kb = path @ rest" and d: "tree_delete nx kb rest t = Some (Some t')"
  shows "wf_art path t'" "tree_map t' = (tree_map t)(kb := None)"
proof -
  show w': "wf_art path t'" using tree_delete_spec [OF w k, of nx] d by simp
  have e: "set (entries t') = {e \<in> set (entries t). as_bytes (fst e) \<noteq> kb}"
    using tree_delete_spec [OF w k, of nx] d by simp
  show "tree_map t' = (tree_map t)(kb := None)"
  proof
    fix x
    have "tree_map t' x = Some y \<longleftrightarrow> ((tree_map t)(kb := None)) x = Some y" for y
      using tree_map_eq [OF w', of x y] tree_map_eq [OF w, of x y] e by auto
    then show "tree_map t' x = ((tree_map t)(kb := None)) x" by (metis option.exhaust)
  qed
qed

lemma tree_delete_found: "wf_art path t \<Longrightarrow> kb = path @ rest \<Longrightarrow>
    tree_delete nx kb rest t = None \<longleftrightarrow> tree_map t kb = None"
  using tree_delete_spec [of path t kb rest nx]
  by (auto simp: tree_map_Leaf split: option.splits)

section \<open>The code implements the abstract deletion\<close>

lemma join_prefix_repr:
  assumes p: "header_repr hp pf" "length (h_prefix hp) = N" and c: "header_repr hc pf'" "length (h_prefix hc) = N"
    and len: "length pf + Suc (length pf') < 2 ^ 32"
  shows "\<exists>h. join_prefix hp b hc = Ret h \<and> header_repr h (pf @ b # pf')
    \<and> h_num_children h = h_num_children hc \<and> length (h_prefix h) = N"
proof -
  define old h0 where "old = h_prefix hc" and "h0 = hc\<lparr>h_prefix_len := 0\<rparr>"
  have eq: "clear_prefix hc = ((old, length pf', capped_prefix_len hc), h0)"
    by (simp add: clear_prefix_def old_def h0_def header_repr_lengths(1) [OF c(1)])
  have capped: "capped_prefix_len hc \<le> length old"
    by (simp add: old_def capped_prefix_len_def)
  note cl = eq clear_prefix_repr(1,3,4,5) [OF c(1) eq, unfolded c(2)] capped
  obtain h1 where h1: "push_prefix h0 (read_prefix hp) (length pf) = Ret h1" "header_repr h1 pf"
    "h_num_children h1 = h_num_children hc" "length (h_prefix h1) = N"
    using push_prefix_repr [OF cl(2), of "read_prefix hp" pf] read_prefix_repr [OF p(1)] p(2) cl(3,4) len
    by auto
  obtain h2 where h2: "push_prefix h1 [b] 1 = Ret h2" "header_repr h2 (pf @ [b])"
    "h_num_children h2 = h_num_children hc" "length (h_prefix h2) = N"
    using push_prefix_repr [OF h1(2), of "[b]" "[b]"] h1(3,4) len by auto
  obtain h3 where h3: "push_prefix h2 (take (capped_prefix_len hc) old) (length pf') = Ret h3"
    "header_repr h3 ((pf @ [b]) @ pf')" "h_num_children h3 = h_num_children hc" "length (h_prefix h3) = N"
    using push_prefix_repr [OF h2(2), of "take (capped_prefix_len hc) old" pf'] h2(3,4) cl(5) len by auto
  have "join_prefix hp b hc = Ret h3"
    using h1(1) h2(1) h3(1) cl(6) by (simp add: join_prefix_def cl(1) header_repr_lengths(1) [OF p(1)] slice_range_def)
  then show ?thesis using h3 by simp
qed

lemma addrs_removed:
  assumes "sorted_keys ch" "(b, ALeaf la k v) \<in> set ch"
  shows "set (addrs (AInner a ty pf ch)) = insert a (insert la (\<Union>(b, t)\<in>set (al_remove b ch). set (addrs t)))"
    and "distinct (addrs (AInner a ty pf ch))
      \<longleftrightarrow> distinct (a # la # concat (map (\<lambda>(b, t). addrs t) (al_remove b ch)))"
proof -
  obtain xs ys where "ch = xs @ (b, ALeaf la k v) # ys" "al_remove b ch = xs @ ys"
    using al_split [OF assms] by metis
  then show "set (addrs (AInner a ty pf ch)) = insert a (insert la (\<Union>(b, t)\<in>set (al_remove b ch). set (addrs t)))"
    "distinct (addrs (AInner a ty pf ch))
      \<longleftrightarrow> distinct (a # la # concat (map (\<lambda>(b, t). addrs t) (al_remove b ch)))"
    by auto
qed

text \<open>The path of a node and of its child together are shorter than a key.\<close>

lemma joined_path_bound:
  assumes w: "wf_art path (AInner a ty pf ch)" and c: "(b, AInner a' ty' pf' ch') \<in> set ch"
  shows "length pf + Suc (length pf') < 2 ^ 32"
proof -
  let ?c = "AInner a' ty' pf' ch'"
  have wc: "wf_art (path @ pf @ [b]) ?c" by (rule wf_child [OF w c])
  obtain b' t ch'' where t: "ch' = (b', t) # ch''" using wf_inner_ge2 [OF wc] by (cases ch') auto
  then have wt: "wf_art ((path @ pf @ [b]) @ pf' @ [b']) t" by (intro wf_child [OF wc]) simp
  obtain l k v where l: "(l, k, v) \<in> set (leaves t)"
    using leaves_ne [OF wt] by (metis list.set_sel(1) prod_cases3)
  have "Sublist.prefix ((path @ pf @ [b]) @ pf' @ [b']) (as_bytes k)" by (rule wf_leaf_path [OF wt l])
  then have "length pf + Suc (length pf') \<le> length (as_bytes k)" by (auto simp: prefix_def)
  then show ?thesis using wf_leaf_length [OF wt l] by simp
qed

lemma remove_child_and_compress_spec:
  assumes t: "holds N hp (AInner a ty pf ch)" and w: "wf_art path (AInner a ty pf ch)"
    and c: "(b, ALeaf la k v) \<in> set ch"
  defines "t' \<equiv> collapse (next_addr hp) a ty pf (al_remove b ch)"
  shows "\<exists>hp1. remove_child_from_inner_node_and_compress hp (Ptr ty a) b
      = Ret (if root_ptr t' = Ptr ty a then None else Some (root_ptr t'), hp1)
    \<and> cells hp1 la = Some (LeafCell \<lparr>leaf_key = k, leaf_value = v\<rparr>)
    \<and> becomes N hp (AInner a ty pf ch) (dealloc hp1 la) t'"
proof -
  let ?t = "AInner a ty pf ch" and ?nx = "next_addr hp"
  define ch1 where "ch1 = al_remove b ch"
  define B where "B = (\<Union>(b, t)\<in>set ch1. set (addrs t))"
  have s: "sorted_keys ch" and ty: "ty \<noteq> LeafKind" "in_range ty (length ch)" using w by simp_all
  have sub: "\<And>x. x \<in> set ch1 \<Longrightarrow> x \<in> set ch" by (simp add: ch1_def set_al_remove)
  have len: "length ch = Suc (length ch1)"
    using c wf_inner_ge2 [OF w] by (auto simp: ch1_def length_al_remove [OF s] rev_image_eqI)
  have A: "set (addrs ?t) = insert a (insert la B)"
    using addrs_removed(1) [OF s c] by (simp add: B_def ch1_def)
  have dist: "distinct (a # la # concat (map (\<lambda>(b, t). addrs t) ch1))"
    using t addrs_removed(2) [OF s c] unfolding holds_def ch1_def by blast
  have B: "a \<notin> B" "la \<notin> B" "a \<noteq> la" using dist by (auto simp: B_def)
  have lt: "\<And>x. x \<in> B \<Longrightarrow> x < ?nx" "a < ?nx" "la < ?nx" using t unfolding holds_def A by blast+
  have dB: "distinct (concat (map (\<lambda>(b, t). addrs t) ch1))" using dist by simp
  obtain n where n: "read_inner hp (Ptr ty a) = Ret n" "node_ok N n ty pf (child_ptrs ch)"
    using read_inner_Ret t unfolding holds_def by metis
  note nD = node_okD [OF n(2)]
  have leaf: "cells hp la = Some (LeafCell \<lparr>leaf_key = k, leaf_value = v\<rparr>)"
    using holds_child [OF t c] by (simp add: holds_def)
  have "map_of ch b = Some (ALeaf la k v)" using c map_of_eq_Some_iff_mem [OF s] by blast
  then have "map_of (inner_children n) b = Some (Ptr LeafKind la)"
    using nD(5) by (simp add: map_of_child_ptrs)
  then obtain n1 where n1: "inner_remove_child n b = Ret (Some (Ptr LeafKind la), n1)" "inner_inv n1"
    "inner_type n1 = ty" "inner_children n1 = child_ptrs ch1" "same_path (inner_header n) (inner_header n1)"
    using inner_remove_spec [OF nD(2), of b] nD(1,5) by (auto simp: child_ptrs_remove ch1_def)
  have ok1: "node_ok N n1 ty pf (child_ptrs ch1)"
    using n1 nD(3,4) header_repr_same_path by (simp add: node_ok_def)
  note n1D = node_okD [OF ok1]
  define hp1 where "hp1 = hp\<lparr>cells := (cells hp)(a \<mapsto> InnerCell n1)\<rparr>"
  have wr: "write_inner hp (Ptr ty a) n1 = Ret hp1" by (simp add: write_inner_def n(1) hp1_def)
  have rd1: "read_inner hp1 (Ptr ty a) = Ret n1" using n1(3) by (simp add: read_inner_def hp1_def)
  have child: "represents N hp' t" if "(b', t) \<in> set ch1" "\<And>x. x \<in> set (addrs t) \<Longrightarrow> cells hp' x = cells hp x" for b' t hp'
    using represents_frame [of N hp t hp'] holds_child [OF t sub [OF that(1)]] that(2) by (simp add: holds_def)
  have inB: "x \<in> B" if "(b', t) \<in> set ch1" "x \<in> set (addrs t)" for b' t x
    using that by (auto simp: B_def)
  have "ch1 \<noteq> []" using wf_inner_ge2 [OF w] len by auto
  then show ?thesis
  proof (cases rule: collapse_cases [where nx = ?nx and a = a and ty = ty and pf = pf])
    case (leaf b' a' k' v')
    let ?hp = "dealloc hp1 a"
    have t': "t' = ALeaf a' k' v'" using leaf(2) by (simp add: t'_def ch1_def)
    have B1: "B = {a'}" by (simp add: B_def leaf(1))
    have "remove_child_from_inner_node_and_compress hp (Ptr ty a) b = Ret (Some (Ptr LeafKind a'), ?hp)"
      using n1D(7,8) leaf(1) rd1
      by (simp add: remove_child_from_inner_node_and_compress_def n(1) n1(1) wr child_ptrs_def dealloc_inner_def)
    moreover have "becomes N hp ?t (dealloc ?hp la) t'"
    proof (rule becomesI [where A' = B, OF _ _ A])
      show "holds N (dealloc ?hp la) t'"
        using child [of b' "ALeaf a' k' v'" "dealloc ?hp la"] leaf(1) lt(1) [of a'] B B1
        by (simp add: holds_def hp1_def t')
    qed (use B in \<open>auto simp: hp1_def B1 t'\<close>)
    ultimately show ?thesis using \<open>cells hp la = _\<close> B ty(1) by (auto simp: hp1_def t')
  next
    case (inner b' a' ty' pf' ch')
    let ?c = "AInner a' ty' pf' ch'"
    have mem: "(b', ?c) \<in> set ch1" by (simp add: inner(1))
    have t': "t' = AInner a' ty' (pf @ b' # pf') ch'" using inner(2) by (simp add: t'_def ch1_def)
    have B1: "B = set (addrs ?c)" "set (addrs t') = B" "addrs t' = addrs ?c" by (simp_all add: B_def inner(1) t')
    have hc: "holds N hp ?c" by (rule holds_child [OF t sub [OF mem]])
    have a': "a' \<in> B" "a' \<noteq> a" "a' \<noteq> la" using B B1(1) by auto
    have "ty' \<noteq> LeafKind" using wf_child [OF w sub [OF mem]] by simp
    obtain m where m: "read_inner hp (Ptr ty' a') = Ret m" "node_ok N m ty' pf' (child_ptrs ch')"
      using read_inner_Ret hc unfolding holds_def by metis
    note mD = node_okD [OF m(2)]
    have m1: "read_inner hp1 (Ptr ty' a') = Ret m" using m(1) a' by (simp add: read_inner_def hp1_def)
    obtain h where h: "join_prefix (inner_header n1) b' (inner_header m) = Ret h"
      "header_repr h (pf @ b' # pf')" "h_num_children h = h_num_children (inner_header m)" "length (h_prefix h) = N"
      using join_prefix_repr [OF n1D(3,4) mD(3,4) joined_path_bound [OF w sub [OF mem]]] by blast
    have ok': "node_ok N (set_header h m) ty' (pf @ b' # pf') (child_ptrs ch')"
      using mD h set_header_inv [OF h(3)] by (simp add: node_ok_def)
    define hp2 where "hp2 = hp1\<lparr>cells := (cells hp1)(a' \<mapsto> InnerCell (set_header h m))\<rparr>"
    have wr2: "write_inner hp1 (Ptr ty' a') (set_header h m) = Ret hp2" by (simp add: write_inner_def m1 hp2_def)
    have "read_inner hp2 (Ptr ty a) = Ret n1" using rd1 a' by (simp add: read_inner_def hp2_def)
    then have "remove_child_from_inner_node_and_compress hp (Ptr ty a) b = Ret (Some (Ptr ty' a'), dealloc hp2 a)"
      using n1D(7,8) inner(1) m1 h(1) \<open>ty' \<noteq> LeafKind\<close>
      by (simp add: remove_child_from_inner_node_and_compress_def n(1) n1(1) wr child_ptrs_def
          dealloc_inner_def wr2)
    moreover have "becomes N hp ?t (dealloc (dealloc hp2 a) la) t'"
    proof (rule becomesI [OF _ _ A B1(2)])
      let ?hp' = "dealloc (dealloc hp2 a) la"
      have "represents N ?hp' u" if u: "(c', u) \<in> set ch'" for c' u
      proof (rule represents_frame [of N hp])
        show "represents N hp u" using holds_child [OF hc u] by (simp add: holds_def)
        fix x assume "x \<in> set (addrs u)"
        moreover from this have "x \<in> B" using u by (auto simp: B1(1))
        ultimately show "cells ?hp' x = cells hp x"
          using holds_root [OF hc u] B by (auto simp: hp2_def hp1_def)
      qed
      then have "represents N ?hp' t'" using ok' a' by (auto simp: t' hp2_def)
      moreover have "distinct (addrs t')" using hc unfolding holds_def B1(3) by blast
      ultimately show "holds N ?hp' t'" using lt(1) by (simp add: holds_def B1(2) hp2_def hp1_def)
    qed (use B a' in \<open>auto simp: hp2_def hp1_def\<close>)
    ultimately show ?thesis using \<open>cells hp la = _\<close> B a' by (auto simp: hp2_def hp1_def t')
  next
    case many
    then have t': "t' = (if should_shrink_inner_node ty (length ch1) = Ret True
         then AInner ?nx (shrunk_type ty) pf ch1 else AInner a ty pf ch1)"
      by (simp add: t'_def ch1_def)
    have shr: "should_shrink_inner_node ty (length ch1) \<in> {Ret True, Ret False}"
      using ty by (cases ty) auto
    have num: "num_children (inner_header n1) = length ch1" "length ch1 \<noteq> 1" using n1D(7) many(1) by auto
    show ?thesis
    proof (cases "should_shrink_inner_node ty (length ch1) = Ret True")
      case True
      then obtain g where g: "inner_shrink n1 = Ret g" "inner_inv g" "inner_type g = shrunk_type ty"
        "inner_children g = inner_children n1" "inner_header g = inner_header n1"
        using inner_shrink_spec [OF n1(2)] n1(3) n1D(5) by auto
      have ok': "node_ok N g (shrunk_type ty) pf (child_ptrs ch1)"
        using g n1D by (simp add: node_ok_def)
      let ?hp = "dealloc (alloc hp1 (InnerCell g)) a"
      have nx: "next_addr hp1 = ?nx" by (simp add: hp1_def)
      have "read_inner (alloc hp1 (InnerCell g)) (Ptr ty a) = Ret n1"
        using rd1 lt(2) by (simp add: nx)
      then have "remove_child_from_inner_node_and_compress hp (Ptr ty a) b
          = Ret (Some (Ptr (shrunk_type ty) ?nx), ?hp)"
        using True num g(1,3)
        by (simp add: remove_child_from_inner_node_and_compress_def n(1) n1(1,3) wr dealloc_inner_def
            alloc_inner_def nx)
      moreover have "becomes N hp ?t (dealloc ?hp la) t'"
      proof (rule becomesI [where A' = "insert ?nx B", OF _ _ A])
        have "represents N (dealloc ?hp la) u" if "(c', u) \<in> set ch1" for c' u
          using inB [OF that] B lt(1) by (intro child [OF that]) (fastforce simp: hp1_def)
        then have "represents N (dealloc ?hp la) t'"
          using ok' True lt by (auto simp: t' nx)
        moreover have "distinct (addrs t')" using dB lt(1) True by (auto simp: t' B_def)
        moreover show eq: "set (addrs t') = insert ?nx B" using True by (auto simp: t' B_def)
        moreover have "next_addr (dealloc ?hp la) = Suc ?nx" by (simp add: nx)
        ultimately show "holds N (dealloc ?hp la) t'"
          using lt(1) [THEN less_SucI] unfolding holds_def eq by auto
      qed (use B lt in \<open>auto simp: hp1_def\<close>)
      ultimately show ?thesis
        using \<open>cells hp la = _\<close> B True lt by (auto simp: hp1_def t')
    next
      case False
      then have sf: "should_shrink_inner_node ty (length ch1) = Ret False" using shr by simp
      have "remove_child_from_inner_node_and_compress hp (Ptr ty a) b = Ret (None, hp1)"
        using sf num by (simp add: remove_child_from_inner_node_and_compress_def n(1) n1(1,3) wr)
      moreover have "becomes N hp ?t (dealloc hp1 la) t'"
      proof (rule becomesI [where A' = "insert a B", OF _ _ A])
        have "represents N (dealloc hp1 la) u" if "(c', u) \<in> set ch1" for c' u
          using inB [OF that] B by (intro child [OF that]) (fastforce simp: hp1_def)
        then have "represents N (dealloc hp1 la) t'"
          using ok1 False B by (auto simp: t' hp1_def)
        moreover have "distinct (addrs t')" using dist False by (auto simp: t')
        moreover show eq: "set (addrs t') = insert a B" using False by (auto simp: t' B_def)
        moreover have "next_addr (dealloc hp1 la) = ?nx" by (simp add: hp1_def)
        ultimately show "holds N (dealloc hp1 la) t'"
          using lt unfolding holds_def eq by auto
      qed (use B lt in \<open>auto simp: hp1_def\<close>)
      ultimately show ?thesis
        using \<open>cells hp la = _\<close> B False by (auto simp: hp1_def t')
    qed
  qed
qed

section \<open>From the point of deletion to the new tree\<close>

text \<open>
  \<open>leads_to gp par t kb dp\<close>: going down from \<open>t\<close>, which has the parent \<open>par\<close> and the
  grandparent \<open>gp\<close>, to the leaf of the key \<open>kb\<close> gives the point \<open>dp\<close>.
\<close>

inductive leads_to ::
    "(node_ptr \<times> byte) option \<Rightarrow> (node_ptr \<times> byte) option \<Rightarrow> ('k, 'v) art \<Rightarrow> bytes \<Rightarrow> delete_point \<Rightarrow> bool" where
  at_leaf: "leads_to gp par (ALeaf a k v) (as_bytes k)
    \<lparr>dp_grandparent_ptr_and_parent_key_byte = gp, dp_parent_ptr_and_child_key_byte = par,
     dp_leaf_node_ptr = Ptr LeafKind a\<rparr>"
| below: "(b, c) \<in> set ch \<Longrightarrow> leads_to par (Some (Ptr ty a, b)) c kb dp
    \<Longrightarrow> leads_to gp par (AInner a ty pf ch) kb dp"

inductive_cases leads_to_LeafE: "leads_to gp par (ALeaf a k v) kb dp"
inductive_cases leads_to_InnerE: "leads_to gp par (AInner a ty pf ch) kb dp"

lemma leads_to_entry: "leads_to gp par t kb dp \<Longrightarrow> \<exists>e\<in>set (entries t). as_bytes (fst e) = kb"
  by (induction rule: leads_to.induct) (auto simp: set_entries_Inner)

definition delete_at_root ::
    "nat \<Rightarrow> ('k, 'v) heap \<Rightarrow> (node_ptr \<times> byte) option \<Rightarrow> delete_point \<Rightarrow> 'k key \<Rightarrow> 'v
      \<Rightarrow> ('k, 'v) art \<Rightarrow> ('k, 'v) art \<Rightarrow> bool" where
  \<comment> \<open>\<open>t\<close> is the parent of the leaf: the result is still to be written to the parent of \<open>t\<close>\<close>
  "delete_at_root N hp par dp k v t t' \<longleftrightarrow> (\<exists>b la hp1.
     dp = \<lparr>dp_grandparent_ptr_and_parent_key_byte = par,
       dp_parent_ptr_and_child_key_byte = Some (root_ptr t, b), dp_leaf_node_ptr = Ptr LeafKind la\<rparr>
     \<and> ptr_type (root_ptr t) \<noteq> LeafKind \<and> la \<in> set (addrs t)
     \<and> remove_child_from_inner_node_and_compress hp (root_ptr t) b
       = Ret (if root_ptr t' = root_ptr t then None else Some (root_ptr t'), hp1)
     \<and> cells hp1 la = Some (LeafCell \<lparr>leaf_key = k, leaf_value = v\<rparr>)
     \<and> becomes N hp t (dealloc hp1 la) t')"

definition delete_inside ::
    "nat \<Rightarrow> ('k, 'v) heap \<Rightarrow> delete_point \<Rightarrow> 'k key \<Rightarrow> 'v \<Rightarrow> ('k, 'v) art \<Rightarrow> ('k, 'v) art \<Rightarrow> bool" where
  "delete_inside N hp dp k v t t' \<longleftrightarrow> root_ptr t' = root_ptr t \<and> (\<exists>hp'.
     (\<forall>root. delete_apply hp dp root = Ret (\<lparr>dr_new_root = Some root,
        deleted_leaf = \<lparr>leaf_key = k, leaf_value = v\<rparr>\<rparr>, hp'))
     \<and> becomes N hp t hp' t')"

lemma dealloc_leaf_cell:
  "cells hp la = Some (LeafCell l) \<Longrightarrow> dealloc_leaf hp (Ptr LeafKind la) = Ret (l, dealloc hp la)"
  by (simp add: dealloc_leaf_def read_leaf_def)

text \<open>The write to the grandparent and the deallocation of the leaf commute.\<close>

lemma parent_write_dealloc:
  assumes "parent_write_child (dealloc hp la) p b q = Ret hp2" "ptr_addr p \<noteq> la"
  shows "\<exists>hp3. parent_write_child hp p b q = Ret hp3 \<and> cells hp3 la = cells hp la \<and> dealloc hp3 la = hp2"
proof -
  have r: "read_inner (dealloc hp la) p = read_inner hp p"
    using assms(2) by (simp add: read_inner_def)
  show ?thesis
  proof (cases "read_inner hp p")
    case (Ret n)
    then obtain n' where n': "inner_write_child n b q = Ret n'" "ptr_type p \<noteq> LeafKind"
      using assms(1) r by (cases "inner_write_child n b q") (auto simp: parent_write_child_def split: if_splits)
    let ?hp3 = "hp\<lparr>cells := (cells hp)(ptr_addr p \<mapsto> InnerCell n')\<rparr>"
    have "parent_write_child hp p b q = Ret ?hp3"
      using Ret n' by (simp add: parent_write_child_def write_inner_def)
    moreover have "dealloc ?hp3 la = hp2"
      using assms Ret n' r
      by (simp add: parent_write_child_def write_inner_def) (auto simp: dealloc_def fun_upd_twist)
    ultimately show ?thesis using assms(2) by auto
  qed (use assms(1) r in \<open>auto simp: parent_write_child_def split: if_splits\<close>)
qed

lemma delete_step:
  assumes t: "holds N hp (AInner a ty pf ch)" and s: "sorted_keys ch" and c: "(b, c) \<in> set ch"
    and ty: "ty \<noteq> LeafKind"
    and d: "delete_at_root N hp (Some (Ptr ty a, b)) dp k v c c' \<or> delete_inside N hp dp k v c c'"
  shows "delete_inside N hp dp k v (AInner a ty pf ch) (AInner a ty pf (al_write b c' ch))"
  using d
proof
  assume "delete_at_root N hp (Some (Ptr ty a, b)) dp k v c c'"
  then obtain b' la hp1 where dp: "dp = \<lparr>dp_grandparent_ptr_and_parent_key_byte = Some (Ptr ty a, b),
       dp_parent_ptr_and_child_key_byte = Some (root_ptr c, b'), dp_leaf_node_ptr = Ptr LeafKind la\<rparr>"
    and r: "ptr_type (root_ptr c) \<noteq> LeafKind" "la \<in> set (addrs c)"
     "remove_child_from_inner_node_and_compress hp (root_ptr c) b'
       = Ret (if root_ptr c' = root_ptr c then None else Some (root_ptr c'), hp1)"
     "cells hp1 la = Some (LeafCell \<lparr>leaf_key = k, leaf_value = v\<rparr>)"
     "becomes N hp c (dealloc hp1 la) c'"
    by (auto simp: delete_at_root_def)
  have la: "la \<noteq> a" using r(2) holds_root [OF t c] by auto
  show ?thesis
  proof (cases "root_ptr c' = root_ptr c")
    case True
    have "delete_apply hp dp root = Ret (\<lparr>dr_new_root = Some root,
        deleted_leaf = \<lparr>leaf_key = k, leaf_value = v\<rparr>\<rparr>, dealloc hp1 la)" for root
      using r(1,3) True dealloc_leaf_cell [OF r(4)]
      by (simp add: dp delete_apply_def inner_delete_non_root_unchecked_def)
    then show ?thesis
      using becomes_child_same [OF t s c r(5) True] by (auto simp: delete_inside_def)
  next
    case False
    obtain hp2 where hp2: "parent_write_child (dealloc hp1 la) (Ptr ty a) b (root_ptr c') = Ret hp2"
      "becomes N hp (AInner a ty pf ch) hp2 (AInner a ty pf (al_write b c' ch))"
      using parent_write_spec [OF t s c r(5)] by blast
    obtain hp3 where hp3: "parent_write_child hp1 (Ptr ty a) b (root_ptr c') = Ret hp3"
      "cells hp3 la = cells hp1 la" "dealloc hp3 la = hp2"
      using parent_write_dealloc [OF hp2(1)] la by auto
    have "delete_apply hp dp root = Ret (\<lparr>dr_new_root = Some root,
        deleted_leaf = \<lparr>leaf_key = k, leaf_value = v\<rparr>\<rparr>, hp2)" for root
      using r(1,3) False dealloc_leaf_cell [of hp3 la] hp3 r(4)
      by (simp add: dp delete_apply_def inner_delete_non_root_unchecked_def)
    then show ?thesis using hp2(2) by (auto simp: delete_inside_def)
  qed
next
  assume "delete_inside N hp dp k v c c'"
  then show ?thesis
    using becomes_child_same [OF t s c] by (auto simp: delete_inside_def)
qed

lemma leads_to_delete:
  assumes "leads_to gp par t kb dp" "holds N hp t" "wf_art path t" "kb = path @ rest"
  shows "\<exists>k v. tree_map t kb = Some (k, v) \<and>
    (case tree_delete (next_addr hp) kb rest t of None \<Rightarrow> False
     | Some None \<Rightarrow> (\<exists>a. t = ALeaf a k v \<and> dp = \<lparr>dp_grandparent_ptr_and_parent_key_byte = gp,
         dp_parent_ptr_and_child_key_byte = par, dp_leaf_node_ptr = Ptr LeafKind a\<rparr>)
     | Some (Some t') \<Rightarrow> delete_at_root N hp par dp k v t t' \<or> delete_inside N hp dp k v t t')"
  using assms
proof (induction arbitrary: path rest rule: leads_to.induct)
  case (at_leaf gp par a k v)
  then show ?case by (simp add: tree_map_Leaf)
next
  case (below b c ch par ty a kb dp gp pf)
  let ?t = "AInner a ty pf ch"
  note w = below.prems(2)
  have s: "sorted_keys ch" and ty: "ty \<noteq> LeafKind" using w by simp_all
  have hc: "holds N hp c" by (rule holds_child [OF below.prems(1) below.hyps(1)])
  have wc: "wf_art (path @ pf @ [b]) c" by (rule wf_child [OF w below.hyps(1)])
  obtain e where "e \<in> set (entries c)" "as_bytes (fst e) = kb"
    using leads_to_entry [OF below.hyps(2)] by blast
  then have "Sublist.prefix (path @ pf @ [b]) kb" using wf_entry_path [OF wc] by blast
  then obtain r where r: "kb = (path @ pf @ [b]) @ r" by (auto simp: prefix_def)
  then have rest: "rest = pf @ b # r" using below.prems(3) by simp
  have m: "map_of ch b = Some c" using below.hyps(1) map_of_eq_Some_iff_mem [OF s] by blast
  have tm: "tree_map ?t kb = tree_map c kb"
    using tree_map_Inner(1) [OF w, of b r] m r by simp
  have step: "tree_delete (next_addr hp) kb rest ?t = map_option
      (\<lambda>r. Some (case r of None \<Rightarrow> collapse (next_addr hp) a ty pf (al_remove b ch)
         | Some c' \<Rightarrow> AInner a ty pf (al_write b c' ch))) (tree_delete (next_addr hp) kb r c)"
    using m by (simp add: rest)
  obtain k v where kv: "tree_map c kb = Some (k, v)"
    and IH: "case tree_delete (next_addr hp) kb r c of None \<Rightarrow> False
     | Some None \<Rightarrow> (\<exists>l. c = ALeaf l k v \<and> dp = \<lparr>dp_grandparent_ptr_and_parent_key_byte = par,
         dp_parent_ptr_and_child_key_byte = Some (Ptr ty a, b), dp_leaf_node_ptr = Ptr LeafKind l\<rparr>)
     | Some (Some c') \<Rightarrow> delete_at_root N hp (Some (Ptr ty a, b)) dp k v c c' \<or> delete_inside N hp dp k v c c'"
    using below.IH [OF hc wc r] by blast
  show ?case
  proof (cases "tree_delete (next_addr hp) kb r c")
    case None
    then show ?thesis using IH by simp
  next
    case (Some res)
    show ?thesis
    proof (cases res)
      case None
      then obtain l where l: "c = ALeaf l k v" "dp = \<lparr>dp_grandparent_ptr_and_parent_key_byte = par,
         dp_parent_ptr_and_child_key_byte = Some (Ptr ty a, b), dp_leaf_node_ptr = Ptr LeafKind l\<rparr>"
        using IH Some by auto
      have "l \<in> set (addrs ?t)" using below.hyps(1) l(1) by force
      then have "delete_at_root N hp par dp k v ?t (collapse (next_addr hp) a ty pf (al_remove b ch))"
        using remove_child_and_compress_spec [OF below.prems(1) w below.hyps(1) [unfolded l(1)]] ty
        unfolding delete_at_root_def l(2) root_ptr.simps by (metis node_ptr.sel(1))
      then show ?thesis using step Some None tm kv by simp
    next
      case c': (Some c')
      then have "delete_inside N hp dp k v ?t (AInner a ty pf (al_write b c' ch))"
        using IH Some by (intro delete_step [OF below.prems(1) s below.hyps(1) ty]) simp
      then show ?thesis using step Some c' tm kv by simp
    qed
  qed
qed

text \<open>
  Deleting at the root: the point the search found, applied, turns the tree into the result of
  the abstract deletion and returns the entry.
\<close>

lemma delete_root_spec:
  assumes l: "leads_to None None t kb dp" and h: "holds N hp t" and w: "wf_art [] t"
  shows "\<exists>k v hp'. tree_map t kb = Some (k, v) \<and>
    (case tree_delete (next_addr hp) kb kb t of None \<Rightarrow> False
     | Some None \<Rightarrow> delete_apply hp dp (root_ptr t)
         = Ret (\<lparr>dr_new_root = None, deleted_leaf = \<lparr>leaf_key = k, leaf_value = v\<rparr>\<rparr>, hp')
         \<and> (\<exists>a. t = ALeaf a k v \<and> hp' = dealloc hp a)
     | Some (Some t') \<Rightarrow> delete_apply hp dp (root_ptr t)
         = Ret (\<lparr>dr_new_root = Some (root_ptr t'), deleted_leaf = \<lparr>leaf_key = k, leaf_value = v\<rparr>\<rparr>, hp')
         \<and> becomes N hp t hp' t')"
proof -
  obtain k v where kv: "tree_map t kb = Some (k, v)"
    and d: "case tree_delete (next_addr hp) kb kb t of None \<Rightarrow> False
     | Some None \<Rightarrow> (\<exists>a. t = ALeaf a k v \<and> dp = \<lparr>dp_grandparent_ptr_and_parent_key_byte = None,
         dp_parent_ptr_and_child_key_byte = None, dp_leaf_node_ptr = Ptr LeafKind a\<rparr>)
     | Some (Some t') \<Rightarrow> delete_at_root N hp None dp k v t t' \<or> delete_inside N hp dp k v t t'"
    using leads_to_delete [OF l h w, of kb] by auto
  show ?thesis
  proof (cases "tree_delete (next_addr hp) kb kb t")
    case None
    then show ?thesis using d by simp
  next
    case (Some res)
    show ?thesis
    proof (cases res)
      case None
      then obtain a where a: "t = ALeaf a k v" "dp = \<lparr>dp_grandparent_ptr_and_parent_key_byte = None,
         dp_parent_ptr_and_child_key_byte = None, dp_leaf_node_ptr = Ptr LeafKind a\<rparr>"
        using d Some by auto
      then have "dealloc_leaf hp (Ptr LeafKind a) = Ret (\<lparr>leaf_key = k, leaf_value = v\<rparr>, dealloc hp a)"
        using h by (intro dealloc_leaf_cell) (simp add: holds_def)
      then show ?thesis using kv Some None a by (simp add: delete_apply_def)
    next
      case t': (Some t')
      have "delete_at_root N hp None dp k v t t' \<or> delete_inside N hp dp k v t t'"
        using d Some t' by simp
      then have "\<exists>hp'. delete_apply hp dp (root_ptr t)
         = Ret (\<lparr>dr_new_root = Some (root_ptr t'), deleted_leaf = \<lparr>leaf_key = k, leaf_value = v\<rparr>\<rparr>, hp')
         \<and> becomes N hp t hp' t'"
      proof
        assume "delete_at_root N hp None dp k v t t'"
        then show ?thesis
          by (auto simp: delete_at_root_def delete_apply_def inner_delete_non_root_unchecked_def dealloc_leaf_cell)
      qed (auto simp: delete_inside_def)
      then show ?thesis using kv Some t' by simp
    qed
  qed
qed

section \<open>The searches find the point\<close>

lemma search_delete_from_spec:
  assumes "represents N hp t" "wf_art path t" "height t < fuel" "Sublist.prefix path key"
  shows "case tree_map t key of
      None \<Rightarrow> search_delete_from fuel hp key gp par (root_ptr t) (length path) = Ret None
    | Some _ \<Rightarrow> \<exists>dp. search_delete_from fuel hp key gp par (root_ptr t) (length path) = Ret (Some dp)
        \<and> leads_to gp par t key dp"
  using assms
proof (induction t arbitrary: path fuel gp par)
  case (ALeaf a k v)
  then show ?case
    using at_leaf [of gp par a k v] by (cases fuel) (auto simp: read_leaf_def tree_map_Leaf)
next
  case (AInner a ty pf ch)
  obtain f where f: "fuel = Suc f" using AInner.prems(3) by (cases fuel) auto
  obtain rest where key: "key = path @ rest" using AInner.prems(4) by (auto simp: prefix_def)
  have ty: "ty \<noteq> LeafKind" using AInner.prems(2) by simp
  have "height (AInner a ty pf ch) \<le> f" using AInner.prems(3) f by simp
  from check_prefix_lookup_child_spec [OF AInner.prems(1,2) this key]
  consider d where "check_prefix_lookup_child f hp (Ptr ty a) key (length path) = Ret (None, d)"
      "leaf_at (AInner a ty pf ch) key = None"
    | b t r where "rest = pf @ b # r" "(b, t) \<in> set ch"
      "check_prefix_lookup_child f hp (Ptr ty a) key (length path)
        = Ret (Some (root_ptr t), length (path @ pf @ [b]))"
      "leaf_at (AInner a ty pf ch) key = leaf_at t key"
    by blast
  then show ?case
  proof cases
    case 1
    then show ?thesis using ty by (simp add: f tree_map_leaf_at)
  next
    case (2 b t r)
    have "height t < f"
      using height_child [OF 2(2), of a ty pf] AInner.prems(3) f by simp
    moreover have "represents N hp t" using AInner.prems(1) 2(2) by auto
    moreover have "Sublist.prefix (path @ pf @ [b]) key" by (simp add: key 2(1))
    ultimately have IH: "case tree_map t key of
      None \<Rightarrow> search_delete_from f hp key par (Some (Ptr ty a, b)) (root_ptr t) (length (path @ pf @ [b])) = Ret None
    | Some _ \<Rightarrow> \<exists>dp. search_delete_from f hp key par (Some (Ptr ty a, b)) (root_ptr t) (length (path @ pf @ [b])) = Ret (Some dp)
        \<and> leads_to par (Some (Ptr ty a, b)) t key dp"
      using AInner.IH [OF 2(2)] wf_child [OF AInner.prems(2) 2(2)] by blast
    have idx: "index_at key (length (path @ pf @ [b]) - 1) = Ret b"
      using nth_append_length [of "path @ pf" b r] by (simp add: index_at_def key 2(1))
    have step: "search_delete_from fuel hp key gp par (root_ptr (AInner a ty pf ch)) (length path)
        = search_delete_from f hp key par (Some (Ptr ty a, b)) (root_ptr t) (length (path @ pf @ [b]))"
      using 2(3) ty idx by (simp add: f)
    have "tree_map (AInner a ty pf ch) key = tree_map t key" using 2(4) by (simp add: tree_map_leaf_at)
    then show ?thesis unfolding step using IH leads_to.below [OF 2(2)] by (auto split: option.splits)
  qed
qed

lemma search_for_delete_point_spec:
  assumes h: "holds N hp t" and w: "wf_art [] t"
  shows "case tree_map t key of
      None \<Rightarrow> search_for_delete_point hp (root_ptr t) key = Ret None
    | Some _ \<Rightarrow> \<exists>dp. search_for_delete_point hp (root_ptr t) key = Ret (Some dp) \<and> leads_to None None t key dp"
proof -
  have "represents N hp t" "height t < Suc (next_addr hp)"
    using h holds_height [OF h] by (simp_all add: holds_def)
  from search_delete_from_spec [OF this(1) w this(2) Nil_prefix, of key None None]
  show ?thesis by (simp only: search_for_delete_point_def list.size(3))
qed

text \<open>
  The two extreme keys: \<open>pick\<close> chooses a child of a node, \<open>sel\<close> the leaf that the choice
  leads to.
\<close>

locale extreme =
  fixes pick :: "node_ptr inner \<Rightarrow> (byte \<times> node_ptr) outcome"
    and sel :: "(nat \<times> 'k key \<times> 'v) list \<Rightarrow> nat \<times> 'k key \<times> 'v"
  assumes sel_single: "sel [x] = x"
    and pick_child: "represents N hp (AInner a ty pf ch) \<Longrightarrow> wf_art path (AInner a ty pf ch) \<Longrightarrow>
      \<exists>n b c. read_inner hp (Ptr ty a) = Ret n \<and> (b, c) \<in> set ch \<and> pick n = Ret (b, root_ptr c)
        \<and> sel (leaves (AInner a ty pf ch)) = sel (leaves c)"
begin

lemma find_extreme_spec:
  assumes "represents N hp t" "wf_art path t" "height t < fuel"
  shows "\<exists>dp. find_extreme_to_delete pick fuel hp gp par (root_ptr t) = Ret dp
    \<and> leads_to gp par t (as_bytes (fst (snd (sel (leaves t))))) dp"
  using assms
proof (induction t arbitrary: path fuel gp par)
  case (ALeaf a k v)
  then show ?case using at_leaf [of gp par a k v] by (cases fuel) (auto simp: sel_single)
next
  case (AInner a ty pf ch)
  obtain f where f: "fuel = Suc f" using AInner.prems(3) by (cases fuel) auto
  obtain n b c where n: "read_inner hp (Ptr ty a) = Ret n" "(b, c) \<in> set ch" "pick n = Ret (b, root_ptr c)"
    "sel (leaves (AInner a ty pf ch)) = sel (leaves c)"
    using pick_child [OF AInner.prems(1,2)] by blast
  have ty: "ty \<noteq> LeafKind" using AInner.prems(2) by simp
  have "represents N hp c" "height c < f"
    using AInner.prems(1,3) n(2) height_child [OF n(2), of a ty pf] f by auto
  then obtain dp where "find_extreme_to_delete pick f hp par (Some (Ptr ty a, b)) (root_ptr c) = Ret dp"
    "leads_to par (Some (Ptr ty a, b)) c (as_bytes (fst (snd (sel (leaves c))))) dp"
    using AInner.IH [OF n(2) _ wf_child [OF AInner.prems(2) n(2)]] by blast
  then show ?case
    using n ty leads_to.below [OF n(2)] by (auto simp: f simp del: leaves.simps)
qed

lemma find_extreme_holds:
  assumes h: "holds N hp t" and w: "wf_art [] t"
  shows "\<exists>dp. find_extreme_to_delete pick (Suc (next_addr hp)) hp None None (root_ptr t) = Ret dp
    \<and> leads_to None None t (as_bytes (fst (snd (sel (leaves t))))) dp"
proof -
  have "represents N hp t" "height t < Suc (next_addr hp)"
    using h holds_height [OF h] by (simp_all add: holds_def)
  then show ?thesis by (intro find_extreme_spec [OF _ w])
qed

end

interpretation low: extreme inner_min "hd :: _ \<Rightarrow> nat \<times> 'k key \<times> 'v"
proof unfold_locales
  fix N path a ty pf
  fix hp :: "('k, 'v) heap" and ch :: "(byte \<times> ('k, 'v) art) list"
  assume *: "represents N hp (AInner a ty pf ch)" "wf_art path (AInner a ty pf ch)"
  obtain n b t ch' where n: "read_inner hp (Ptr ty a) = Ret n" "ch = (b, t) # ch'" "inner_min n = Ret (b, root_ptr t)"
    using first_child [OF *] by metis
  then have "leaves t \<noteq> []" using leaves_ne [OF wf_child [OF *(2)]] by (metis list.set_intros(1))
  then show "\<exists>n b c. read_inner hp (Ptr ty a) = Ret n \<and> (b, c) \<in> set ch \<and> inner_min n = Ret (b, root_ptr c)
        \<and> hd (leaves (AInner a ty pf ch)) = hd (leaves c)"
    using n by (intro exI [of _ n] exI [of _ b] exI [of _ t]) simp
qed simp

interpretation high: extreme inner_max "last :: _ \<Rightarrow> nat \<times> 'k key \<times> 'v"
proof unfold_locales
  fix N path a ty pf
  fix hp :: "('k, 'v) heap" and ch :: "(byte \<times> ('k, 'v) art) list"
  assume *: "represents N hp (AInner a ty pf ch)" "wf_art path (AInner a ty pf ch)"
  obtain n b t ch' where n: "read_inner hp (Ptr ty a) = Ret n" "ch = ch' @ [(b, t)]" "inner_max n = Ret (b, root_ptr t)"
    using last_child [OF *] by metis
  then have "leaves t \<noteq> []" using leaves_ne [OF wf_child [OF *(2)]] by (metis in_set_conv_decomp)
  then show "\<exists>n b c. read_inner hp (Ptr ty a) = Ret n \<and> (b, c) \<in> set ch \<and> inner_max n = Ret (b, root_ptr c)
        \<and> last (leaves (AInner a ty pf ch)) = last (leaves c)"
    using n by (intro exI [of _ n] exI [of _ b] exI [of _ t]) simp
qed simp

lemma find_minimum_to_delete_spec:
  "holds N hp t \<Longrightarrow> wf_art [] t \<Longrightarrow> \<exists>dp. find_minimum_to_delete hp (root_ptr t) = Ret dp
    \<and> leads_to None None t (as_bytes (fst (hd (entries t)))) dp"
  using low.find_extreme_holds [of N hp t] leaves_ne [of "[]" t]
  by (simp add: find_minimum_to_delete_def entries_def hd_map)

lemma find_maximum_to_delete_spec:
  "holds N hp t \<Longrightarrow> wf_art [] t \<Longrightarrow> \<exists>dp. find_maximum_to_delete hp (root_ptr t) = Ret dp
    \<and> leads_to None None t (as_bytes (fst (last (entries t)))) dp"
  using high.find_extreme_holds [of N hp t] leaves_ne [of "[]" t]
  by (simp add: find_maximum_to_delete_def entries_def last_map)

end
