(* ===== verification/Tree_Map.thy ===== *)
theory Tree_Map
  imports Delete
begin

text \<open>
  The map (\<open>src/src/collections/map.rs\<close>): the root pointer and the number of entries, and the
  operations of the public interface on them; \<open>deallocate_tree\<close> from
  \<open>src/src/nodes/operations.rs\<close>.

  \<open>map_state\<close> relates a map and its heap to a tree: besides the tree itself it says that the
  rest of the heap is the given frame, so an operation that keeps it neither leaks nor frees
  a foreign node.  The lemmas state each operation as one on the finite map from key bytes
  to entries.
\<close>

section \<open>State and operations\<close>

record treemap =
  num_entries :: nat
  map_root :: "node_ptr option"

definition with_prefix_len :: treemap where
  "with_prefix_len = \<lparr>num_entries = 0, map_root = None\<rparr>"

fun deallocate_from :: "nat \<Rightarrow> ('k, 'v) heap \<Rightarrow> node_ptr list \<Rightarrow> ('k, 'v) heap outcome" where
  \<comment> \<open>the head of the list is the top of the stack\<close>
  "deallocate_from 0 hp stack = NoFuel"
| "deallocate_from (Suc fuel) hp stack =
     (case stack of [] \<Rightarrow> Ret hp
      | next_node_ptr # stack \<Rightarrow>
          if ptr_type next_node_ptr = LeafKind then
            and_then (dealloc_leaf hp next_node_ptr) (\<lambda>(_, hp). deallocate_from fuel hp stack)
          else
            and_then (read_inner hp next_node_ptr) (\<lambda>inner_node.
            and_then (inner_iter inner_node) (\<lambda>children.
            and_then (dealloc_inner hp next_node_ptr) (\<lambda>hp.
            deallocate_from fuel hp (rev (map snd children) @ stack)))))"

definition deallocate_tree :: "('k, 'v) heap \<Rightarrow> node_ptr \<Rightarrow> ('k, 'v) heap outcome" where
  "deallocate_tree hp root = deallocate_from (Suc (next_addr hp)) hp [root]"

definition clear :: "('k, 'v) heap \<Rightarrow> treemap \<Rightarrow> (treemap \<times> ('k, 'v) heap) outcome" where
  "clear hp m =
     (case map_root m of
        Some root \<Rightarrow>
          and_then (deallocate_tree hp root) (\<lambda>hp. Ret (m\<lparr>num_entries := 0, map_root := None\<rparr>, hp))
      | None \<Rightarrow> Ret (m, hp))"

definition get_key_value :: "('k, 'v) heap \<Rightarrow> treemap \<Rightarrow> bytes \<Rightarrow> ('k key \<times> 'v) option outcome" where
  "get_key_value hp m key =
     (case map_root m of
        Some root \<Rightarrow>
          and_then (search_unchecked hp root key) (\<lambda>search_result.
          case search_result of None \<Rightarrow> Ret None
          | Some p \<Rightarrow> and_then (read_leaf hp p) (\<lambda>l. Ret (Some (leaf_key l, leaf_value l))))
      | None \<Rightarrow> Ret None)"

definition get :: "('k, 'v) heap \<Rightarrow> treemap \<Rightarrow> bytes \<Rightarrow> 'v option outcome" where
  "get hp m key = and_then (get_key_value hp m key) (\<lambda>r. Ret (map_option snd r))"

definition get_mut :: "('k, 'v) heap \<Rightarrow> treemap \<Rightarrow> bytes \<Rightarrow> node_ptr option outcome" where
  \<comment> \<open>the reference to the value is the pointer to its leaf\<close>
  "get_mut hp m key =
     (case map_root m of
        Some root \<Rightarrow>
          and_then (search_unchecked hp root key) (\<lambda>search_result.
          case search_result of None \<Rightarrow> Ret None
          | Some p \<Rightarrow> and_then (read_leaf hp p) (\<lambda>_. Ret (Some p)))
      | None \<Rightarrow> Ret None)"

definition write_value :: "('k, 'v) heap \<Rightarrow> node_ptr \<Rightarrow> 'v \<Rightarrow> ('k, 'v) heap outcome" where
  \<comment> \<open>an assignment through the reference that \<open>value_mut\<close> returns\<close>
  "write_value hp p v = and_then (read_leaf hp p) (\<lambda>l. write_leaf hp p (l\<lparr>leaf_value := v\<rparr>))"

definition contains_key :: "('k, 'v) heap \<Rightarrow> treemap \<Rightarrow> bytes \<Rightarrow> bool outcome" where
  "contains_key hp m key = and_then (get hp m key) (\<lambda>r. Ret (r \<noteq> None))"

definition index_map :: "('k, 'v) heap \<Rightarrow> treemap \<Rightarrow> bytes \<Rightarrow> 'v outcome" where
  \<comment> \<open>\<open>Index::index\<close>\<close>
  "index_map hp m key = and_then (get hp m key) unwrap"

definition first_key_value :: "('k, 'v) heap \<Rightarrow> treemap \<Rightarrow> ('k key \<times> 'v) option outcome" where
  "first_key_value hp m =
     (case map_root m of
        Some root \<Rightarrow>
          and_then (minimum_unchecked (Suc (next_addr hp)) hp root) (\<lambda>minimum.
          and_then (read_leaf hp minimum) (\<lambda>l. Ret (Some (leaf_key l, leaf_value l))))
      | None \<Rightarrow> Ret None)"

definition last_key_value :: "('k, 'v) heap \<Rightarrow> treemap \<Rightarrow> ('k key \<times> 'v) option outcome" where
  "last_key_value hp m =
     (case map_root m of
        Some root \<Rightarrow>
          and_then (maximum_unchecked (Suc (next_addr hp)) hp root) (\<lambda>maximum.
          and_then (read_leaf hp maximum) (\<lambda>l. Ret (Some (leaf_key l, leaf_value l))))
      | None \<Rightarrow> Ret None)"

definition init_tree :: "('k, 'v) heap \<Rightarrow> treemap \<Rightarrow> 'k key \<Rightarrow> 'v \<Rightarrow> node_ptr \<times> treemap \<times> ('k, 'v) heap" where
  "init_tree hp m key v =
     (let (leaf, hp) = alloc_leaf hp \<lparr>leaf_key = key, leaf_value = v\<rparr> in
      (leaf, m\<lparr>map_root := Some leaf, num_entries := 1\<rparr>, hp))"

definition apply_insert_point ::
    "nat \<Rightarrow> ('k, 'v) heap \<Rightarrow> treemap \<Rightarrow> insert_point \<Rightarrow> 'k key \<Rightarrow> 'v
      \<Rightarrow> (('k, 'v) insert_result \<times> treemap \<times> ('k, 'v) heap) outcome" where
  "apply_insert_point PREFIX_LEN hp m point key v =
     and_then (insert_apply PREFIX_LEN hp point key v) (\<lambda>(insert_result, hp).
     let m = m\<lparr>map_root := Some (ir_new_root insert_result)\<rparr>;
         m = (if existing_leaf insert_result = None then m\<lparr>num_entries := num_entries m + 1\<rparr> else m) in
     Ret (insert_result, m, hp))"

definition apply_delete_point ::
    "('k, 'v) heap \<Rightarrow> treemap \<Rightarrow> delete_point \<Rightarrow> (('k, 'v) delete_result \<times> treemap \<times> ('k, 'v) heap) outcome" where
  "apply_delete_point hp m point =
     and_then (unwrap_unchecked (map_root m)) (\<lambda>root.
     and_then (delete_apply hp point root) (\<lambda>(delete_result, hp).
     let m = m\<lparr>map_root := dr_new_root delete_result\<rparr> in
     if num_entries m = 0 then Panic
     else Ret (delete_result, m\<lparr>num_entries := num_entries m - 1\<rparr>, hp)))"

definition try_insert ::
    "nat \<Rightarrow> ('k, 'v) heap \<Rightarrow> treemap \<Rightarrow> 'k key \<Rightarrow> 'v
      \<Rightarrow> ((insert_prefix_error + 'v option) \<times> treemap \<times> ('k, 'v) heap) outcome" where
  "try_insert PREFIX_LEN hp m key v =
     (case map_root m of
        Some root \<Rightarrow>
          and_then (search_for_insert_point hp root (as_bytes key)) (\<lambda>r.
          case r of Inl e \<Rightarrow> Ret (Inl e, m, hp)
          | Inr point \<Rightarrow>
              and_then (apply_insert_point PREFIX_LEN hp m point key v) (\<lambda>(insert_result, m, hp).
              Ret (Inr (map_option leaf_value (existing_leaf insert_result)), m, hp)))
      | None \<Rightarrow> (case init_tree hp m key v of (_, m, hp) \<Rightarrow> Ret (Inr None, m, hp)))"

definition insert_map ::
    "nat \<Rightarrow> ('k, 'v) heap \<Rightarrow> treemap \<Rightarrow> 'k key \<Rightarrow> 'v \<Rightarrow> ('v option \<times> treemap \<times> ('k, 'v) heap) outcome" where
  \<comment> \<open>\<open>TreeMap::insert\<close>, for keys with the marker \<open>NoPrefixesBytes\<close>\<close>
  "insert_map PREFIX_LEN hp m key v =
     and_then (try_insert PREFIX_LEN hp m key v) (\<lambda>(r, m, hp).
     case r of Inl _ \<Rightarrow> UB | Inr old \<Rightarrow> Ret (old, m, hp))"

definition pop_with ::
    "('k, 'v) heap \<Rightarrow> treemap \<Rightarrow> delete_point \<Rightarrow> (('k key \<times> 'v) option \<times> treemap \<times> ('k, 'v) heap) outcome" where
  \<comment> \<open>the common end of the removals: apply the point, return the entry of the leaf\<close>
  "pop_with hp m point =
     and_then (apply_delete_point hp m point) (\<lambda>(delete_result, m, hp).
     Ret (Some (leaf_key (deleted_leaf delete_result), leaf_value (deleted_leaf delete_result)), m, hp))"

definition pop_first ::
    "('k, 'v) heap \<Rightarrow> treemap \<Rightarrow> (('k key \<times> 'v) option \<times> treemap \<times> ('k, 'v) heap) outcome" where
  "pop_first hp m =
     (case map_root m of
        Some root \<Rightarrow> and_then (find_minimum_to_delete hp root) (pop_with hp m)
      | None \<Rightarrow> Ret (None, m, hp))"

definition pop_last ::
    "('k, 'v) heap \<Rightarrow> treemap \<Rightarrow> (('k key \<times> 'v) option \<times> treemap \<times> ('k, 'v) heap) outcome" where
  "pop_last hp m =
     (case map_root m of
        Some root \<Rightarrow> and_then (find_maximum_to_delete hp root) (pop_with hp m)
      | None \<Rightarrow> Ret (None, m, hp))"

definition remove_entry ::
    "('k, 'v) heap \<Rightarrow> treemap \<Rightarrow> bytes \<Rightarrow> (('k key \<times> 'v) option \<times> treemap \<times> ('k, 'v) heap) outcome" where
  "remove_entry hp m key =
     (case map_root m of
        Some root \<Rightarrow>
          and_then (search_for_delete_point hp root key) (\<lambda>r.
          case r of None \<Rightarrow> Ret (None, m, hp) | Some point \<Rightarrow> pop_with hp m point)
      | None \<Rightarrow> Ret (None, m, hp))"

definition remove_map ::
    "('k, 'v) heap \<Rightarrow> treemap \<Rightarrow> bytes \<Rightarrow> ('v option \<times> treemap \<times> ('k, 'v) heap) outcome" where
  \<comment> \<open>\<open>TreeMap::remove\<close>\<close>
  "remove_map hp m key =
     and_then (remove_entry hp m key) (\<lambda>(r, m, hp). Ret (map_option snd r, m, hp))"

definition len_map :: "treemap \<Rightarrow> nat" where
  \<comment> \<open>\<open>TreeMap::len\<close>\<close>
  "len_map m = num_entries m"

definition is_empty :: "treemap \<Rightarrow> bool" where
  "is_empty m \<longleftrightarrow> num_entries m = 0"

fun extend_map ::
    "nat \<Rightarrow> ('k, 'v) heap \<Rightarrow> treemap \<Rightarrow> ('k key \<times> 'v) list \<Rightarrow> (treemap \<times> ('k, 'v) heap) outcome" where
  \<comment> \<open>\<open>Extend::extend\<close>, of references to copyable entries and of entries\<close>
  "extend_map PREFIX_LEN hp m [] = Ret (m, hp)"
| "extend_map PREFIX_LEN hp m ((key, v) # rest) =
     and_then (insert_map PREFIX_LEN hp m key v) (\<lambda>(_, m, hp). extend_map PREFIX_LEN hp m rest)"

definition from_iter ::
    "nat \<Rightarrow> ('k, 'v) heap \<Rightarrow> ('k key \<times> 'v) list \<Rightarrow> (treemap \<times> ('k, 'v) heap) outcome" where
  \<comment> \<open>\<open>From::from\<close> of an array and \<open>FromIterator::from_iter\<close>\<close>
  "from_iter PREFIX_LEN hp items = extend_map PREFIX_LEN hp with_prefix_len items"

section \<open>The abstract value\<close>

definition opt_addrs :: "('k, 'v) art option \<Rightarrow> nat set" where
  "opt_addrs T = (case T of None \<Rightarrow> {} | Some t \<Rightarrow> set (addrs t))"

definition opt_map :: "('k, 'v) art option \<Rightarrow> bytes \<Rightarrow> ('k key \<times> 'v) option" where
  "opt_map T = (case T of None \<Rightarrow> Map.empty | Some t \<Rightarrow> tree_map t)"

definition opt_entries :: "('k, 'v) art option \<Rightarrow> ('k key \<times> 'v) list" where
  "opt_entries T = (case T of None \<Rightarrow> [] | Some t \<Rightarrow> entries t)"

definition map_state ::
    "nat \<Rightarrow> (nat \<Rightarrow> ('k, 'v) cell option) \<Rightarrow> treemap \<Rightarrow> ('k, 'v) heap \<Rightarrow> ('k, 'v) art option \<Rightarrow> bool" where
  "map_state N frame m hp T \<longleftrightarrow>
     (case T of None \<Rightarrow> map_root m = None
      | Some t \<Rightarrow> map_root m = Some (root_ptr t) \<and> wf_art [] t \<and> holds N hp t)
     \<and> num_entries m = length (opt_entries T)
     \<and> (\<forall>a. a \<notin> opt_addrs T \<longrightarrow> cells hp a = frame a)
     \<and> (\<forall>a. frame a \<noteq> None \<longrightarrow> a < next_addr hp \<and> a \<notin> opt_addrs T)"

lemma opt_simps [simp]:
  "opt_addrs None = {}" "opt_addrs (Some t) = set (addrs t)"
  "opt_map None = Map.empty" "opt_map (Some t) = tree_map t"
  "opt_entries None = []" "opt_entries (Some t) = entries t"
  by (simp_all add: opt_addrs_def opt_map_def opt_entries_def)

text \<open>The number of entries is the number of keys.\<close>

lemma card_dom_tree_map:
  assumes "wf_art path t"
  shows "length (entries t) = card (dom (tree_map t))" "finite (dom (tree_map t))"
proof -
  let ?xs = "map (\<lambda>(k, v). (as_bytes k, (k, v))) (entries t)"
  have eq: "map fst ?xs = map (as_bytes \<circ> fst) (entries t)" by auto
  have "distinct (map fst ?xs)"
    unfolding eq using key_bytes_strict [OF assms] strict_sorted_iff by blast
  then have "card (set (map fst ?xs)) = length (map fst ?xs)" by (rule distinct_card)
  moreover have "dom (tree_map t) = set (map fst ?xs)"
    unfolding tree_map_def dom_map_of_conv_image_fst list.set_map ..
  ultimately show "length (entries t) = card (dom (tree_map t))" "finite (dom (tree_map t))"
    by (simp_all only: length_map List.finite_set)
qed

lemma opt_map_entries:
  "map_state N fr m hp T \<Longrightarrow> opt_map T kb = Some e \<longleftrightarrow> e \<in> set (opt_entries T) \<and> as_bytes (fst e) = kb"
  by (cases T) (auto simp: map_state_def tree_map_eq)

text \<open>A map follows its tree.\<close>

lemma map_state_becomes:
  assumes m: "map_state N fr m hp (Some t)" and b: "becomes N hp t hp' t'" and w: "wf_art [] t'"
    and n: "num_entries m' = length (entries t')" and r: "map_root m' = Some (root_ptr t')"
  shows "map_state N fr m' hp' (Some t')"
proof -
  have fr: "fr a \<noteq> None \<Longrightarrow> a < next_addr hp \<and> a \<notin> set (addrs t)" "a \<notin> set (addrs t) \<Longrightarrow> cells hp a = fr a" for a
    using m unfolding map_state_def by auto
  have "cells hp' a = fr a" if "a \<notin> set (addrs t')" for a
  proof (cases "a \<in> set (addrs t)")
    case True
    then show ?thesis using b that fr(1) [of a] by (cases "fr a") (auto simp: becomes_def)
  next
    case False
    then show ?thesis using b that fr(2) [of a] by (auto simp: becomes_def)
  qed
  moreover have "a < next_addr hp' \<and> a \<notin> set (addrs t')" if "fr a \<noteq> None" for a
    using fr(1) [OF that] becomes_frame(2) [OF b, of a] b by (auto simp: becomes_def)
  moreover have "holds N hp' t'" using b by (simp add: becomes_def)
  ultimately show ?thesis
    using w n r unfolding map_state_def opt_simps option.case by blast
qed

section \<open>Queries\<close>

lemma map_state_new: "map_state N Map.empty with_prefix_len empty_heap None"
  by (simp add: map_state_def with_prefix_len_def empty_heap_def)

lemma represents_live: "represents N hp t \<Longrightarrow> a \<in> set (addrs t) \<Longrightarrow> cells hp a \<noteq> None"
  by (induction t) auto

lemma map_state_live:
  "map_state N fr m hp T \<Longrightarrow> a \<in> opt_addrs T \<Longrightarrow> cells hp a \<noteq> None \<and> a < next_addr hp"
  by (cases T) (auto simp: map_state_def holds_def dest: represents_live)

lemma map_state_bound: "map_state N fr m hp T \<Longrightarrow> cells hp a \<noteq> None \<Longrightarrow> a < next_addr hp"
  using map_state_live [of N fr m hp T a] by (cases "a \<in> opt_addrs T") (auto simp: map_state_def)

lemma read_leaf_of:
  assumes "holds N hp t" "(a, k, v) \<in> set (leaves t)"
  shows "read_leaf hp (Ptr LeafKind a) = Ret \<lparr>leaf_key = k, leaf_value = v\<rparr>"
proof -
  have "represents N hp u \<Longrightarrow> (a, k, v) \<in> set (leaves u) \<Longrightarrow>
      cells hp a = Some (LeafCell \<lparr>leaf_key = k, leaf_value = v\<rparr>)" for u
    by (induction u) auto
  from this [of t] show ?thesis using assms by (simp add: holds_def read_leaf_def)
qed

lemma read_leaf_at:
  "holds N hp t \<Longrightarrow> wf_art [] t \<Longrightarrow> leaf_at t kb = Some (a, k, v) \<Longrightarrow>
    read_leaf hp (Ptr LeafKind a) = Ret \<lparr>leaf_key = k, leaf_value = v\<rparr>"
  by (rule read_leaf_of) (auto simp: leaf_at_eq)

lemma search_map:
  assumes "map_state N fr m hp (Some t)"
  shows "search_unchecked hp (root_ptr t) key = Ret (map_option (\<lambda>(a, _). Ptr LeafKind a) (leaf_at t key))"
    "leaf_at t key = Some (a, k, v) \<Longrightarrow> read_leaf hp (Ptr LeafKind a) = Ret \<lparr>leaf_key = k, leaf_value = v\<rparr>"
  using assms search_unchecked_spec [of N hp t key] read_leaf_at [of N hp t key a k v]
  by (auto simp: map_state_def)

lemma get_key_value_spec:
  "map_state N fr m hp T \<Longrightarrow> get_key_value hp m key = Ret (opt_map T key)"
proof (cases T)
  case (Some t)
  assume m: "map_state N fr m hp T"
  then have "map_root m = Some (root_ptr t)" by (simp add: map_state_def Some)
  then show ?thesis
    using search_map [of N fr m hp t key] m
    by (cases "leaf_at t key") (auto simp: get_key_value_def Some tree_map_leaf_at)
qed (simp add: map_state_def get_key_value_def)

lemma get_spec: "map_state N fr m hp T \<Longrightarrow> get hp m key = Ret (map_option snd (opt_map T key))"
  by (simp add: get_def get_key_value_spec)

lemma contains_key_spec: "map_state N fr m hp T \<Longrightarrow> contains_key hp m key = Ret (key \<in> dom (opt_map T))"
  by (auto simp: contains_key_def get_spec dom_def)

lemma index_map_spec:
  "map_state N fr m hp T \<Longrightarrow> index_map hp m key = (case opt_map T key of None \<Rightarrow> Panic | Some e \<Rightarrow> Ret (snd e))"
  by (auto simp: index_map_def get_spec unwrap_def split: option.split)

lemma first_key_value_spec:
  assumes m: "map_state N fr m hp T"
  shows "first_key_value hp m = Ret (if opt_entries T = [] then None else Some (hd (opt_entries T)))"
proof (cases T)
  case (Some t)
  then have h: "holds N hp t" "wf_art [] t" "map_root m = Some (root_ptr t)" using m by (auto simp: map_state_def)
  have ne: "leaves t \<noteq> []" by (rule leaves_ne [OF h(2)])
  obtain a k v where l: "hd (leaves t) = (a, k, v)" by (cases "hd (leaves t)")
  then have "(a, k, v) \<in> set (leaves t)" using ne hd_in_set by metis
  then have "read_leaf hp (Ptr LeafKind a) = Ret \<lparr>leaf_key = k, leaf_value = v\<rparr>" by (rule read_leaf_of [OF h(1)])
  moreover have "minimum_unchecked (Suc (next_addr hp)) hp (root_ptr t) = Ret (Ptr LeafKind a)"
    using minimum_from_spec [OF _ h(2), of N hp "Suc (next_addr hp)"] h(1) holds_height [OF h(1)] l
    by (simp add: holds_def del: minimum_unchecked.simps)
  ultimately show ?thesis
    using h(3) ne l by (simp add: first_key_value_def Some entries_def hd_map del: minimum_unchecked.simps)
qed (use m in \<open>simp add: map_state_def first_key_value_def\<close>)

lemma last_key_value_spec:
  assumes m: "map_state N fr m hp T"
  shows "last_key_value hp m = Ret (if opt_entries T = [] then None else Some (last (opt_entries T)))"
proof (cases T)
  case (Some t)
  then have h: "holds N hp t" "wf_art [] t" "map_root m = Some (root_ptr t)" using m by (auto simp: map_state_def)
  have ne: "leaves t \<noteq> []" by (rule leaves_ne [OF h(2)])
  obtain a k v where l: "last (leaves t) = (a, k, v)" by (cases "last (leaves t)")
  then have "(a, k, v) \<in> set (leaves t)" using ne last_in_set by metis
  then have "read_leaf hp (Ptr LeafKind a) = Ret \<lparr>leaf_key = k, leaf_value = v\<rparr>" by (rule read_leaf_of [OF h(1)])
  moreover have "maximum_unchecked (Suc (next_addr hp)) hp (root_ptr t) = Ret (Ptr LeafKind a)"
    using maximum_from_spec [OF _ h(2), of N hp "Suc (next_addr hp)"] h(1) holds_height [OF h(1)] l
    by (simp add: holds_def del: maximum_unchecked.simps)
  ultimately show ?thesis
    using h(3) ne l by (simp add: last_key_value_def Some entries_def last_map del: maximum_unchecked.simps)
qed (use m in \<open>simp add: map_state_def last_key_value_def\<close>)

section \<open>Writing through a reference\<close>

fun set_leaf :: "nat \<Rightarrow> 'v \<Rightarrow> ('k, 'v) art \<Rightarrow> ('k, 'v) art" where
  "set_leaf a v (ALeaf a' k w) = ALeaf a' k (if a' = a then v else w)"
| "set_leaf a v (AInner a' ty pf ch) = AInner a' ty pf (map (map_prod id (set_leaf a v)) ch)"

lemma root_ptr_set_leaf [simp]: "root_ptr (set_leaf a v t) = root_ptr t"
  by (cases t) auto

lemma addrs_set_leaf [simp]: "addrs (set_leaf a v t) = addrs t"
proof (induction t)
  case (AInner a' ty pf ch)
  have "map (\<lambda>(b, t). addrs t) (map (map_prod id (set_leaf a v)) ch) = map (\<lambda>(b, t). addrs t) ch"
    using AInner.IH by auto
  then show ?case by (simp only: set_leaf.simps addrs.simps)
qed simp

lemma leaves_set_leaf:
  "leaves (set_leaf a v t) = map (\<lambda>(b, k, w). (b, k, if b = a then v else w)) (leaves t)"
proof (induction t)
  case (AInner a' ty pf ch)
  have "map (\<lambda>(b, t). leaves t) (map (map_prod id (set_leaf a v)) ch)
      = map (map (\<lambda>(b, k, w). (b, k, if b = a then v else w))) (map (\<lambda>(b, t). leaves t) ch)"
    using AInner.IH by auto
  then show ?case by (simp only: set_leaf.simps leaves.simps map_concat)
qed simp

lemma keys_set_leaf: "map fst (entries (set_leaf a v t)) = map fst (entries t)"
  by (auto simp: entries_def leaves_set_leaf split: prod.split)

lemma wf_set_leaf: "wf_art path (set_leaf a v t) = wf_art path t"
proof (induction t arbitrary: path)
  case (AInner a' ty pf ch)
  have "map fst (map (map_prod id (set_leaf a v)) ch) = map fst ch" by simp
  then show ?case using AInner.IH by (auto simp: comp_def)
qed simp

lemma set_leaf_idle: "a \<notin> set (addrs t) \<Longrightarrow> set_leaf a v t = t"
proof (induction t)
  case (AInner a' ty pf ch)
  then have "map (map_prod id (set_leaf a v)) ch = ch" by (intro map_idI) auto
  then show ?case by simp
qed simp

lemma child_of_addr:
  assumes "distinct (addrs (AInner a' ty pf ch))" "(b, t) \<in> set ch" "(c, u) \<in> set ch"
    and "a \<in> set (addrs t)" "a \<in> set (addrs u)"
  shows "u = t"
proof -
  obtain xs ys where ch: "ch = xs @ (b, t) # ys" using split_list [OF assms(2)] by blast
  define X Y where "X = concat (map (\<lambda>(b, t). addrs t) xs)" and "Y = concat (map (\<lambda>(b, t). addrs t) ys)"
  have d: "distinct (a' # X @ addrs t @ Y)" using assms(1) by (simp add: ch X_def Y_def)
  have "a \<notin> set X" "a \<notin> set Y" using d assms(4) by auto
  then have "(c, u) \<notin> set xs" "(c, u) \<notin> set ys" using assms(5) by (auto simp: X_def Y_def)
  then show ?thesis using assms(3) ch by auto
qed

lemma distinct_child: "distinct (addrs (AInner a' ty pf ch)) \<Longrightarrow> (b, t) \<in> set ch \<Longrightarrow> distinct (addrs t)"
  by (drule split_list) auto

lemma represents_set_leaf:
  assumes "represents N hp t" "distinct (addrs t)" "(a, k, w) \<in> set (leaves t)"
  shows "represents N (hp\<lparr>cells := (cells hp)(a \<mapsto> LeafCell \<lparr>leaf_key = k, leaf_value = v\<rparr>)\<rparr>) (set_leaf a v t)"
  using assms
proof (induction t)
  case (AInner a' ty pf ch)
  let ?hp = "hp\<lparr>cells := (cells hp)(a \<mapsto> LeafCell \<lparr>leaf_key = k, leaf_value = v\<rparr>)\<rparr>"
  obtain b t where t: "(b, t) \<in> set ch" "(a, k, w) \<in> set (leaves t)" using AInner.prems(3) by auto
  have at: "a \<in> set (addrs t)" by (rule leaves_addrs [OF t(2)])
  have "a \<noteq> a'" using AInner.prems(2) t(1) at by auto
  moreover have "represents N ?hp (set_leaf a v u)" if u: "(c, u) \<in> set ch" for c u
  proof (cases "a \<in> set (addrs u)")
    case False
    have "represents N hp u" using AInner.prems(1) u by auto
    then have "represents N ?hp u" using False by (elim represents_frame) auto
    then show ?thesis using False by (simp add: set_leaf_idle)
  next
    case True
    have du: "distinct (addrs u)" by (rule distinct_child [OF AInner.prems(2) u])
    have "u = t" by (rule child_of_addr [OF AInner.prems(2) t(1) u at True])
    have "represents N hp u" using AInner.prems(1) u by auto
    then show ?thesis using AInner.IH [OF u] du t(2) \<open>u = t\<close> by blast
  qed
  moreover have "child_ptrs (map (map_prod id (set_leaf a v)) ch) = child_ptrs ch"
    by (auto simp: child_ptrs_def)
  moreover have "cells ?hp a' = cells hp a'" using \<open>a \<noteq> a'\<close> by simp
  ultimately show ?case using AInner.prems(1) unfolding set_leaf.simps represents.simps by fastforce
qed simp

lemma becomes_set_leaf:
  assumes h: "holds N hp t" and l: "(a, k, w) \<in> set (leaves t)"
  shows "becomes N hp t (hp\<lparr>cells := (cells hp)(a \<mapsto> LeafCell \<lparr>leaf_key = k, leaf_value = v\<rparr>)\<rparr>) (set_leaf a v t)"
  using represents_set_leaf [of N hp t a k w v] h l leaves_addrs [OF l]
  by (auto simp: becomes_def holds_def)

lemma leaf_at_set_leaf:
  "leaf_at (set_leaf a v t) kb = map_option (\<lambda>(b, k, w). (b, k, if b = a then v else w)) (leaf_at t kb)"
proof -
  have "find (\<lambda>(a, k, v). as_bytes k = kb) (map (\<lambda>(b, k, w). (b, k, if b = a then v else w)) ls)
    = map_option (\<lambda>(b, k, w). (b, k, if b = a then v else w)) (find (\<lambda>(a, k, v). as_bytes k = kb) ls)"
    for ls :: "(nat \<times> 'a key \<times> 'b) list"
    by (induction ls) auto
  then show ?thesis by (simp only: leaf_at_def leaves_set_leaf)
qed

lemma tree_map_set_leaf:
  assumes h: "holds N hp t" and w: "wf_art [] t" and l: "(a, k, w0) \<in> set (leaves t)"
  shows "tree_map (set_leaf a v t) = (tree_map t)(as_bytes k \<mapsto> (k, v))"
proof
  fix kb
  show "tree_map (set_leaf a v t) kb = ((tree_map t)(as_bytes k \<mapsto> (k, v))) kb"
  proof (cases "kb = as_bytes k")
    case True
    then have "leaf_at t kb = Some (a, k, w0)" using leaf_at_eq [OF w] l by blast
    then show ?thesis using True by (simp add: tree_map_leaf_at leaf_at_set_leaf)
  next
    case False
    have "b \<noteq> a" if b: "leaf_at t kb = Some (b, k', w')" for b k' w'
    proof
      assume "b = a"
      then have "(a, k', w') \<in> set (leaves t)" "as_bytes k' = kb" using b leaf_at_eq [OF w] by auto
      then show False using read_leaf_of [OF h l] read_leaf_of [OF h, of a k' w'] False by simp
    qed
    then show ?thesis using False by (cases "leaf_at t kb") (auto simp: tree_map_leaf_at leaf_at_set_leaf)
  qed
qed

text \<open>\<open>p\<close> is a reference to the value \<open>v\<close> of the key \<open>k\<close> of the map.\<close>

definition value_at ::
    "nat \<Rightarrow> (nat \<Rightarrow> ('k, 'v) cell option) \<Rightarrow> treemap \<Rightarrow> ('k, 'v) heap \<Rightarrow> ('k, 'v) art option
      \<Rightarrow> node_ptr \<Rightarrow> 'k key \<Rightarrow> 'v \<Rightarrow> bool" where
  "value_at N frame m hp T p k v \<longleftrightarrow> map_state N frame m hp T \<and>
     (\<exists>t a. T = Some t \<and> p = Ptr LeafKind a \<and> (a, k, v) \<in> set (leaves t))"

lemma value_at_read:
  assumes "value_at N fr m hp T p k v"
  shows "read_leaf hp p = Ret \<lparr>leaf_key = k, leaf_value = v\<rparr>" "opt_map T (as_bytes k) = Some (k, v)"
    "map_state N fr m hp T"
proof -
  obtain t a where t: "T = Some t" "p = Ptr LeafKind a" "(a, k, v) \<in> set (leaves t)" "holds N hp t" "wf_art [] t"
    "map_state N fr m hp T"
    using assms by (auto simp: value_at_def map_state_def)
  show "read_leaf hp p = Ret \<lparr>leaf_key = k, leaf_value = v\<rparr>" using read_leaf_of [OF t(4,3)] t(2) by simp
  have "leaf_at t (as_bytes k) = Some (a, k, v)" using leaf_at_eq [OF t(5)] t(3) by blast
  then show "opt_map T (as_bytes k) = Some (k, v)" by (simp add: t(1) tree_map_leaf_at)
  show "map_state N fr m hp T" by (rule t(6))
qed

lemma value_at_write:
  fixes v :: 'v
  assumes "value_at N fr m hp T p k w"
  defines "T' \<equiv> map_option (set_leaf (ptr_addr p) v) T"
  shows "\<exists>hp'. write_value hp p v = Ret hp' \<and> value_at N fr m hp' T' p k v
    \<and> opt_map T' = (opt_map T)(as_bytes k \<mapsto> (k, v))"
proof -
  obtain t a where t: "T = Some t" "p = Ptr LeafKind a" "(a, k, w) \<in> set (leaves t)"
    and m: "map_state N fr m hp (Some t)"
    using assms by (auto simp: value_at_def)
  have h: "holds N hp t" "wf_art [] t" using m by (auto simp: map_state_def)
  let ?hp = "hp\<lparr>cells := (cells hp)(a \<mapsto> LeafCell \<lparr>leaf_key = k, leaf_value = v\<rparr>)\<rparr>"
  have "length (entries (set_leaf a v t)) = length (entries t)"
    using arg_cong [OF keys_set_leaf [of a v t], of length] by simp
  then have "map_state N fr m ?hp (Some (set_leaf a v t))"
    using m h by (intro map_state_becomes [OF m becomes_set_leaf [OF h(1) t(3)]])
      (simp_all add: wf_set_leaf map_state_def)
  moreover have "(a, k, v) \<in> set (leaves (set_leaf a v t))" using t(3) by (force simp: leaves_set_leaf)
  ultimately have "value_at N fr m ?hp (Some (set_leaf a v t)) p k v" by (simp add: value_at_def t(2))
  moreover have "write_value hp p v = Ret ?hp"
    by (simp add: write_value_def write_leaf_def t(2) read_leaf_of [OF h(1) t(3)])
  ultimately show ?thesis using tree_map_set_leaf [OF h t(3)] by (simp add: T'_def t(1,2))
qed

lemma search_value_at:
  assumes m: "map_state N fr m hp (Some t)" and e: "tree_map t key = Some (k, w)"
  obtains p where "search_unchecked hp (root_ptr t) key = Ret (Some p)" "value_at N fr m hp (Some t) p k w"
proof -
  have w: "wf_art [] t" using m by (simp add: map_state_def)
  obtain a where at: "leaf_at t key = Some (a, k, w)" using e by (auto simp: tree_map_leaf_at)
  then have "(a, k, w) \<in> set (leaves t)" using leaf_at_eq [OF w] by blast
  then have "search_unchecked hp (root_ptr t) key = Ret (Some (Ptr LeafKind a))"
    "value_at N fr m hp (Some t) (Ptr LeafKind a) k w"
    using search_map(1) [OF m, of key] at m by (simp_all add: value_at_def)
  then show thesis by (rule that)
qed

lemma get_mut_spec:
  assumes m: "map_state N fr m hp T"
  shows "case opt_map T key of None \<Rightarrow> get_mut hp m key = Ret None
    | Some (k, w) \<Rightarrow> \<exists>p. get_mut hp m key = Ret (Some p) \<and> value_at N fr m hp T p k w"
proof (cases T)
  case None
  then show ?thesis using m by (simp add: map_state_def get_mut_def)
next
  case (Some t)
  note m = m [unfolded Some]
  have r: "map_root m = Some (root_ptr t)" using m by (simp add: map_state_def)
  show ?thesis
  proof (cases "tree_map t key")
    case None
    then show ?thesis using search_map(1) [OF m, of key] r by (simp add: get_mut_def Some tree_map_leaf_at)
  next
    case e: (Some e)
    obtain k w where kw: "e = (k, w)" by (cases e)
    obtain p where "search_unchecked hp (root_ptr t) key = Ret (Some p)" "value_at N fr m hp (Some t) p k w"
      using search_value_at [OF m] e kw by metis
    then show ?thesis using e kw r value_at_read(1) by (fastforce simp: get_mut_def Some)
  qed
qed

section \<open>Insertion\<close>

lemma length_entries_insert:
  assumes "wf_art path t" "wf_art path t'" "tree_map t' = (tree_map t)(kb \<mapsto> e)"
  shows "length (entries t') = (if tree_map t kb = None then Suc (length (entries t)) else length (entries t))"
  using card_dom_tree_map [OF assms(1)] card_dom_tree_map [OF assms(2)]
  by (auto simp: assms(3) insert_absorb domIff)

lemma init_tree_spec:
  assumes m: "map_state N fr m hp None" and len: "length (as_bytes k) < 2 ^ 32"
  shows "\<exists>p m' hp' T'. init_tree hp m k v = (p, m', hp') \<and> value_at N fr m' hp' T' p k v
    \<and> opt_map T' = [as_bytes k \<mapsto> (k, v)]"
proof -
  let ?hp = "alloc hp (LeafCell \<lparr>leaf_key = k, leaf_value = v\<rparr>)" and ?t = "ALeaf (next_addr hp) k v"
  let ?m = "m\<lparr>map_root := Some (Ptr LeafKind (next_addr hp)), num_entries := 1\<rparr>"
  have fr: "fr a \<noteq> None \<Longrightarrow> a < next_addr hp" "cells hp a = fr a" for a
    using m by (simp_all add: map_state_def)
  have "fr (next_addr hp) = None" using fr(1) [of "next_addr hp"] by (cases "fr (next_addr hp)") auto
  then have "value_at N fr ?m ?hp (Some ?t) (Ptr LeafKind (next_addr hp)) k v"
    using fr len by (auto simp: value_at_def map_state_def holds_leaf_alloc less_SucI)
  moreover have "opt_map (Some ?t) = [as_bytes k \<mapsto> (k, v)]" by (auto simp: tree_map_Leaf)
  ultimately show ?thesis by (auto simp: init_tree_def alloc_leaf_def)
qed

text \<open>The point of a key in a tree, and its application.\<close>

lemma apply_insert_spec:
  assumes m: "map_state N fr m hp (Some t)" and len: "length (as_bytes k) < 2 ^ 32"
  shows "if \<exists>e\<in>set (entries t). conflicts (as_bytes k) (as_bytes (fst e))
    then search_for_insert_point hp (root_ptr t) (as_bytes k) = Ret (Inl (InsertPrefixError (as_bytes k)))
    else \<exists>ip r m' hp' T'. search_for_insert_point hp (root_ptr t) (as_bytes k) = Ret (Inr ip)
      \<and> apply_insert_point N hp m ip k v = Ret (r, m', hp')
      \<and> existing_leaf r = map_option (\<lambda>(k0, v0). \<lparr>leaf_key = k0, leaf_value = v0\<rparr>) (tree_map t (as_bytes k))
      \<and> value_at N fr m' hp' T' (ir_leaf_node_ptr r) k v \<and> opt_map T' = (tree_map t)(as_bytes k \<mapsto> (k, v))"
proof -
  have h: "holds N hp t" "wf_art [] t" "num_entries m = length (entries t)"
    using m by (auto simp: map_state_def)
  note ins = insert_root_spec [OF h(1,2) len, of v]
  note none = tree_insert_None [OF h(2), of k "as_bytes k" "next_addr hp" v]
  show ?thesis
  proof (cases "tree_insert (next_addr hp) k v (as_bytes k) t")
    case None
    then show ?thesis using ins none by simp
  next
    case t': (Some t')
    obtain ip hp' lp where ip: "search_for_insert_point hp (root_ptr t) (as_bytes k) = Ret (Inr ip)"
      "insert_apply N hp ip k v = Ret (\<lparr>ir_leaf_node_ptr = lp,
         existing_leaf = map_option (\<lambda>(k0, v0). \<lparr>leaf_key = k0, leaf_value = v0\<rparr>) (tree_map t (as_bytes k)),
         ir_new_root = root_ptr t'\<rparr>, hp')" "becomes N hp t hp' t'" "inserted_leaf lp k v t'"
      using ins t' by auto
    have w': "wf_art [] t'" using tree_insert_wf [OF h(2) _ len t'] by simp
    have tm: "tree_map t' = (tree_map t)(as_bytes k \<mapsto> (k, v))" using tree_insert_map [OF h(2) _ len t'] by simp
    let ?m = "(if tree_map t (as_bytes k) = None then m\<lparr>map_root := Some (root_ptr t'), num_entries := num_entries m + 1\<rparr>
       else m\<lparr>map_root := Some (root_ptr t')\<rparr>)"
    have "apply_insert_point N hp m ip k v = Ret (\<lparr>ir_leaf_node_ptr = lp,
         existing_leaf = map_option (\<lambda>(k0, v0). \<lparr>leaf_key = k0, leaf_value = v0\<rparr>) (tree_map t (as_bytes k)),
         ir_new_root = root_ptr t'\<rparr>, ?m, hp')"
      using ip(2) by (auto simp: apply_insert_point_def Let_def)
    moreover have "map_state N fr ?m hp' (Some t')"
      using length_entries_insert [OF h(2) w' tm] h(3)
      by (intro map_state_becomes [OF m ip(3) w']) auto
    then have "value_at N fr ?m hp' (Some t') lp k v"
      using ip(4) by (cases lp) (auto simp: value_at_def inserted_leaf_def)
    ultimately show ?thesis using none t' tm ip(1) by force
  qed
qed

lemma try_insert_spec:
  assumes m: "map_state N fr m hp T" and len: "length (as_bytes k) < 2 ^ 32"
  shows "if \<exists>e\<in>set (opt_entries T). conflicts (as_bytes k) (as_bytes (fst e))
    then try_insert N hp m k v = Ret (Inl (InsertPrefixError (as_bytes k)), m, hp)
    else \<exists>m' hp' T'. try_insert N hp m k v = Ret (Inr (map_option snd (opt_map T (as_bytes k))), m', hp')
      \<and> map_state N fr m' hp' T' \<and> opt_map T' = (opt_map T)(as_bytes k \<mapsto> (k, v))"
proof (cases T)
  case None
  then obtain p m' hp' T' where "init_tree hp m k v = (p, m', hp')" "value_at N fr m' hp' T' p k v"
    "opt_map T' = [as_bytes k \<mapsto> (k, v)]"
    using init_tree_spec [OF _ len] m by metis
  then show ?thesis using m value_at_read(3) by (fastforce simp: None try_insert_def map_state_def)
next
  case (Some t)
  then have r: "map_root m = Some (root_ptr t)" using m by (simp add: map_state_def)
  note spec = apply_insert_spec [OF m [unfolded Some] len, of v]
  show ?thesis
  proof (cases "\<exists>e\<in>set (entries t). conflicts (as_bytes k) (as_bytes (fst e))")
    case True
    then show ?thesis using spec r by (simp add: try_insert_def Some)
  next
    case False
    obtain ip res m' hp' T' where 1: "search_for_insert_point hp (root_ptr t) (as_bytes k) = Ret (Inr ip)"
      "apply_insert_point N hp m ip k v = Ret (res, m', hp')"
      "existing_leaf res = map_option (\<lambda>(k0, v0). \<lparr>leaf_key = k0, leaf_value = v0\<rparr>) (tree_map t (as_bytes k))"
      "value_at N fr m' hp' T' (ir_leaf_node_ptr res) k v" "opt_map T' = (tree_map t)(as_bytes k \<mapsto> (k, v))"
      using spec False by auto
    have "try_insert N hp m k v = Ret (Inr (map_option snd (tree_map t (as_bytes k))), m', hp')"
      using r 1(1-3) by (simp add: try_insert_def option.map_comp comp_def split_def)
    then show ?thesis using False 1(5) value_at_read(3) [OF 1(4)] by (simp add: Some) blast
  qed
qed

lemma insert_map_spec:
  assumes m: "map_state N fr m hp T" and len: "length (as_bytes k) < 2 ^ 32"
    and free: "\<forall>e\<in>set (opt_entries T). \<not> conflicts (as_bytes k) (as_bytes (fst e))"
  shows "\<exists>m' hp' T'. insert_map N hp m k v = Ret (map_option snd (opt_map T (as_bytes k)), m', hp')
      \<and> map_state N fr m' hp' T' \<and> opt_map T' = (opt_map T)(as_bytes k \<mapsto> (k, v))"
proof -
  obtain m' hp' T' where "try_insert N hp m k v = Ret (Inr (map_option snd (opt_map T (as_bytes k))), m', hp')"
      "map_state N fr m' hp' T'" "opt_map T' = (opt_map T)(as_bytes k \<mapsto> (k, v))"
    using try_insert_spec [OF m len, of v] free by auto
  then show ?thesis unfolding insert_map_def by fastforce
qed

text \<open>A list of keys none of which is a proper prefix of another can be inserted in any order.\<close>

definition prefix_free :: "bytes set \<Rightarrow> bool" where
  "prefix_free K \<longleftrightarrow> (\<forall>a\<in>K. \<forall>b\<in>K. \<not> conflicts a b)"

lemma opt_keys: "map_state N fr m hp T \<Longrightarrow> (\<lambda>e. as_bytes (fst e)) ` set (opt_entries T) = dom (opt_map T)"
  by (force simp: opt_map_entries dom_def image_iff)

lemma extend_map_spec:
  assumes "map_state N fr m hp T" "\<forall>(k, v)\<in>set xs. length (as_bytes k) < 2 ^ 32"
    and "prefix_free (dom (opt_map T) \<union> (\<lambda>(k, v). as_bytes k) ` set xs)"
  shows "\<exists>m' hp' T'. extend_map N hp m xs = Ret (m', hp') \<and> map_state N fr m' hp' T'
    \<and> opt_map T' = opt_map T ++ map_of (rev (map (\<lambda>(k, v). (as_bytes k, (k, v))) xs))"
  using assms
proof (induction xs arbitrary: m hp T)
  case Nil
  then show ?case by auto
next
  case (Cons x xs)
  obtain k v where x: "x = (k, v)" by (cases x)
  have "\<not> conflicts (as_bytes k) (as_bytes (fst e))" if "e \<in> set (opt_entries T)" for e
  proof -
    have "as_bytes (fst e) \<in> dom (opt_map T)" using that opt_keys [OF Cons.prems(1)] by blast
    then show ?thesis using Cons.prems(3) by (auto simp: prefix_free_def x)
  qed
  then obtain m1 hp1 T1 where 1: "insert_map N hp m k v = Ret (map_option snd (opt_map T (as_bytes k)), m1, hp1)"
      "map_state N fr m1 hp1 T1" "opt_map T1 = (opt_map T)(as_bytes k \<mapsto> (k, v))"
    using insert_map_spec [OF Cons.prems(1), of k v] Cons.prems(2) x by auto
  have "prefix_free (dom (opt_map T1) \<union> (\<lambda>(k, v). as_bytes k) ` set xs)"
    using Cons.prems(3) by (simp add: 1(3) x)
  then obtain m' hp' T' where "extend_map N hp1 m1 xs = Ret (m', hp')" "map_state N fr m' hp' T'"
    "opt_map T' = opt_map T1 ++ map_of (rev (map (\<lambda>(k, v). (as_bytes k, (k, v))) xs))"
    using Cons.IH [OF 1(2)] Cons.prems(2) by auto
  then show ?case
    using 1(1,3) by (intro exI [of _ m'] exI [of _ hp'] exI [of _ T']) (simp add: x)
qed

section \<open>Removal\<close>

lemma apply_delete_spec:
  assumes m: "map_state N fr m hp (Some t)" and l: "leads_to None None t kb dp"
  shows "\<exists>e m' hp' T'. tree_map t kb = Some e \<and> pop_with hp m dp = Ret (Some e, m', hp')
    \<and> map_state N fr m' hp' T' \<and> opt_map T' = (tree_map t)(kb := None)"
proof -
  have h: "holds N hp t" "wf_art [] t" "map_root m = Some (root_ptr t)" "num_entries m = length (entries t)"
    using m by (auto simp: map_state_def)
  obtain k v hp' where kv: "tree_map t kb = Some (k, v)"
    and d: "case tree_delete (next_addr hp) kb kb t of None \<Rightarrow> False
     | Some None \<Rightarrow> delete_apply hp dp (root_ptr t)
         = Ret (\<lparr>dr_new_root = None, deleted_leaf = \<lparr>leaf_key = k, leaf_value = v\<rparr>\<rparr>, hp')
         \<and> (\<exists>a. t = ALeaf a k v \<and> hp' = dealloc hp a)
     | Some (Some t') \<Rightarrow> delete_apply hp dp (root_ptr t)
         = Ret (\<lparr>dr_new_root = Some (root_ptr t'), deleted_leaf = \<lparr>leaf_key = k, leaf_value = v\<rparr>\<rparr>, hp')
         \<and> becomes N hp t hp' t'"
    using delete_root_spec [OF l h(1,2)] by blast
  have ne: "num_entries m \<noteq> 0" using h(4) leaves_ne [OF h(2)] by (simp add: entries_def)
  show ?thesis
  proof (cases "tree_delete (next_addr hp) kb kb t")
    case None
    then show ?thesis using d by simp
  next
    case (Some res)
    show ?thesis
    proof (cases res)
      case None
      then obtain a where a: "t = ALeaf a k v" "hp' = dealloc hp a"
        and del: "delete_apply hp dp (root_ptr t)
         = Ret (\<lparr>dr_new_root = None, deleted_leaf = \<lparr>leaf_key = k, leaf_value = v\<rparr>\<rparr>, hp')"
        using d Some by auto
      let ?m = "m\<lparr>map_root := None, num_entries := num_entries m - 1\<rparr>"
      have "pop_with hp m dp = Ret (Some (k, v), ?m, hp')"
        using del h(3) ne by (simp add: pop_with_def apply_delete_point_def unwrap_unchecked_def)
      moreover have "fr a = None" using m a(1) by (cases "fr a") (auto simp: map_state_def)
      then have "map_state N fr ?m hp' None"
        using m a by (auto simp: map_state_def)
      moreover have "(tree_map t)(kb := None) = Map.empty"
        using kv by (auto simp: a(1) tree_map_Leaf split: if_splits)
      ultimately show ?thesis using kv
        by (intro exI [of _ "(k, v)"] exI [of _ ?m] exI [of _ hp'] exI [of _ None]) simp
    next
      case t': (Some t')
      then have del: "delete_apply hp dp (root_ptr t)
         = Ret (\<lparr>dr_new_root = Some (root_ptr t'), deleted_leaf = \<lparr>leaf_key = k, leaf_value = v\<rparr>\<rparr>, hp')"
        and b: "becomes N hp t hp' t'" using d Some by auto
      have td: "tree_delete (next_addr hp) kb kb t = Some (Some t')" using Some t' by simp
      have t2: "wf_art [] t'" "tree_map t' = (tree_map t)(kb := None)"
        using tree_delete_map [OF h(2) _ td] by simp_all
      let ?m = "m\<lparr>map_root := Some (root_ptr t'), num_entries := num_entries m - 1\<rparr>"
      have "length (entries t') = length (entries t) - 1"
        using card_dom_tree_map [OF h(2)] card_dom_tree_map [OF t2(1)] kv by (simp add: t2(2) domIff)
      then have "map_state N fr ?m hp' (Some t')"
        using h(4) by (intro map_state_becomes [OF m b t2(1)]) simp_all
      moreover have "pop_with hp m dp = Ret (Some (k, v), ?m, hp')"
        using del h(3) ne by (simp add: pop_with_def apply_delete_point_def unwrap_unchecked_def)
      ultimately show ?thesis using kv t2(2)
        by (intro exI [of _ "(k, v)"] exI [of _ ?m] exI [of _ hp'] exI [of _ "Some t'"]) simp
    qed
  qed
qed

lemma remove_entry_spec:
  assumes m: "map_state N fr m hp T"
  shows "case opt_map T key of
      None \<Rightarrow> remove_entry hp m key = Ret (None, m, hp)
    | Some e \<Rightarrow> \<exists>m' hp' T'. remove_entry hp m key = Ret (Some e, m', hp') \<and> map_state N fr m' hp' T'
        \<and> opt_map T' = (opt_map T)(key := None)"
proof (cases T)
  case None
  then show ?thesis using m by (simp add: remove_entry_def map_state_def)
next
  case (Some t)
  then have h: "holds N hp t" "wf_art [] t" "map_root m = Some (root_ptr t)" using m by (auto simp: map_state_def)
  show ?thesis
  proof (cases "tree_map t key")
    case None
    then show ?thesis using search_for_delete_point_spec [OF h(1,2), of key] h(3) by (simp add: remove_entry_def Some)
  next
    case e: (Some e)
    obtain dp where dp: "search_for_delete_point hp (root_ptr t) key = Ret (Some dp)" "leads_to None None t key dp"
      using search_for_delete_point_spec [OF h(1,2), of key] e by auto
    show ?thesis
      using apply_delete_spec [OF m [unfolded Some] dp(2)] e dp(1) h(3) by (auto simp: remove_entry_def Some)
  qed
qed

lemma hd_entry:
  assumes w: "wf_art [] t"
  shows "tree_map t (as_bytes (fst (hd (entries t)))) = Some (hd (entries t))"
    "tree_map t (as_bytes (fst (last (entries t)))) = Some (last (entries t))"
proof -
  have "entries t \<noteq> []" using leaves_ne [OF w] by (simp add: entries_def)
  then show "tree_map t (as_bytes (fst (hd (entries t)))) = Some (hd (entries t))"
    "tree_map t (as_bytes (fst (last (entries t)))) = Some (last (entries t))"
    unfolding tree_map_eq [OF w] by simp_all
qed

lemma pop_first_spec:
  assumes m: "map_state N fr m hp T"
  shows "case opt_entries T of
      [] \<Rightarrow> pop_first hp m = Ret (None, m, hp)
    | e # _ \<Rightarrow> \<exists>m' hp' T'. pop_first hp m = Ret (Some e, m', hp') \<and> map_state N fr m' hp' T'
        \<and> opt_map T' = (opt_map T)(as_bytes (fst e) := None)"
proof (cases T)
  case None
  then show ?thesis using m by (simp add: pop_first_def map_state_def)
next
  case (Some t)
  then have h: "holds N hp t" "wf_art [] t" "map_root m = Some (root_ptr t)" using m by (auto simp: map_state_def)
  obtain e es where e: "entries t = e # es" using leaves_ne [OF h(2)] by (cases "entries t") (auto simp: entries_def)
  obtain dp where dp: "find_minimum_to_delete hp (root_ptr t) = Ret dp" "leads_to None None t (as_bytes (fst e)) dp"
    using find_minimum_to_delete_spec [OF h(1,2)] e by auto
  show ?thesis
    using apply_delete_spec [OF m [unfolded Some] dp(2)] hd_entry(1) [OF h(2)] e dp(1) h(3)
    by (auto simp: pop_first_def Some)
qed

lemma pop_last_spec:
  assumes m: "map_state N fr m hp T"
  shows "if opt_entries T = [] then pop_last hp m = Ret (None, m, hp)
    else \<exists>m' hp' T'. pop_last hp m = Ret (Some (last (opt_entries T)), m', hp') \<and> map_state N fr m' hp' T'
        \<and> opt_map T' = (opt_map T)(as_bytes (fst (last (opt_entries T))) := None)"
proof (cases T)
  case None
  then show ?thesis using m by (simp add: pop_last_def map_state_def)
next
  case (Some t)
  then have h: "holds N hp t" "wf_art [] t" "map_root m = Some (root_ptr t)" using m by (auto simp: map_state_def)
  have ne: "entries t \<noteq> []" using leaves_ne [OF h(2)] by (simp add: entries_def)
  obtain dp where dp: "find_maximum_to_delete hp (root_ptr t) = Ret dp"
    "leads_to None None t (as_bytes (fst (last (entries t)))) dp"
    using find_maximum_to_delete_spec [OF h(1,2)] by auto
  show ?thesis
    using apply_delete_spec [OF m [unfolded Some] dp(2)] hd_entry(2) [OF h(2)] ne dp(1) h(3)
    by (auto simp: pop_last_def Some)
qed

section \<open>Freeing the tree\<close>

lemma concat_rev:
  "set (concat (rev xss)) = set (concat xss)" "length (concat (rev xss)) = length (concat xss)"
  "distinct (concat (rev xss)) = distinct (concat xss)"
  by (induction xss) auto

lemma deallocate_from_spec:
  assumes "\<forall>t\<in>set ts. represents N hp t \<and> (\<exists>path. wf_art path t)" "distinct (concat (map addrs ts))"
    and "length (concat (map addrs ts)) < fuel"
  shows "deallocate_from fuel hp (map root_ptr ts)
    = Ret (hp\<lparr>cells := (\<lambda>a. if a \<in> set (concat (map addrs ts)) then None else cells hp a)\<rparr>)"
  using assms
proof (induction fuel arbitrary: hp ts)
  case (Suc fuel)
  show ?case
  proof (cases ts)
    case (Cons t ts')
    have rest: "represents N hp u \<and> (\<exists>path. wf_art path u)" if "u \<in> set ts'" for u
      using Suc.prems(1) that Cons by simp
    show ?thesis
    proof (cases t)
      case (ALeaf a k v)
      have "cells hp a = Some (LeafCell \<lparr>leaf_key = k, leaf_value = v\<rparr>)"
        using Suc.prems(1) Cons ALeaf by simp
      then have d: "dealloc_leaf hp (Ptr LeafKind a) = Ret (\<lparr>leaf_key = k, leaf_value = v\<rparr>, dealloc hp a)"
        by (rule dealloc_leaf_cell)
      have "represents N (dealloc hp a) u" if u: "u \<in> set ts'" for u
      proof (rule represents_frame [of N hp])
        have "a \<notin> set (addrs u)" using Suc.prems(2) u by (auto simp: Cons ALeaf)
        then show "cells (dealloc hp a) x = cells hp x" if "x \<in> set (addrs u)" for x using that by auto
      qed (use rest u in blast)
      then have "deallocate_from fuel (dealloc hp a) (map root_ptr ts') = Ret ((dealloc hp a)
          \<lparr>cells := (\<lambda>x. if x \<in> set (concat (map addrs ts')) then None else cells (dealloc hp a) x)\<rparr>)"
        using Suc.prems rest by (intro Suc.IH) (auto simp: Cons ALeaf)
      then show ?thesis by (auto simp: Cons ALeaf d dealloc_def fun_eq_iff)
    next
      case (AInner a ty pf ch)
      obtain path where r: "represents N hp (AInner a ty pf ch)" and w: "wf_art path (AInner a ty pf ch)"
        using Suc.prems(1) Cons AInner by auto
      obtain n where n: "read_inner hp (Ptr ty a) = Ret n" "node_ok N n ty pf (child_ptrs ch)" "ty \<noteq> LeafKind"
        using read_inner_Ret [OF r] by metis
      let ?us = "rev (map snd ch) @ ts'"
      have dis: "distinct (a # concat (map addrs ?us))" and eq: "set (concat (map addrs ts)) = insert a (set (concat (map addrs ?us)))"
        and len: "length (concat (map addrs ts)) = Suc (length (concat (map addrs ?us)))"
      proof -
        let ?C = "concat (map (\<lambda>(b, t). addrs t) ch)"
        have c: "map (\<lambda>(b, t). addrs t) ch = map addrs (map snd ch)" by auto
        have rv: "distinct (concat (map addrs (rev (map snd ch)))) \<longleftrightarrow> distinct ?C"
            "set (concat (map addrs (rev (map snd ch)))) = set ?C"
            "length (concat (map addrs (rev (map snd ch)))) = length ?C"
          unfolding c rev_map [symmetric] by (rule concat_rev)+
        have "distinct (a # ?C @ concat (map addrs ts'))" using Suc.prems(2) by (simp add: Cons AInner)
        then show "distinct (a # concat (map addrs ?us))" using rv by auto
        show "set (concat (map addrs ts)) = insert a (set (concat (map addrs ?us)))"
          using rv(2) by (simp add: Cons AInner)
        show "length (concat (map addrs ts)) = Suc (length (concat (map addrs ?us)))"
          using rv(3) by (simp add: Cons AInner)
      qed
      have "represents N (dealloc hp a) u \<and> (\<exists>path. wf_art path u)" if u: "u \<in> set ?us" for u
      proof
        have ru: "represents N hp u \<and> (\<exists>path. wf_art path u)"
        proof (cases "u \<in> set ts'")
          case False
          then obtain b where b: "(b, u) \<in> set ch" using u by auto
          then have "represents N hp u" using r by auto
          then show ?thesis using wf_child [OF w b] by blast
        qed (rule rest)
        then show "\<exists>path. wf_art path u" by blast
        have "a \<notin> set (addrs u)" using dis u by auto
        then have "cells (dealloc hp a) x = cells hp x" if "x \<in> set (addrs u)" for x
          using that by (metis fun_upd_apply heap_simps(3))
        then show "represents N (dealloc hp a) u" using ru represents_frame by blast
      qed
      then have "deallocate_from fuel (dealloc hp a) (map root_ptr ?us) = Ret ((dealloc hp a)
          \<lparr>cells := (\<lambda>x. if x \<in> set (concat (map addrs ?us)) then None else cells (dealloc hp a) x)\<rparr>)"
        using Suc.prems(3) dis len by (intro Suc.IH) (auto simp del: concat_append)
      moreover have "deallocate_from (Suc fuel) hp (map root_ptr ts) = deallocate_from fuel (dealloc hp a) (map root_ptr ?us)"
        using n by (simp add: Cons AInner node_okD(8) [OF n(2)] dealloc_inner_def child_ptrs_def rev_map comp_def)
      moreover have "(dealloc hp a)\<lparr>cells := (\<lambda>x. if x \<in> set (concat (map addrs ?us)) then None else cells (dealloc hp a) x)\<rparr>
          = hp\<lparr>cells := (\<lambda>x. if x \<in> set (concat (map addrs ts)) then None else cells hp x)\<rparr>"
        unfolding eq by (auto simp: dealloc_def fun_eq_iff)
      ultimately show ?thesis by simp
    qed
  qed simp
qed simp

lemma clear_spec:
  assumes m: "map_state N fr m hp T"
  shows "\<exists>m' hp'. clear hp m = Ret (m', hp') \<and> map_state N fr m' hp' None \<and> cells hp' = fr"
proof (cases T)
  case None
  then show ?thesis using m by (auto simp: clear_def map_state_def)
next
  case (Some t)
  then have h: "holds N hp t" "wf_art [] t" "map_root m = Some (root_ptr t)" using m by (auto simp: map_state_def)
  let ?hp = "hp\<lparr>cells := (\<lambda>a. if a \<in> set (addrs t) then None else cells hp a)\<rparr>"
  have "card (set (addrs t)) \<le> card {..<next_addr hp}"
    using h(1) by (intro card_mono) (auto simp: holds_def)
  then have "length (addrs t) \<le> next_addr hp" using h(1) by (simp add: holds_def distinct_card)
  then have "deallocate_tree hp (root_ptr t) = Ret ?hp"
    using deallocate_from_spec [of "[t]" N hp "Suc (next_addr hp)"] h
    by (auto simp: deallocate_tree_def holds_def simp del: deallocate_from.simps)
  moreover have fr: "cells ?hp = fr"
  proof
    fix a
    show "cells ?hp a = fr a"
      using m by (cases "fr a") (auto simp: map_state_def Some)
  qed
  moreover have "map_state N fr (m\<lparr>num_entries := 0, map_root := None\<rparr>) ?hp None"
    using m fr by (auto simp: map_state_def Some)
  ultimately show ?thesis using h(3) by (simp add: clear_def)
qed

section \<open>A concrete map\<close>

text \<open>A map with two entries below one node, with a frame cell that is not its own.\<close>

definition sample_node4 :: "node_ptr inner" where
  "sample_node4 = Inner4 \<lparr>c_header = \<lparr>h_num_children = 2, h_prefix_len = 1, h_prefix = [1, 0]\<rparr>,
     c_keys = [Some 2, Some 3, None, None],
     c_child_pointers = [Some (Ptr LeafKind 0), Some (Ptr LeafKind 1), None, None]\<rparr>"

definition sample_tree :: "(unit, nat) art" where
  "sample_tree = AInner 2 Node4 [1] [(2, ALeaf 0 (Key [1, 2] ()) 20), (3, ALeaf 1 (Key [1, 3] ()) 30)]"

definition sample_frame :: "nat \<Rightarrow> (unit, nat) cell option" where
  "sample_frame = [3 \<mapsto> LeafCell \<lparr>leaf_key = Key [9] (), leaf_value = 90\<rparr>]"

definition sample_heap :: "(unit, nat) heap" where
  "sample_heap = \<lparr>cells = sample_frame(0 \<mapsto> LeafCell \<lparr>leaf_key = Key [1, 2] (), leaf_value = 20\<rparr>,
     1 \<mapsto> LeafCell \<lparr>leaf_key = Key [1, 3] (), leaf_value = 30\<rparr>, 2 \<mapsto> InnerCell sample_node4), next_addr = 4\<rparr>"

definition sample_map :: treemap where
  "sample_map = \<lparr>num_entries = 2, map_root = Some (Ptr Node4 2)\<rparr>"

lemma sample_node_ok: "node_ok 2 sample_node4 Node4 [1] [(2, Ptr LeafKind 0), (3, Ptr LeafKind 1)]"
  by (simp add: node_ok_def sample_node4_def compressed_inv_def c_children_def header_repr_def num_children_def
      map_Some_the)

lemma sample_holds: "holds 2 sample_heap sample_tree"
  using sample_node_ok
  by (auto simp: holds_def sample_heap_def sample_tree_def child_ptrs_def)

lemma sample_wf: "wf_art [] sample_tree"
  by (simp add: sample_tree_def in_range_def)

lemma sample_entries: "entries sample_tree = [(Key [1, 2] (), 20), (Key [1, 3] (), 30)]"
  by (simp add: sample_tree_def entries_def)

lemma sample_state: "map_state 2 sample_frame sample_map sample_heap (Some sample_tree)"
  using sample_holds sample_wf sample_entries
  by (auto simp: map_state_def sample_map_def sample_frame_def sample_tree_def sample_heap_def)

section \<open>Properties of the map\<close>

lemma sample_opt_map:
  "opt_map (Some sample_tree) = [[1, 2] \<mapsto> (Key [1, 2] (), 20), [1, 3] \<mapsto> (Key [1, 3] (), 30)]"
  by (auto simp: tree_map_def sample_entries fun_eq_iff)

text \<open>
  C4. A lookup in a well-formed map returns, without panic or undefined behaviour, exactly the
  entry of the key in the abstract map: \<open>get_key_value\<close>, \<open>get\<close>, \<open>contains_key\<close> and the index
  operator, which panics exactly when the key is absent.
\<close>

theorem map_lookup:
  assumes "map_state N fr m hp T"
  shows "get_key_value hp m key = Ret (opt_map T key)
    \<and> get hp m key = Ret (map_option snd (opt_map T key))
    \<and> contains_key hp m key = Ret (key \<in> dom (opt_map T))
    \<and> index_map hp m key = (case opt_map T key of None \<Rightarrow> Panic | Some e \<Rightarrow> Ret (snd e))"
  using get_key_value_spec [OF assms] get_spec [OF assms] contains_key_spec [OF assms] index_map_spec [OF assms]
  by blast

theorem map_lookup_witness:
  "get sample_heap sample_map [1, 3] = Ret (Some 30) \<and> index_map sample_heap sample_map [1] = Panic"
  using map_lookup [OF sample_state, of "[1, 3]"] map_lookup [OF sample_state, of "[1]"]
  by (simp add: sample_opt_map del: opt_simps)

text \<open>
  C5. \<open>try_insert\<close> implements the update of the abstract map: when no key of the map is a proper
  prefix of the new key or the other way round, it returns the previous value of the key, the
  map then has the new entry and otherwise the entries it had, and the invariant holds again
  (the tree is well-formed, the count is right, nothing leaked and no foreign node is touched).
\<close>

theorem map_insert:
  assumes "map_state N fr m hp T" "length (as_bytes k) < 2 ^ 32"
    and "\<forall>e\<in>set (opt_entries T). \<not> conflicts (as_bytes k) (as_bytes (fst e))"
  shows "\<exists>m' hp' T'. try_insert N hp m k v = Ret (Inr (map_option snd (opt_map T (as_bytes k))), m', hp')
      \<and> map_state N fr m' hp' T' \<and> opt_map T' = (opt_map T)(as_bytes k \<mapsto> (k, v))
      \<and> len_map m' = card (dom (opt_map T'))"
proof -
  obtain m' hp' T' where 1: "try_insert N hp m k v = Ret (Inr (map_option snd (opt_map T (as_bytes k))), m', hp')"
      "map_state N fr m' hp' T'" "opt_map T' = (opt_map T)(as_bytes k \<mapsto> (k, v))"
    using try_insert_spec [OF assms(1,2), of v] assms(3) by auto
  moreover have "len_map m' = card (dom (opt_map T'))"
    using 1(2) card_dom_tree_map(1) by (cases T') (fastforce simp: map_state_def len_map_def)+
  ultimately show ?thesis by blast
qed

theorem map_insert_witness:
  "\<exists>m' hp' T'. try_insert 2 sample_heap sample_map (Key [1, 4, 4] ()) 40 = Ret (Inr None, m', hp')
      \<and> map_state 2 sample_frame m' hp' T' \<and> opt_map T' [1, 4, 4] = Some (Key [1, 4, 4] (), 40)"
proof -
  have "\<forall>e\<in>set (opt_entries (Some sample_tree)). \<not> conflicts [1, 4, 4] (as_bytes (fst e))"
    by (simp add: sample_entries conflicts_def)
  then obtain m' hp' T' where "try_insert 2 sample_heap sample_map (Key [1, 4, 4] ()) 40
      = Ret (Inr (map_option snd (opt_map (Some sample_tree) [1, 4, 4])), m', hp')"
    "map_state 2 sample_frame m' hp' T'" "opt_map T' = (opt_map (Some sample_tree))([1, 4, 4] \<mapsto> (Key [1, 4, 4] (), 40))"
    using map_insert [OF sample_state, of "Key [1, 4, 4] ()" 40] by auto
  then show ?thesis
    by (intro exI [of _ m'] exI [of _ hp'] exI [of _ T']) (simp add: sample_opt_map del: opt_simps)
qed

text \<open>
  C6. \<open>try_insert\<close> fails exactly when a key of the map is a proper prefix of the new key or the
  new key is a proper prefix of one; it then returns the bytes of the key and changes nothing.
\<close>

theorem map_insert_error:
  assumes "map_state N fr m hp T" "length (as_bytes k) < 2 ^ 32"
  shows "(\<exists>e\<in>set (opt_entries T). as_bytes (fst e) \<noteq> as_bytes k \<and>
      (Sublist.prefix (as_bytes k) (as_bytes (fst e)) \<or> Sublist.prefix (as_bytes (fst e)) (as_bytes k)))
    \<longleftrightarrow> try_insert N hp m k v = Ret (Inl (InsertPrefixError (as_bytes k)), m, hp)"
  using try_insert_spec [OF assms, of v] by (auto simp: conflicts_def split: if_splits)

theorem map_insert_error_witness:
  "try_insert 2 sample_heap sample_map (Key [1, 3, 0] ()) 40
    = Ret (Inl (InsertPrefixError [1, 3, 0]), sample_map, sample_heap)"
  using map_insert_error [OF sample_state, of "Key [1, 3, 0] ()" 40]
  by (simp add: sample_entries)

text \<open>
  C7. \<open>remove_entry\<close> implements deletion from the abstract map: it returns the entry of the key
  and takes exactly this entry out, or returns nothing and changes nothing; the invariant
  holds again, in particular the leaf and all nodes that became superfluous are freed.
\<close>

theorem map_remove:
  assumes "map_state N fr m hp T"
  shows "\<exists>m' hp' T'. remove_entry hp m key = Ret (opt_map T key, m', hp')
    \<and> map_state N fr m' hp' T' \<and> opt_map T' = (opt_map T)(key := None)"
proof (cases "opt_map T key")
  case None
  then have "remove_entry hp m key = Ret (None, m, hp)" "(opt_map T)(key := None) = opt_map T"
    using remove_entry_spec [OF assms, of key] by auto
  then show ?thesis using assms None by metis
next
  case (Some e)
  then show ?thesis using remove_entry_spec [OF assms, of key] by simp
qed

theorem map_remove_witness:
  "\<exists>m' hp' T'. remove_entry sample_heap sample_map [1, 2] = Ret (Some (Key [1, 2] (), 20), m', hp')
    \<and> map_state 2 sample_frame m' hp' T' \<and> opt_map T' = [[1, 3] \<mapsto> (Key [1, 3] (), 30)]"
  using map_remove [OF sample_state, of "[1, 2]"]
  by (simp add: sample_opt_map fun_upd_twist del: opt_simps)

text \<open>
  C8. \<open>pop_first\<close> removes and returns the entry with the smallest key, \<open>pop_last\<close> the one with
  the largest, in the order of the key bytes; on an empty map both return nothing.
\<close>

theorem map_pop:
  assumes m: "map_state N fr m hp T"
  shows "(opt_map T = Map.empty \<longrightarrow> pop_first hp m = Ret (None, m, hp) \<and> pop_last hp m = Ret (None, m, hp))
    \<and> (opt_map T \<noteq> Map.empty \<longrightarrow>
       (\<exists>kb e m' hp' T'. pop_first hp m = Ret (Some e, m', hp') \<and> opt_map T kb = Some e
          \<and> (\<forall>k\<in>dom (opt_map T). kb \<le> k)
          \<and> map_state N fr m' hp' T' \<and> opt_map T' = (opt_map T)(kb := None))
     \<and> (\<exists>kb e m' hp' T'. pop_last hp m = Ret (Some e, m', hp') \<and> opt_map T kb = Some e
          \<and> (\<forall>k\<in>dom (opt_map T). k \<le> kb)
          \<and> map_state N fr m' hp' T' \<and> opt_map T' = (opt_map T)(kb := None)))"
proof -
  have empty: "opt_map T = Map.empty \<longleftrightarrow> opt_entries T = []"
    unfolding dom_eq_empty_conv [symmetric] opt_keys [OF m, symmetric] by simp
  have sorted: "sorted_wrt (<) (map (\<lambda>e. as_bytes (fst e)) (opt_entries T))"
    using m key_bytes_strict [of "[]"] by (cases T) (auto simp: map_state_def comp_def)
  have mem: "opt_map T (as_bytes (fst e)) = Some e" if "e \<in> set (opt_entries T)" for e
    using that opt_map_entries [OF m] by blast
  show ?thesis
  proof (cases "opt_entries T")
    case Nil
    then show ?thesis using pop_first_spec [OF m] pop_last_spec [OF m] empty by simp
  next
    case (Cons e es)
    have "as_bytes (fst e) \<le> k" if "k \<in> dom (opt_map T)" for k
      using that sorted unfolding opt_keys [OF m, symmetric] by (auto simp: Cons)
    moreover obtain e' es' where l: "opt_entries T = es' @ [e']" using Cons by (metis list.discI rev_exhaust)
    moreover have "k \<le> as_bytes (fst e')" if "k \<in> dom (opt_map T)" for k
      using that sorted unfolding opt_keys [OF m, symmetric] by (auto simp: l sorted_wrt_append)
    moreover have "last (opt_entries T) = e'" "opt_entries T \<noteq> []" "opt_map T \<noteq> Map.empty"
      using l Cons empty by auto
    moreover have "opt_map T (as_bytes (fst e)) = Some e" "opt_map T (as_bytes (fst e')) = Some e'"
      by (simp add: mem Cons, simp add: mem l)
    moreover obtain m1 hp1 T1 where "pop_first hp m = Ret (Some e, m1, hp1)" "map_state N fr m1 hp1 T1"
      "opt_map T1 = (opt_map T)(as_bytes (fst e) := None)"
      using pop_first_spec [OF m] unfolding Cons by auto
    moreover obtain m2 hp2 T2 where "pop_last hp m = Ret (Some e', m2, hp2)" "map_state N fr m2 hp2 T2"
      "opt_map T2 = (opt_map T)(as_bytes (fst e') := None)"
      using pop_last_spec [OF m] calculation(4,5) by auto
    ultimately show ?thesis by blast
  qed
qed

theorem map_pop_witness:
  "\<exists>e m' hp'. pop_last sample_heap sample_map = Ret (Some e, m', hp') \<and> fst e = Key [1, 3] ()"
proof -
  have "opt_map (Some sample_tree) \<noteq> Map.empty" by (simp add: sample_opt_map del: opt_simps)
  then obtain kb e m' hp' where p: "pop_last sample_heap sample_map = Ret (Some e, m', hp')"
    "opt_map (Some sample_tree) kb = Some e" "\<forall>k\<in>dom (opt_map (Some sample_tree)). k \<le> kb"
    using map_pop [OF sample_state] by blast
  then have "kb = [1, 3]"
    unfolding sample_opt_map by (auto split: if_splits)
  then show ?thesis using p(1,2) unfolding sample_opt_map by auto
qed

text \<open>
  \<open>first_key_value\<close> and \<open>last_key_value\<close> return the entries with the smallest and the
  largest key and leave the map as it is.
\<close>

lemma map_ends:
  assumes m: "map_state N fr m hp T" and k: "key \<in> dom (opt_map T)"
  shows "\<exists>lo hi. first_key_value hp m = Ret (Some lo) \<and> last_key_value hp m = Ret (Some hi)
    \<and> opt_map T (as_bytes (fst lo)) = Some lo \<and> opt_map T (as_bytes (fst hi)) = Some hi
    \<and> as_bytes (fst lo) \<le> key \<and> key \<le> as_bytes (fst hi)"
proof -
  have sorted: "sorted_wrt (<) (map (\<lambda>e. as_bytes (fst e)) (opt_entries T))"
    using m key_bytes_strict [of "[]"] by (cases T) (auto simp: map_state_def comp_def)
  obtain e where e: "e \<in> set (opt_entries T)" "as_bytes (fst e) = key"
    using k opt_keys [OF m] by force
  obtain lo xs where lo: "opt_entries T = lo # xs" using e(1) by (cases "opt_entries T") auto
  obtain hi ys where hi: "opt_entries T = ys @ [hi]" using e(1) by (cases "opt_entries T" rule: rev_cases) auto
  have "first_key_value hp m = Ret (Some lo)" by (simp add: first_key_value_spec [OF m] lo)
  moreover have "last_key_value hp m = Ret (Some hi)" by (simp add: last_key_value_spec [OF m] hi)
  moreover have "opt_map T (as_bytes (fst lo)) = Some lo" "opt_map T (as_bytes (fst hi)) = Some hi"
    unfolding opt_map_entries [OF m] by (simp add: lo, simp add: hi)
  moreover have "as_bytes (fst lo) \<le> key" using sorted e by (auto simp: lo)
  moreover have "key \<le> as_bytes (fst hi)" using sorted e by (auto simp: hi sorted_wrt_append)
  ultimately show ?thesis by blast
qed

text \<open>
  C9. \<open>clear\<close> (and with it \<open>drop\<close>) frees every node of the tree exactly once: what is left of
  the heap is the frame, no cell of the map is leaked and no foreign cell is freed.
\<close>

theorem map_clear:
  assumes "map_state N fr m hp T"
  shows "\<exists>m' hp'. clear hp m = Ret (m', hp') \<and> cells hp' = fr \<and> map_state N fr m' hp' None
    \<and> len_map m' = 0 \<and> is_empty m'"
  using clear_spec [OF assms] by (fastforce simp: map_state_def len_map_def is_empty_def)

theorem map_clear_witness:
  "\<exists>m' hp'. clear sample_heap sample_map = Ret (m', hp') \<and> cells hp' 2 = None \<and> cells hp' 3 \<noteq> None"
  using map_clear [OF sample_state] by (auto simp: sample_frame_def)

text \<open>
  A mutable reference from \<open>get_mut\<close> is to the value of that key: writing through it changes
  the entry of the key to the new value, keeps the stored key and every other entry.
\<close>

lemma map_get_mut:
  assumes "map_state N fr m hp T"
  shows "(opt_map T key = None \<longrightarrow> get_mut hp m key = Ret None)
    \<and> (\<forall>k w. opt_map T key = Some (k, w) \<longrightarrow> (\<exists>p. get_mut hp m key = Ret (Some p) \<and>
        (\<forall>v. \<exists>hp' T'. write_value hp p v = Ret hp' \<and> map_state N fr m hp' T'
          \<and> opt_map T' = (opt_map T)(key \<mapsto> (k, v)))))"
proof (cases "opt_map T key")
  case (Some e)
  obtain k w where e: "e = (k, w)" by (cases e)
  obtain p where p: "get_mut hp m key = Ret (Some p)" "value_at N fr m hp T p k w"
    using get_mut_spec [OF assms, of key] Some e by auto
  have "as_bytes k = key" using opt_map_entries [OF assms, of key e] Some by (simp add: e)
  then show ?thesis
    using value_at_write [OF p(2)] value_at_read(3) p(1) Some e by (metis Pair_inject option.distinct(1) option.inject)
qed (use get_mut_spec [OF assms, of key] in simp)

lemma from_iter_spec:
  assumes "map_state N fr m hp T" "\<forall>(k, v)\<in>set xs. length (as_bytes k) < 2 ^ 32"
    and "prefix_free ((\<lambda>(k, v). as_bytes k) ` set xs)"
  shows "\<exists>m' hp' T'. from_iter N hp xs = Ret (m', hp') \<and> map_state N (cells hp) m' hp' T'
    \<and> opt_map T' = map_of (rev (map (\<lambda>(k, v). (as_bytes k, (k, v))) xs))"
proof -
  have "map_state N (cells hp) with_prefix_len hp None"
    using map_state_bound [OF assms(1)] by (simp add: map_state_def with_prefix_len_def)
  from extend_map_spec [OF this assms(2)] show ?thesis using assms(3) by (auto simp: from_iter_def)
qed

text \<open>
  C10. \<open>extend\<close> with a list of entries never reaches the
  unchecked unwrap of a failed insertion when no key is a proper prefix of another (the contract
  of \<open>NoPrefixesBytes\<close>): the result is the abstract map overridden from left to right.  \<open>from\<close> and
  \<open>from_iter\<close> make a map of exactly the entries of the list, the last one of each key, beside
  whatever else is in memory, such as the map \<open>m\<close>, whose cells they leave alone.
\<close>

theorem map_extend:
  assumes "map_state N fr m hp T" "\<forall>(k, v)\<in>set xs. length (as_bytes k) < 2 ^ 32"
    and "prefix_free (dom (opt_map T) \<union> (\<lambda>(k, v). as_bytes k) ` set xs)"
  shows "(\<exists>m' hp' T'. extend_map N hp m xs = Ret (m', hp') \<and> map_state N fr m' hp' T'
      \<and> opt_map T' = opt_map T ++ map_of (rev (map (\<lambda>(k, v). (as_bytes k, (k, v))) xs)))
    \<and> (\<exists>m' hp' T'. from_iter N hp xs = Ret (m', hp') \<and> map_state N (cells hp) m' hp' T'
      \<and> opt_map T' = map_of (rev (map (\<lambda>(k, v). (as_bytes k, (k, v))) xs)))"
proof -
  have "prefix_free ((\<lambda>(k, v). as_bytes k) ` set xs)" using assms(3) by (auto simp: prefix_free_def)
  then show ?thesis using extend_map_spec [OF assms] from_iter_spec [OF assms(1,2)] by blast
qed

theorem map_extend_witness:
  "\<exists>m' hp' T'. from_iter 2 empty_heap [(Key [1] (), 10), (Key [2, 1] (), 20), (Key [1] (), 11 :: nat)] = Ret (m', hp')
    \<and> map_state 2 Map.empty m' hp' T' \<and> opt_map T' = [[2, 1] \<mapsto> (Key [2, 1] (), 20), [1] \<mapsto> (Key [1] (), 11)]"
proof -
  let ?xs = "[(Key [1] (), 10), (Key [2, 1] (), 20), (Key [1] (), 11 :: nat)]"
  have "cells (empty_heap :: (unit, nat) heap) = Map.empty" by (simp add: empty_heap_def)
  then show ?thesis
    using map_extend [OF map_state_new [of 2], of ?xs, THEN conjunct2]
    by (auto simp: prefix_free_def conflicts_def)
qed

end
