(* ===== verification/Double_Ended.thy ===== *)
theory Double_Ended
  imports Tree_Map "HOL-Library.Multiset"
begin

text \<open>
  The contract of Rust's \<open>DoubleEndedIterator\<close> as the library implements it: a state stands for
  the list of items still to come, \<open>next\<close> takes the first, \<open>next_back\<close> the last, and an
  exhausted iterator stays exhausted (\<open>FusedIterator\<close>).  A client that calls the two in any
  order gets every item exactly once; this is proved here once for all iterators.
\<close>

section \<open>Clients of an iterator\<close>

type_synonym ('s, 'a) step = "'s \<Rightarrow> ('a option \<times> 's) outcome"

text \<open>A sequence of calls: \<open>True\<close> is \<open>next\<close>, \<open>False\<close> is \<open>next_back\<close>.\<close>

fun drive :: "('s, 'a) step \<Rightarrow> ('s, 'a) step \<Rightarrow> bool list \<Rightarrow> 's \<Rightarrow> ('a option list \<times> 's) outcome" where
  "drive nxt bck [] s = Ret ([], s)"
| "drive nxt bck (front # calls) s =
     and_then ((if front then nxt else bck) s) (\<lambda>(item, s).
     and_then (drive nxt bck calls s) (\<lambda>(items, s). Ret (item # items, s)))"

fun collect :: "('s, 'a) step \<Rightarrow> nat \<Rightarrow> 's \<Rightarrow> 'a list outcome" where
  "collect nxt 0 s = NoFuel"
| "collect nxt (Suc fuel) s =
     and_then (nxt s) (\<lambda>(item, s).
     case item of None \<Rightarrow> Ret [] | Some x \<Rightarrow> and_then (collect nxt fuel s) (\<lambda>xs. Ret (x # xs)))"

text \<open>The same calls on a list.\<close>

definition last_item :: "'a list \<Rightarrow> 'a option" where
  "last_item xs = (if xs = [] then None else Some (last xs))"

fun take_ends :: "bool list \<Rightarrow> 'a list \<Rightarrow> 'a option list \<times> 'a list" where
  "take_ends [] xs = ([], xs)"
| "take_ends (front # calls) xs =
     (let (items, rest) = take_ends calls (if front then tl xs else butlast xs) in
      ((if xs = [] then None else Some (if front then hd xs else last xs)) # items, rest))"

lemma take_ends_all:
  "length xs \<le> length calls \<Longrightarrow> snd (take_ends calls xs) = []
    \<and> mset (List.map_filter id (fst (take_ends calls xs))) = mset xs"
proof (induction calls xs rule: take_ends.induct)
  case (2 front calls xs)
  show ?case
  proof (cases "xs = []")
    case True
    then show ?thesis using 2 by (cases front) (simp_all add: split_def Let_def List.map_filter_def)
  next
    case False
    let ?ys = "if front then tl xs else butlast xs" and ?x = "if front then hd xs else last xs"
    have "length ?ys \<le> length calls" using 2(2) False by (cases front) auto
    then have IH: "snd (take_ends calls ?ys) = []"
      "mset (List.map_filter id (fst (take_ends calls ?ys))) = mset ?ys"
      using 2(1) by blast+
    have "add_mset ?x (mset ?ys) = mset xs"
    proof (cases front)
      case True
      then show ?thesis using False by (cases xs) auto
    next
      case front: False
      have "mset xs = mset (butlast xs @ [last xs])" using False by simp
      then show ?thesis using front by (simp del: append_butlast_last_id)
    qed
    then show ?thesis
      using IH False by (cases front) (simp_all add: split_def Let_def List.map_filter_def comp_def)
  qed
qed simp

section \<open>The contract\<close>

text \<open>An iterator that only goes forward.\<close>

locale forward_iterator =
  fixes next_item :: "('s, 'a) step"
    and left :: "'s \<Rightarrow> 'a list \<Rightarrow> bool"
  assumes next_spec: "left s xs \<Longrightarrow> \<exists>item s' xs'. next_item s = Ret (item, s') \<and> left s' xs'
      \<and> (case item of None \<Rightarrow> xs = [] \<and> xs' = [] | Some x \<Rightarrow> xs = x # xs')"
begin

lemma collect_spec: "left s xs \<Longrightarrow> length xs < fuel \<Longrightarrow> collect next_item fuel s = Ret xs"
proof (induction fuel arbitrary: s xs)
  case (Suc fuel)
  obtain item s' xs' where s': "next_item s = Ret (item, s')" "left s' xs'"
    "case item of None \<Rightarrow> xs = [] \<and> xs' = [] | Some x \<Rightarrow> xs = x # xs'"
    using next_spec [OF Suc.prems(1)] by blast
  then show ?case using Suc.IH [OF s'(2)] Suc.prems(2) by (cases item) auto
qed simp

end

locale double_ended = forward_iterator next_item left
  for next_item :: "('s, 'a) step" and next_back_item :: "('s, 'a) step" and left :: "'s \<Rightarrow> 'a list \<Rightarrow> bool" +
  assumes next_back_spec: "left s xs \<Longrightarrow> \<exists>item s' xs'. next_back_item s = Ret (item, s') \<and> left s' xs'
      \<and> (case item of None \<Rightarrow> xs = [] \<and> xs' = [] | Some x \<Rightarrow> xs = xs' @ [x])"
begin

lemma step_spec:
  assumes "left s xs"
  shows "\<exists>s'. (if front then next_item else next_back_item) s
      = Ret (if xs = [] then None else Some (if front then hd xs else last xs), s')
    \<and> left s' (if front then tl xs else butlast xs)"
proof (cases front)
  case True
  then show ?thesis using next_spec [OF assms] by (fastforce split: option.splits)
next
  case False
  then show ?thesis using next_back_spec [OF assms] by (fastforce split: option.splits)
qed

lemma last_spec:
  "left s xs \<Longrightarrow> and_then (next_back_item s) (\<lambda>(r, _). Ret r) = Ret (last_item xs)"
  using step_spec [of s xs False] by (auto simp: last_item_def)

lemma drive_spec:
  "left s xs \<Longrightarrow> \<exists>s'. drive next_item next_back_item calls s = Ret (fst (take_ends calls xs), s')
    \<and> left s' (snd (take_ends calls xs))"
proof (induction calls arbitrary: s xs)
  case (Cons front calls)
  obtain s1 where s1: "(if front then next_item else next_back_item) s
      = Ret (if xs = [] then None else Some (if front then hd xs else last xs), s1)"
    "left s1 (if front then tl xs else butlast xs)"
    using step_spec [OF Cons.prems] by blast
  obtain s2 where "drive next_item next_back_item calls s1
      = Ret (fst (take_ends calls (if front then tl xs else butlast xs)), s2)"
    "left s2 (snd (take_ends calls (if front then tl xs else butlast xs)))"
    using Cons.IH [OF s1(2)] by blast
  then show ?case using s1(1) by (simp only: drive.simps take_ends.simps) (simp add: split_def Let_def)
qed simp

text \<open>Whatever the order of the calls, enough of them give every item exactly once.\<close>

lemma every_item_once:
  assumes "left s xs" "length xs \<le> length calls"
  shows "\<exists>items s'. drive next_item next_back_item calls s = Ret (items, s') \<and> left s' []
    \<and> mset (List.map_filter id items) = mset xs"
  using drive_spec [OF assms(1), of calls] take_ends_all [OF assms(2)] by auto

end

text \<open>The back end alone goes forward through the items in reverse (\<open>Iterator::rev\<close>).\<close>

sublocale double_ended \<subseteq> backwards: forward_iterator next_back_item "\<lambda>s xs. left s (rev xs)"
proof
  fix s xs
  assume "left s (rev xs)"
  then obtain item s' ys where "next_back_item s = Ret (item, s')" "left s' ys"
      "case item of None \<Rightarrow> rev xs = [] \<and> ys = [] | Some x \<Rightarrow> rev xs = ys @ [x]"
    using next_back_spec by blast
  then show "\<exists>item s' xs'. next_back_item s = Ret (item, s') \<and> left s' (rev xs')
      \<and> (case item of None \<Rightarrow> xs = [] \<and> xs' = [] | Some x \<Rightarrow> xs = x # xs')"
    by (intro exI [of _ item] exI [of _ s'] exI [of _ "rev ys"]) (auto split: option.splits simp: rev_eq_append_conv)
qed

context double_ended
begin

lemma collect_back_spec: "left s xs \<Longrightarrow> length xs < fuel \<Longrightarrow> collect next_back_item fuel s = Ret (rev xs)"
  using backwards.collect_spec [of s "rev xs" fuel] by simp

end

section \<open>The iterators of the inner nodes\<close>

interpretation it48: double_ended "node48_iter_next ps" "node48_iter_next_back ps"
    "\<lambda>it xs. n48_left_ok ps it \<and> xs = n48_left ps it"
proof unfold_locales
  fix it xs
  assume *: "n48_left_ok ps it \<and> xs = n48_left ps it"
  have empty: "item = None \<Longrightarrow> rest = []" if "node48_iter_next ps it = Ret (item, rest)" for item rest it
    using that by (induction ps it rule: node48_iter_next.induct) (auto split: if_splits simp: get_unchecked_def)
  show "\<exists>item s' xs'. node48_iter_next ps it = Ret (item, s') \<and> (n48_left_ok ps s' \<and> xs' = n48_left ps s')
      \<and> (case item of None \<Rightarrow> xs = [] \<and> xs' = [] | Some x \<Rightarrow> xs = x # xs')"
    using node48_iter_next_spec [of ps it] * empty [of it]
    by (fastforce simp: n48_left_def split: option.splits)
  show "\<exists>item s' xs'. node48_iter_next_back ps it = Ret (item, s') \<and> (n48_left_ok ps s' \<and> xs' = n48_left ps s')
      \<and> (case item of None \<Rightarrow> xs = [] \<and> xs' = [] | Some x \<Rightarrow> xs = xs' @ [x])"
  proof -
    obtain item rest where r: "node48_iter_next_back ps it = Ret (item, rest)" "n48_left_ok ps rest"
      "n48_left ps it = (case item of None \<Rightarrow> [] | Some c \<Rightarrow> n48_left ps rest @ [c])"
      using node48_iter_next_back_spec [of ps it] * by blast
    obtain rest' where "node48_iter_next ps (rev it) = Ret (item, rest')" "rest = rev rest'"
      using r(1) by (cases "node48_iter_next ps (rev it)") (auto simp: node48_iter_next_back_def)
    then have "item = None \<Longrightarrow> rest = []" using empty by fastforce
    then show ?thesis using r * by (cases item) (auto simp: n48_left_def)
  qed
qed

interpretation it256: double_ended "\<lambda>it. Ret (node256_iter_next it)" "\<lambda>it. Ret (node256_iter_next_back it)"
    "\<lambda>it xs. xs = n256_left it"
proof unfold_locales
  fix it :: "(nat \<times> 'p option) list" and xs
  assume *: "xs = n256_left it"
  obtain item rest where r: "node256_iter_next it = (item, rest)" by fastforce
  show "\<exists>item s' xs'. Ret (node256_iter_next it) = Ret (item, s') \<and> xs' = n256_left s'
      \<and> (case item of None \<Rightarrow> xs = [] \<and> xs' = [] | Some x \<Rightarrow> xs = x # xs')"
    using node256_iter_next_spec [OF r] r * by (cases item) auto
  obtain item' rest' where r': "node256_iter_next_back it = (item', rest')" by fastforce
  obtain r1 where "node256_iter_next (rev it) = (item', r1)" "rest' = rev r1"
    using r' by (auto simp: node256_iter_next_back_def split: prod.splits)
  then have "item' = None \<Longrightarrow> rest' = []" using node256_iter_next_spec by fastforce
  then show "\<exists>item s' xs'. Ret (node256_iter_next_back it) = Ret (item, s') \<and> xs' = n256_left s'
      \<and> (case item of None \<Rightarrow> xs = [] \<and> xs' = [] | Some x \<Rightarrow> xs = xs' @ [x])"
    using node256_iter_next_back_spec [OF r'] r' * by (cases item') auto
qed

end
