(* ===== verification/Traversal.thy ===== *)
theory Traversal
  imports Double_Ended
begin

text \<open>
  The loop that the iterators over a whole tree share (\<open>gen_iter!\<close> in \<open>iterator.rs\<close>,
  \<open>prefix.rs\<close> and \<open>fuzzy.rs\<close> of \<open>src/src/collections/map/iterators/\<close>): a deque of nodes still
  to visit, with the next node at the back.  Visiting an inner node pushes some of its
  children, visiting a leaf counts it and yields an item or nothing.

  The contract \<open>traversal\<close> asks what a visit has to do; every visit function that satisfies it
  gives a double-ended iterator.
\<close>

section \<open>The loop\<close>

text \<open>A visit returns the children to push, in key order, or the result of a leaf.\<close>

datatype ('e, 'r) visited = Push "'e list" | Leaf "'r option"

fun deque_next ::
    "('e \<Rightarrow> ('e, 'r) visited outcome) \<Rightarrow> nat \<Rightarrow> 'e list \<times> nat \<Rightarrow> ('r option \<times> 'e list \<times> nat) outcome" where
  "deque_next visit 0 s = NoFuel"
| "deque_next visit (Suc fuel) (nodes, sz) =
     (if nodes = [] then Ret (None, [], sz)
      else
        and_then (visit (last nodes)) (\<lambda>v.
        case v of Push es \<Rightarrow> deque_next visit fuel (butlast nodes @ rev es, sz)
        | Leaf r \<Rightarrow>
            if sz = 0 then Panic
            else (case r of Some x \<Rightarrow> Ret (Some x, butlast nodes, sz - 1)
              | None \<Rightarrow> deque_next visit fuel (butlast nodes, sz - 1))))"

fun deque_next_back ::
    "('e \<Rightarrow> ('e, 'r) visited outcome) \<Rightarrow> nat \<Rightarrow> 'e list \<times> nat \<Rightarrow> ('r option \<times> 'e list \<times> nat) outcome" where
  "deque_next_back visit 0 s = NoFuel"
| "deque_next_back visit (Suc fuel) (nodes, sz) =
     (case nodes of [] \<Rightarrow> Ret (None, [], sz)
      | node # nodes \<Rightarrow>
        and_then (visit node) (\<lambda>v.
        case v of Push es \<Rightarrow> deque_next_back visit fuel (rev es @ nodes, sz)
        | Leaf r \<Rightarrow>
            if sz = 0 then Panic
            else (case r of Some x \<Rightarrow> Ret (Some x, nodes, sz - 1)
              | None \<Rightarrow> deque_next_back visit fuel (nodes, sz - 1))))"

section \<open>The contract of a visit\<close>

text \<open>
  An element of the deque stands for the items below it, with the number of nodes and of
  leaves below it.
\<close>

record 'r below =
  below_items :: "'r list"
  below_nodes :: nat
  below_leaves :: nat

locale traversal =
  fixes visit :: "'e \<Rightarrow> ('e, 'r) visited outcome"
    and stands :: "'e \<Rightarrow> 'r below \<Rightarrow> bool"
  assumes visit_spec: "stands e i \<Longrightarrow> \<exists>v. visit e = Ret v \<and>
      (case v of
         Push es \<Rightarrow> \<exists>ks. list_all2 stands es ks \<and> concat (map below_items ks) = below_items i
           \<and> sum_list (map below_nodes ks) < below_nodes i
           \<and> sum_list (map below_leaves ks) \<le> below_leaves i
       | Leaf r \<Rightarrow> below_items i = (case r of None \<Rightarrow> [] | Some x \<Rightarrow> [x])
           \<and> 0 < below_nodes i \<and> 0 < below_leaves i)"
    and items_fit: "stands e i \<Longrightarrow> length (below_items i) \<le> below_leaves i"
begin

definition left :: "nat \<Rightarrow> 'e list \<times> nat \<Rightarrow> 'r list \<Rightarrow> bool" where
  "left fuel s xs \<longleftrightarrow> (\<exists>ks. list_all2 stands (fst s) ks \<and> xs = concat (map below_items (rev ks))
     \<and> sum_list (map below_nodes ks) < fuel \<and> sum_list (map below_leaves ks) \<le> snd s)"

text \<open>The size of the state is an upper bound of the number of items to come.\<close>

lemma left_size: "left fuel s xs \<Longrightarrow> length xs \<le> snd s"
proof -
  assume "left fuel s xs"
  then obtain ks where ks: "list_all2 stands (fst s) ks" "xs = concat (map below_items (rev ks))"
    "sum_list (map below_leaves ks) \<le> snd s" by (auto simp: left_def)
  have "length xs = sum_list (map (length \<circ> below_items) ks)"
    by (simp add: ks(2) length_concat rev_map [symmetric])
  also have "\<dots> \<le> sum_list (map below_leaves ks)"
  proof (rule sum_list_mono)
    fix i assume "i \<in> set ks"
    then show "(length \<circ> below_items) i \<le> below_leaves i"
      using ks(1) items_fit by (metis comp_apply in_set_conv_nth list_all2_conv_all_nth)
  qed
  finally show ?thesis using ks(3) by simp
qed

lemma left_mono: "left fuel s xs \<Longrightarrow> fuel \<le> fuel' \<Longrightarrow> left fuel' s xs"
  by (fastforce simp: left_def)

lemma deque_next_spec:
  "left fuel s xs \<Longrightarrow> \<exists>item s' xs'. deque_next visit fuel s = Ret (item, s') \<and> left fuel s' xs'
      \<and> (case item of None \<Rightarrow> xs = [] \<and> xs' = [] | Some x \<Rightarrow> xs = x # xs')"
proof (induction fuel arbitrary: s xs)
  case 0
  then show ?case by (simp add: left_def)
next
  case (Suc fuel)
  obtain nodes size where s: "s = (nodes, size)" by (cases s)
  obtain ks where is_: "list_all2 stands nodes ks" "xs = concat (map below_items (rev ks))"
    "sum_list (map below_nodes ks) < Suc fuel" "sum_list (map below_leaves ks) \<le> size"
    using Suc.prems by (auto simp: left_def s)
  show ?case
  proof (cases nodes rule: rev_cases)
    case Nil
    then show ?thesis using is_ by (intro exI [of _ None]) (auto simp: s left_def)
  next
    case (snoc ns e)
    then obtain is0 i where is0: "ks = is0 @ [i]" "list_all2 stands ns is0" "stands e i"
      using is_(1) by (auto simp: list_all2_append1 list_all2_Cons1)
    obtain v where v: "visit e = Ret v" "case v of
         Push es \<Rightarrow> \<exists>ks. list_all2 stands es ks \<and> concat (map below_items ks) = below_items i
           \<and> sum_list (map below_nodes ks) < below_nodes i
           \<and> sum_list (map below_leaves ks) \<le> below_leaves i
       | Leaf r \<Rightarrow> below_items i = (case r of None \<Rightarrow> [] | Some x \<Rightarrow> [x])
           \<and> 0 < below_nodes i \<and> 0 < below_leaves i"
      using visit_spec [OF is0(3)] by blast
    show ?thesis
    proof (cases v)
      case (Push es)
      obtain js where js: "list_all2 stands es js" "concat (map below_items js) = below_items i"
        "sum_list (map below_nodes js) < below_nodes i" "sum_list (map below_leaves js) \<le> below_leaves i"
        using v(2) Push by auto
      have "list_all2 stands (ns @ rev es) (is0 @ rev js)"
        using is0(2) js(1) by (simp add: list_all2_appendI)
      then have l: "left fuel (ns @ rev es, size) xs"
        using is_ js is0 unfolding left_def
        by (intro exI [of _ "is0 @ rev js"]) (simp add: rev_map [symmetric])
      then show ?thesis
        using Suc.IH [OF l] left_mono [of fuel _ _ "Suc fuel"] v(1) Push by (fastforce simp: s snoc)
    next
      case (Leaf r)
      then have i: "below_items i = (case r of None \<Rightarrow> [] | Some x \<Rightarrow> [x])" "0 < below_nodes i" "0 < below_leaves i"
        using v(2) by simp_all
      have l: "left fuel (ns, size - 1) (concat (map below_items (rev is0)))"
        using is_ is0 i unfolding left_def by (intro exI [of _ is0]) auto
      have pos: "size \<noteq> 0" using is_(4) is0(1) i(3) by auto
      show ?thesis
      proof (cases r)
        case None
        then have "xs = concat (map below_items (rev is0))" using is_(2) is0(1) i(1) by simp
        then show ?thesis
          using Suc.IH [OF l] left_mono [of fuel _ _ "Suc fuel"] v(1) Leaf None pos by (fastforce simp: s snoc)
      next
        case (Some x)
        then show ?thesis
          using left_mono [OF l, of "Suc fuel"] v(1) Leaf pos is_(2) is0(1) i(1) by (auto simp: s snoc)
      qed
    qed
  qed
qed

lemma deque_next_back_spec:
  "left fuel s xs \<Longrightarrow> \<exists>item s' xs'. deque_next_back visit fuel s = Ret (item, s') \<and> left fuel s' xs'
      \<and> (case item of None \<Rightarrow> xs = [] \<and> xs' = [] | Some x \<Rightarrow> xs = xs' @ [x])"
proof (induction fuel arbitrary: s xs)
  case 0
  then show ?case by (simp add: left_def)
next
  case (Suc fuel)
  obtain nodes size where s: "s = (nodes, size)" by (cases s)
  obtain ks where is_: "list_all2 stands nodes ks" "xs = concat (map below_items (rev ks))"
    "sum_list (map below_nodes ks) < Suc fuel" "sum_list (map below_leaves ks) \<le> size"
    using Suc.prems by (auto simp: left_def s)
  show ?case
  proof (cases nodes)
    case Nil
    then show ?thesis using is_ by (intro exI [of _ None]) (auto simp: s left_def)
  next
    case (Cons e ns)
    then obtain is0 i where is0: "ks = i # is0" "list_all2 stands ns is0" "stands e i"
      using is_(1) by (auto simp: list_all2_Cons1)
    obtain v where v: "visit e = Ret v" "case v of
         Push es \<Rightarrow> \<exists>ks. list_all2 stands es ks \<and> concat (map below_items ks) = below_items i
           \<and> sum_list (map below_nodes ks) < below_nodes i
           \<and> sum_list (map below_leaves ks) \<le> below_leaves i
       | Leaf r \<Rightarrow> below_items i = (case r of None \<Rightarrow> [] | Some x \<Rightarrow> [x])
           \<and> 0 < below_nodes i \<and> 0 < below_leaves i"
      using visit_spec [OF is0(3)] by blast
    show ?thesis
    proof (cases v)
      case (Push es)
      obtain js where js: "list_all2 stands es js" "concat (map below_items js) = below_items i"
        "sum_list (map below_nodes js) < below_nodes i" "sum_list (map below_leaves js) \<le> below_leaves i"
        using v(2) Push by auto
      have "list_all2 stands (rev es @ ns) (rev js @ is0)"
        using is0(2) js(1) by (simp add: list_all2_appendI)
      then have l: "left fuel (rev es @ ns, size) xs"
        using is_ js is0 unfolding left_def
        by (intro exI [of _ "rev js @ is0"]) (simp add: rev_map [symmetric])
      then show ?thesis
        using Suc.IH [OF l] left_mono [of fuel _ _ "Suc fuel"] v(1) Push by (fastforce simp: s Cons)
    next
      case (Leaf r)
      then have i: "below_items i = (case r of None \<Rightarrow> [] | Some x \<Rightarrow> [x])" "0 < below_nodes i" "0 < below_leaves i"
        using v(2) by simp_all
      have l: "left fuel (ns, size - 1) (concat (map below_items (rev is0)))"
        using is_ is0 i unfolding left_def by (intro exI [of _ is0]) auto
      have pos: "size \<noteq> 0" using is_(4) is0(1) i(3) by auto
      show ?thesis
      proof (cases r)
        case None
        then have "xs = concat (map below_items (rev is0))" using is_(2) is0(1) i(1) by simp
        then show ?thesis
          using Suc.IH [OF l] left_mono [of fuel _ _ "Suc fuel"] v(1) Leaf None pos by (fastforce simp: s Cons)
      next
        case (Some x)
        then show ?thesis
          using left_mono [OF l, of "Suc fuel"] v(1) Leaf pos is_(2) is0(1) i(1) by (auto simp: s Cons)
      qed
    qed
  qed
qed

end

sublocale traversal \<subseteq> de: double_ended "deque_next visit fuel" "deque_next_back visit fuel" "left fuel"
  by unfold_locales (rule deque_next_spec, assumption, rule deque_next_back_spec, assumption)

section \<open>Exact sizes\<close>

lemma deque_next_size:
  "deque_next visit fuel s = Ret (item, s') \<Longrightarrow> snd s' \<le> snd s \<and> (item \<noteq> None \<longrightarrow> snd s' < snd s)"
proof (induction fuel arbitrary: s item s')
  case (Suc fuel)
  obtain nodes sz where s: "s = (nodes, sz)" by (cases s)
  show ?case
  proof (cases "nodes = []")
    case False
    obtain v where v: "visit (last nodes) = Ret v"
      using Suc.prems s False by (cases "visit (last nodes)") auto
    show ?thesis
      using Suc.prems Suc.IH [of "(butlast nodes, sz - 1)"] Suc.IH [of "(butlast nodes @ rev es, sz)" for es]
      by (cases v) (fastforce simp: s False v split: if_splits option.splits)+
  qed (use Suc.prems s in simp)
qed simp

lemma deque_next_back_size:
  "deque_next_back visit fuel s = Ret (item, s') \<Longrightarrow> snd s' \<le> snd s \<and> (item \<noteq> None \<longrightarrow> snd s' < snd s)"
proof (induction fuel arbitrary: s item s')
  case (Suc fuel)
  obtain nodes sz where s: "s = (nodes, sz)" by (cases s)
  show ?case
  proof (cases nodes)
    case (Cons e ns)
    obtain v where v: "visit e = Ret v"
      using Suc.prems s Cons by (cases "visit e") auto
    show ?thesis
      using Suc.prems Suc.IH [of "(ns, sz - 1)"] Suc.IH [of "(rev es @ ns, sz)" for es]
      by (cases v) (fastforce simp: s Cons v split: if_splits option.splits)+
  qed (use Suc.prems s in simp)
qed simp

text \<open>If every leaf yields an item, the size is the number of items left.\<close>

locale exact_traversal = traversal +
  assumes every_leaf: "stands e i \<Longrightarrow> below_leaves i = length (below_items i)"
begin

definition left_exact :: "nat \<Rightarrow> 'a list \<times> nat \<Rightarrow> 'b list \<Rightarrow> bool" where
  "left_exact fuel s xs \<longleftrightarrow> left fuel s xs \<and> snd s = length xs"

lemma exact_next:
  assumes "left_exact fuel s xs"
  shows "\<exists>item s' xs'. deque_next visit fuel s = Ret (item, s') \<and> left_exact fuel s' xs'
      \<and> (case item of None \<Rightarrow> xs = [] \<and> xs' = [] | Some x \<Rightarrow> xs = x # xs')"
proof -
  obtain item s' xs' where *: "deque_next visit fuel s = Ret (item, s')" "left fuel s' xs'"
    "case item of None \<Rightarrow> xs = [] \<and> xs' = [] | Some x \<Rightarrow> xs = x # xs'"
    using deque_next_spec assms unfolding left_exact_def by blast
  then have "snd s' = length xs'"
    using deque_next_size [OF *(1)] left_size [OF *(2)] assms by (cases item) (auto simp: left_exact_def)
  with * show ?thesis unfolding left_exact_def by blast
qed

lemma exact_next_back:
  assumes "left_exact fuel s xs"
  shows "\<exists>item s' xs'. deque_next_back visit fuel s = Ret (item, s') \<and> left_exact fuel s' xs'
      \<and> (case item of None \<Rightarrow> xs = [] \<and> xs' = [] | Some x \<Rightarrow> xs = xs' @ [x])"
proof -
  obtain item s' xs' where *: "deque_next_back visit fuel s = Ret (item, s')" "left fuel s' xs'"
    "case item of None \<Rightarrow> xs = [] \<and> xs' = [] | Some x \<Rightarrow> xs = xs' @ [x]"
    using deque_next_back_spec assms unfolding left_exact_def by blast
  then have "snd s' = length xs'"
    using deque_next_back_size [OF *(1)] left_size [OF *(2)] assms by (cases item) (auto simp: left_exact_def)
  with * show ?thesis unfolding left_exact_def by blast
qed

end

sublocale exact_traversal \<subseteq> ex: double_ended "deque_next visit fuel" "deque_next_back visit fuel" "left_exact fuel"
  by unfold_locales (rule exact_next, assumption, rule exact_next_back, assumption)

end
