(* ===== verification/Iterators.thy ===== *)
theory Iterators
  imports Traversal
begin

text \<open>
  The iterators over all entries of a map: the borrowing ones that \<open>gen_iter!\<close> in
  \<open>src/src/collections/map/iterators/iterator.rs\<close> generates (entries, keys, values, and the
  mutable ones, which yield a reference into the leaf) and the owning ones of \<open>into_iter.rs\<close>.
\<close>

section \<open>What a leaf yields\<close>

text \<open>The \<open>$op\<close> of the macros.  A mutable reference to the value is the pointer to the leaf.\<close>

definition as_key_value_ref :: "node_ptr \<Rightarrow> ('k, 'v) leaf \<Rightarrow> 'k key \<times> 'v" where
  "as_key_value_ref node l = (leaf_key l, leaf_value l)"

definition as_key_ref_value_mut :: "node_ptr \<Rightarrow> ('k, 'v) leaf \<Rightarrow> 'k key \<times> node_ptr" where
  "as_key_ref_value_mut node l = (leaf_key l, node)"

definition as_key_ref :: "node_ptr \<Rightarrow> ('k, 'v) leaf \<Rightarrow> 'k key" where
  "as_key_ref node l = leaf_key l"

definition as_value_ref :: "node_ptr \<Rightarrow> ('k, 'v) leaf \<Rightarrow> 'v" where
  "as_value_ref node l = leaf_value l"

definition as_value_mut :: "node_ptr \<Rightarrow> ('k, 'v) leaf \<Rightarrow> node_ptr" where
  "as_value_mut node l = node"

definition leaf_item :: "(node_ptr \<Rightarrow> ('k, 'v) leaf \<Rightarrow> 'r) \<Rightarrow> nat \<times> 'k key \<times> 'v \<Rightarrow> 'r" where
  "leaf_item op = (\<lambda>(a, k, v). op (Ptr LeafKind a) \<lparr>leaf_key = k, leaf_value = v\<rparr>)"

lemma leaf_item_simps [simp]:
  "leaf_item as_key_value_ref (a, k, v) = (k, v)"
  "leaf_item as_key_ref_value_mut (a, k, v) = (k, Ptr LeafKind a)"
  "leaf_item as_key_ref (a, k, v) = k"
  "leaf_item as_value_ref (a, k, v) = v"
  "leaf_item as_value_mut (a, k, v) = Ptr LeafKind a"
  by (simp_all add: leaf_item_def as_key_value_ref_def as_key_ref_value_mut_def as_key_ref_def
      as_value_ref_def as_value_mut_def)

section \<open>The borrowing iterators\<close>

definition iter_visit ::
    "(node_ptr \<Rightarrow> ('k, 'v) leaf \<Rightarrow> 'r) \<Rightarrow> ('k, 'v) heap \<Rightarrow> node_ptr \<Rightarrow> (node_ptr, 'r) visited outcome" where
  "iter_visit op hp node =
     (if ptr_type node = LeafKind then
        and_then (read_leaf hp node) (\<lambda>l. Ret (Leaf (Some (op node l))))
      else
        and_then (read_inner hp node) (\<lambda>n.
        and_then (inner_iter n) (\<lambda>children. Ret (Push (map snd children)))))"

definition iter_new :: "treemap \<Rightarrow> node_ptr list \<times> nat" where
  "iter_new m = ((case map_root m of None \<Rightarrow> [] | Some root \<Rightarrow> [root]), num_entries m)"

definition iter_next ::
    "(node_ptr \<Rightarrow> ('k, 'v) leaf \<Rightarrow> 'r) \<Rightarrow> ('k, 'v) heap \<Rightarrow> (node_ptr list \<times> nat, 'r) step" where
  "iter_next op hp = deque_next (iter_visit op hp) (Suc (next_addr hp))"

definition iter_next_back ::
    "(node_ptr \<Rightarrow> ('k, 'v) leaf \<Rightarrow> 'r) \<Rightarrow> ('k, 'v) heap \<Rightarrow> (node_ptr list \<times> nat, 'r) step" where
  "iter_next_back op hp = deque_next_back (iter_visit op hp) (Suc (next_addr hp))"

definition iter_size_hint :: "node_ptr list \<times> nat \<Rightarrow> nat \<times> nat option" where
  "iter_size_hint it = (snd it, Some (snd it))"

definition iter_len :: "node_ptr list \<times> nat \<Rightarrow> nat" where
  "iter_len it = snd it"

definition iter_last ::
    "(node_ptr \<Rightarrow> ('k, 'v) leaf \<Rightarrow> 'r) \<Rightarrow> ('k, 'v) heap \<Rightarrow> node_ptr list \<times> nat \<Rightarrow> 'r option outcome" where
  "iter_last op hp it = and_then (iter_next_back op hp it) (\<lambda>(r, _). Ret r)"

text \<open>A pointer in the deque stands for the leaves of the tree below it.\<close>

definition tree_below :: "(node_ptr \<Rightarrow> ('k, 'v) leaf \<Rightarrow> 'r) \<Rightarrow> ('k, 'v) art \<Rightarrow> 'r below" where
  "tree_below op t = \<lparr>below_items = map (leaf_item op) (leaves t), below_nodes = length (addrs t),
     below_leaves = length (leaves t)\<rparr>"

definition iter_stands ::
    "nat \<Rightarrow> (node_ptr \<Rightarrow> ('k, 'v) leaf \<Rightarrow> 'r) \<Rightarrow> ('k, 'v) heap \<Rightarrow> node_ptr \<Rightarrow> 'r below \<Rightarrow> bool" where
  "iter_stands N op hp node i \<longleftrightarrow> (\<exists>t path. node = root_ptr t \<and> represents N hp t \<and> wf_art path t
     \<and> i = tree_below op t)"

lemma sum_list_children:
  "sum_list (map (\<lambda>(b, t). f t) ch) = sum_list (map f (map snd ch))"
  by (simp add: comp_def split_def)

lemma below_children:
  defines "ks op ch \<equiv> map (tree_below op \<circ> snd) ch"
  shows "concat (map below_items (ks op ch)) = below_items (tree_below op (AInner a ty pf ch))"
    and "sum_list (map below_nodes (ks op ch)) < below_nodes (tree_below op (AInner a ty pf ch))"
    and "sum_list (map below_leaves (ks op ch)) = below_leaves (tree_below op (AInner a ty pf ch))"
proof -
  have "sum_list (map below_nodes (ks op ch)) = length (concat (map (\<lambda>(b, t). addrs t) ch))"
    by (induction ch) (auto simp: ks_def tree_below_def)
  then show "sum_list (map below_nodes (ks op ch)) < below_nodes (tree_below op (AInner a ty pf ch))"
    by (simp add: tree_below_def)
  show "concat (map below_items (ks op ch)) = below_items (tree_below op (AInner a ty pf ch))"
    by (induction ch) (auto simp: ks_def tree_below_def)
  show "sum_list (map below_leaves (ks op ch)) = below_leaves (tree_below op (AInner a ty pf ch))"
    by (induction ch) (auto simp: ks_def tree_below_def)
qed

lemma iter_stands_children:
  assumes "represents N hp (AInner a ty pf ch)" "wf_art path (AInner a ty pf ch)"
  shows "list_all2 (iter_stands N op hp) (map (root_ptr \<circ> snd) ch) (map (tree_below op \<circ> snd) ch)"
proof -
  have "iter_stands N op hp (root_ptr t) (tree_below op t)" if "(b, t) \<in> set ch" for b t
    using assms that wf_child [OF assms(2) that] unfolding iter_stands_def by auto
  then show ?thesis unfolding list_all2_map1 list_all2_map2 list_all2_same by auto
qed

interpretation it: exact_traversal "iter_visit op hp" "iter_stands N op hp"
proof unfold_locales
  fix e and i :: "'c below"
  assume "iter_stands N op hp e i"
  then obtain t path where t: "e = root_ptr t" "represents N hp t" "wf_art path t" "i = tree_below op t"
    by (auto simp: iter_stands_def)
  show "below_leaves i = length (below_items i)" by (simp add: t(4) tree_below_def)
  then show "length (below_items i) \<le> below_leaves i" by simp
  show "\<exists>v. iter_visit op hp e = Ret v \<and>
      (case v of
         Push es \<Rightarrow> \<exists>ks. list_all2 (iter_stands N op hp) es ks \<and> concat (map below_items ks) = below_items i
           \<and> sum_list (map below_nodes ks) < below_nodes i
           \<and> sum_list (map below_leaves ks) \<le> below_leaves i
       | Leaf r \<Rightarrow> below_items i = (case r of None \<Rightarrow> [] | Some x \<Rightarrow> [x])
           \<and> 0 < below_nodes i \<and> 0 < below_leaves i)"
  proof (cases t)
    case (ALeaf a k v)
    then show ?thesis using t by (simp add: iter_visit_def read_leaf_def tree_below_def leaf_item_def)
  next
    case (AInner a ty pf ch)
    obtain n where n: "read_inner hp (Ptr ty a) = Ret n" "node_ok N n ty pf (child_ptrs ch)" "ty \<noteq> LeafKind"
      using read_inner_Ret [of N hp a ty pf ch] t(2) AInner by metis
    have "iter_visit op hp e = Ret (Push (map (root_ptr \<circ> snd) ch))"
      using n node_okD(8) [OF n(2)] by (simp add: iter_visit_def t(1) AInner child_ptrs_def comp_def)
    moreover have "list_all2 (iter_stands N op hp) (map (root_ptr \<circ> snd) ch) (map (tree_below op \<circ> snd) ch)"
      using iter_stands_children t(2,3) AInner by blast
    ultimately show ?thesis
      using below_children [of op ch a ty pf] unfolding t(4) AInner
      by (intro exI [of _ "Push (map (root_ptr \<circ> snd) ch)"] conjI)
        (assumption, simp only: visited.case, blast intro: eq_imp_le)
  qed
qed

lemma length_addrs_bound: "holds N hp t \<Longrightarrow> length (addrs t) \<le> next_addr hp"
proof -
  assume h: "holds N hp t"
  have "length (addrs t) = card (set (addrs t))"
    using h by (simp add: holds_def distinct_card)
  also have "\<dots> \<le> card {..<next_addr hp}"
    using h by (intro card_mono) (auto simp: holds_def)
  finally show ?thesis by simp
qed

definition opt_leaves :: "('k, 'v) art option \<Rightarrow> (nat \<times> 'k key \<times> 'v) list" where
  "opt_leaves T = (case T of None \<Rightarrow> [] | Some t \<Rightarrow> leaves t)"

lemma iter_new_left:
  assumes "map_state N fr m hp T"
  shows "exact_traversal.left_exact (iter_stands N op hp) (Suc (next_addr hp)) (iter_new m)
    (map (leaf_item op) (opt_leaves T))"
proof (cases T)
  case None
  then show ?thesis
    using assms by (auto simp: it.left_exact_def it.left_def iter_new_def map_state_def opt_leaves_def)
next
  case (Some t)
  then have t: "map_root m = Some (root_ptr t)" "wf_art [] t" "holds N hp t" "num_entries m = length (leaves t)"
    using assms by (auto simp: map_state_def entries_def)
  then have "iter_stands N op hp (root_ptr t) (tree_below op t)"
    by (auto simp: iter_stands_def holds_def)
  then show ?thesis
    using t length_addrs_bound [OF t(3)] unfolding it.left_exact_def it.left_def
    by (intro conjI exI [of _ "[tree_below op t]"])
      (simp_all add: iter_new_def Some opt_leaves_def tree_below_def)
qed

section \<open>The owning iterators\<close>

text \<open>The state is the map itself, with its heap: each step takes an entry out.\<close>

definition into_iter_next :: "(treemap \<times> ('k, 'v) heap, 'k key \<times> 'v) step" where
  "into_iter_next s = and_then (pop_first (snd s) (fst s)) (\<lambda>(e, m, hp). Ret (e, m, hp))"

definition into_iter_next_back :: "(treemap \<times> ('k, 'v) heap, 'k key \<times> 'v) step" where
  "into_iter_next_back s = and_then (pop_last (snd s) (fst s)) (\<lambda>(e, m, hp). Ret (e, m, hp))"

definition into_iter_size_hint :: "treemap \<times> ('k, 'v) heap \<Rightarrow> nat \<times> nat option" where
  "into_iter_size_hint s = (len_map (fst s), Some (len_map (fst s)))"

definition into_keys_next :: "(treemap \<times> ('k, 'v) heap, 'k key) step" where
  "into_keys_next s = and_then (into_iter_next s) (\<lambda>(e, s). Ret (map_option fst e, s))"

definition into_keys_next_back :: "(treemap \<times> ('k, 'v) heap, 'k key) step" where
  "into_keys_next_back s = and_then (into_iter_next_back s) (\<lambda>(e, s). Ret (map_option fst e, s))"

definition into_values_next :: "(treemap \<times> ('k, 'v) heap, 'v) step" where
  "into_values_next s = and_then (into_iter_next s) (\<lambda>(e, s). Ret (map_option snd e, s))"

definition into_values_next_back :: "(treemap \<times> ('k, 'v) heap, 'v) step" where
  "into_values_next_back s = and_then (into_iter_next_back s) (\<lambda>(e, s). Ret (map_option snd e, s))"

lemma opt_entries_sorted:
  "map_state N fr m hp T \<Longrightarrow> sorted_keys (map (\<lambda>e. (as_bytes (fst e), e)) (opt_entries T))"
  using key_bytes_strict [of "[]"] by (cases T) (auto simp: map_state_def comp_def)

text \<open>The abstract map determines the list of entries.\<close>

lemma opt_entries_unique:
  assumes m: "map_state N fr m hp T" and s: "sorted_keys (map (\<lambda>e. (as_bytes (fst e), e)) xs)"
    and map: "\<And>kb e. opt_map T kb = Some e \<longleftrightarrow> e \<in> set xs \<and> as_bytes (fst e) = kb"
  shows "opt_entries T = xs"
proof -
  have "e \<in> set (opt_entries T) \<longleftrightarrow> e \<in> set xs" for e
    using opt_map_entries [OF m, of "as_bytes (fst e)" e] map [of "as_bytes (fst e)" e] by simp
  then have "map (\<lambda>e. (as_bytes (fst e), e)) (opt_entries T) = map (\<lambda>e. (as_bytes (fst e), e)) xs"
    by (intro sorted_keys_set_unique [OF opt_entries_sorted [OF m] s]) auto
  then have "map snd (map (\<lambda>e. (as_bytes (fst e), e)) (opt_entries T))
      = map snd (map (\<lambda>e. (as_bytes (fst e), e)) xs)" by (rule arg_cong)
  then show ?thesis by (simp add: comp_def)
qed

lemma opt_entries_remove:
  assumes m: "map_state N fr m hp T" and m': "map_state N' fr' m' hp' T'"
    and r: "opt_map T' = (opt_map T)(as_bytes (fst e) := None)"
    and e: "opt_entries T = xs @ e # ys"
  shows "opt_entries T' = xs @ ys"
proof (rule opt_entries_unique [OF m'])
  note s = opt_entries_sorted [OF m, unfolded e]
  show "sorted_keys (map (\<lambda>e. (as_bytes (fst e), e)) (xs @ ys))"
    using s by (auto simp: sorted_wrt_append)
  show "opt_map T' kb = Some e' \<longleftrightarrow> e' \<in> set (xs @ ys) \<and> as_bytes (fst e') = kb" for kb e'
    using s opt_map_entries [OF m, of kb e'] by (auto simp: r e sorted_wrt_append)
qed

definition into_left ::
    "nat \<Rightarrow> (nat \<Rightarrow> ('k, 'v) cell option) \<Rightarrow> treemap \<times> ('k, 'v) heap \<Rightarrow> ('k key \<times> 'v) list \<Rightarrow> bool" where
  "into_left N fr s xs \<longleftrightarrow> (\<exists>T. map_state N fr (fst s) (snd s) T \<and> opt_entries T = xs)"

interpretation into: double_ended into_iter_next into_iter_next_back "into_left N fr"
proof unfold_locales
  fix s :: "treemap \<times> ('a, 'b) heap" and xs
  assume "into_left N fr s xs"
  then obtain T where T: "map_state N fr (fst s) (snd s) T" "opt_entries T = xs" by (auto simp: into_left_def)
  show "\<exists>item s' xs'. into_iter_next s = Ret (item, s') \<and> into_left N fr s' xs'
      \<and> (case item of None \<Rightarrow> xs = [] \<and> xs' = [] | Some x \<Rightarrow> xs = x # xs')"
  proof (cases xs)
    case Nil
    then have "into_iter_next s = Ret (None, s)"
      using pop_first_spec [OF T(1)] T(2) by (simp add: into_iter_next_def)
    then show ?thesis using T Nil by (fastforce simp: into_left_def)
  next
    case (Cons e es)
    obtain m' hp' T' where p: "pop_first (snd s) (fst s) = Ret (Some e, m', hp')" "map_state N fr m' hp' T'"
      "opt_map T' = (opt_map T)(as_bytes (fst e) := None)"
      using pop_first_spec [OF T(1)] T(2) Cons by auto
    have "opt_entries T' = es"
      using opt_entries_remove [OF T(1) p(2,3), of "[]" es] T(2) Cons by simp
    then have "into_left N fr (m', hp') es" using p(2) by (auto simp: into_left_def)
    moreover have "into_iter_next s = Ret (Some e, (m', hp'))" using p(1) by (simp add: into_iter_next_def)
    ultimately show ?thesis using Cons by fastforce
  qed
  show "\<exists>item s' xs'. into_iter_next_back s = Ret (item, s') \<and> into_left N fr s' xs'
      \<and> (case item of None \<Rightarrow> xs = [] \<and> xs' = [] | Some x \<Rightarrow> xs = xs' @ [x])"
  proof (cases xs rule: rev_cases)
    case Nil
    then have "into_iter_next_back s = Ret (None, s)"
      using pop_last_spec [OF T(1)] T(2) by (simp add: into_iter_next_back_def)
    then show ?thesis using T Nil by (fastforce simp: into_left_def)
  next
    case (snoc es e)
    obtain m' hp' T' where p: "pop_last (snd s) (fst s) = Ret (Some e, m', hp')" "map_state N fr m' hp' T'"
      "opt_map T' = (opt_map T)(as_bytes (fst e) := None)"
      using pop_last_spec [OF T(1)] T(2) snoc by auto
    have "opt_entries T' = es"
      using opt_entries_remove [OF T(1) p(2,3), of es "[]"] T(2) snoc by simp
    then have "into_left N fr (m', hp') es" using p(2) by (auto simp: into_left_def)
    moreover have "into_iter_next_back s = Ret (Some e, (m', hp'))" using p(1) by (simp add: into_iter_next_back_def)
    ultimately show ?thesis using snoc by fastforce
  qed
qed

section \<open>Properties of the iterators\<close>

lemma opt_leaves_items:
  "map (leaf_item as_key_value_ref) (opt_leaves T) = opt_entries T"
  "map (leaf_item as_key_ref) (opt_leaves T) = map fst (opt_entries T)"
  "map (leaf_item as_value_ref) (opt_leaves T) = map snd (opt_entries T)"
  "length (opt_leaves T) = length (opt_entries T)"
  by (cases T; auto simp: opt_leaves_def entries_def)+

lemma iter_collect:
  assumes m: "map_state N fr m hp T"
  shows "collect (iter_next op hp) (Suc (num_entries m)) (iter_new m) = Ret (map (leaf_item op) (opt_leaves T))"
    and "collect (iter_next_back op hp) (Suc (num_entries m)) (iter_new m)
      = Ret (rev (map (leaf_item op) (opt_leaves T)))"
proof -
  note l = iter_new_left [OF m, of op]
  have n: "length (map (leaf_item op) (opt_leaves T)) < Suc (num_entries m)"
    using m by (simp add: opt_leaves_items(4) map_state_def)
  show "collect (iter_next op hp) (Suc (num_entries m)) (iter_new m) = Ret (map (leaf_item op) (opt_leaves T))"
    unfolding iter_next_def by (rule it.ex.collect_spec [OF l n])
  show "collect (iter_next_back op hp) (Suc (num_entries m)) (iter_new m)
      = Ret (rev (map (leaf_item op) (opt_leaves T)))"
    unfolding iter_next_back_def by (rule it.ex.collect_back_spec [OF l n])
qed

lemma sorted_opt_entries:
  "map_state N fr m hp T \<Longrightarrow> sorted_wrt (\<lambda>x y. as_bytes (fst x) < as_bytes (fst y)) (opt_entries T)"
  using opt_entries_sorted by (fastforce simp: sorted_wrt_map)

text \<open>
  C11. Iterating over a map yields exactly its entries, in the order of the key bytes, each once;
  \<open>keys\<close> and \<open>values\<close> yield their projections, and iterating from the back the reverse.
\<close>

theorem map_iter:
  assumes "map_state N fr m hp T"
  shows "\<exists>es. collect (iter_next as_key_value_ref hp) (Suc (len_map m)) (iter_new m) = Ret es
    \<and> sorted_wrt (\<lambda>x y. as_bytes (fst x) < as_bytes (fst y)) es
    \<and> (\<forall>kb e. opt_map T kb = Some e \<longleftrightarrow> e \<in> set es \<and> as_bytes (fst e) = kb)
    \<and> collect (iter_next as_key_ref hp) (Suc (len_map m)) (iter_new m) = Ret (map fst es)
    \<and> collect (iter_next as_value_ref hp) (Suc (len_map m)) (iter_new m) = Ret (map snd es)
    \<and> collect (iter_next_back as_key_value_ref hp) (Suc (len_map m)) (iter_new m) = Ret (rev es)"
  unfolding len_map_def iter_collect [OF assms] opt_leaves_items
  using sorted_opt_entries [OF assms] opt_map_entries [OF assms] by blast

theorem map_iter_witness:
  "collect (iter_next as_key_value_ref sample_heap) 3 (iter_new sample_map)
    = Ret [(Key [1, 2] (), 20), (Key [1, 3] (), 30)]"
proof -
  obtain es where es: "collect (iter_next as_key_value_ref sample_heap) 3 (iter_new sample_map) = Ret es"
    "sorted_wrt (\<lambda>x y. as_bytes (fst x) < as_bytes (fst y)) es"
    "\<forall>kb e. opt_map (Some sample_tree) kb = Some e \<longleftrightarrow> e \<in> set es \<and> as_bytes (fst e) = kb"
    using map_iter [OF sample_state] by (auto simp: len_map_def sample_map_def numeral_3_eq_3)
  have "opt_entries (Some sample_tree) = es"
    by (rule opt_entries_unique [OF sample_state]) (use es(2) in \<open>simp add: sorted_wrt_map\<close>, use es(3) in blast)
  with es(1) show ?thesis by (simp add: sample_entries)
qed

text \<open>
  C12. A client may call \<open>next\<close> and \<open>next_back\<close> in any order: the two ends never meet twice.  Calling
  \<open>last\<close> then gives the last of the entries to come.  The
  reported length and size hint are at every moment the exact number of entries to come, and as
  many calls as there are entries yield every entry exactly once.
\<close>

theorem map_iter_mixed:
  assumes "map_state N fr m hp T"
  shows "\<exists>items s'. drive (iter_next as_key_value_ref hp) (iter_next_back as_key_value_ref hp) calls (iter_new m)
      = Ret (items, s')
    \<and> items = fst (take_ends calls (opt_entries T))
    \<and> iter_len s' = length (snd (take_ends calls (opt_entries T)))
    \<and> iter_size_hint s' = (iter_len s', Some (iter_len s'))
    \<and> iter_last as_key_value_ref hp s' = Ret (last_item (snd (take_ends calls (opt_entries T))))
    \<and> (len_map m \<le> length calls \<longrightarrow>
        iter_len s' = 0 \<and> mset (List.map_filter id items) = mset (opt_entries T))"
proof -
  note l = iter_new_left [OF assms, of as_key_value_ref, unfolded opt_leaves_items]
  obtain s' where s': "drive (iter_next as_key_value_ref hp) (iter_next_back as_key_value_ref hp) calls (iter_new m)
      = Ret (fst (take_ends calls (opt_entries T)), s')"
    "exact_traversal.left_exact (iter_stands N as_key_value_ref hp) (Suc (next_addr hp)) s'
        (snd (take_ends calls (opt_entries T)))"
    using it.ex.drive_spec [OF l, of calls] unfolding iter_next_def iter_next_back_def by blast
  have "iter_len s' = length (snd (take_ends calls (opt_entries T)))"
    using s'(2) by (simp add: it.left_exact_def iter_len_def)
  moreover have "len_map m = length (opt_entries T)" using assms by (simp add: len_map_def map_state_def)
  moreover have "iter_last as_key_value_ref hp s' = Ret (last_item (snd (take_ends calls (opt_entries T))))"
    unfolding iter_last_def iter_next_back_def by (rule it.ex.last_spec [OF s'(2)])
  ultimately show ?thesis
    using s'(1) take_ends_all [of "opt_entries T" calls] by (auto simp: iter_size_hint_def iter_len_def)
qed

theorem map_iter_mixed_witness:
  "\<exists>s'. drive (iter_next as_key_value_ref sample_heap) (iter_next_back as_key_value_ref sample_heap)
      [False, True, True] (iter_new sample_map)
    = Ret ([Some (Key [1, 3] (), 30), Some (Key [1, 2] (), 20), None], s') \<and> iter_len s' = 0"
  using map_iter_mixed [OF sample_state, of "[False, True, True]"]
  by (auto simp: sample_entries)

lemma leaves_distinct: "distinct (addrs t) \<Longrightarrow> distinct (map fst (leaves t))"
proof (induction t)
  case (AInner a ty pf ch)
  have sub: "set (map fst (leaves t)) \<subseteq> set (addrs t)" for t :: "('a, 'b) art"
    using leaves_addrs by fastforce
  have "distinct (concat (map (\<lambda>(b, t). map fst (leaves t)) ch))"
    if "distinct (concat (map (\<lambda>(b, t). addrs t) ch))" "\<And>b t. (b, t) \<in> set ch \<Longrightarrow> distinct (map fst (leaves t))"
    for ch :: "(byte \<times> ('a, 'b) art) list"
    using that
  proof (induction ch)
    case (Cons c ch)
    obtain b t where c: "c = (b, t)" by (cases c)
    have "distinct (concat (map (\<lambda>(b, t). map fst (leaves t)) ch))"
      using Cons.prems by (intro Cons.IH) auto
    moreover have "set (concat (map (\<lambda>(b, t). map fst (leaves t)) ch)) \<subseteq> set (concat (map (\<lambda>(b, t). addrs t) ch))"
      using sub by fastforce
    moreover have "distinct (map fst (leaves t))" using Cons.prems(2) [of b t] c by simp
    moreover have "set (addrs t) \<inter> set (concat (map (\<lambda>(b, t). addrs t) ch)) = {}"
      using Cons.prems(1) by (simp add: c)
    ultimately show ?case using sub [of t] by (simp only: c list.map concat.simps prod.case distinct_append) blast
  qed simp
  moreover have "map fst (leaves (AInner a ty pf ch)) = concat (map (\<lambda>(b, t). map fst (leaves t)) ch)"
    by (simp add: map_concat comp_def split_def)
  ultimately show ?case
    using AInner distinct_child [OF AInner.prems] by (metis addrs.simps(2) distinct.simps(2))
qed simp

text \<open>The references that the mutable iterators yield are different, and those of \<open>get_mut\<close>.\<close>

lemma iter_mut_refs:
  assumes m: "map_state N fr m hp T"
  shows "\<exists>kps. collect (iter_next as_key_ref_value_mut hp) (Suc (len_map m)) (iter_new m) = Ret kps
    \<and> collect (iter_next as_value_mut hp) (Suc (len_map m)) (iter_new m) = Ret (map snd kps)
    \<and> distinct (map snd kps) \<and> length kps = len_map m
    \<and> (\<forall>(k, p)\<in>set kps. get_mut hp m (as_bytes k) = Ret (Some p))"
proof -
  let ?kps = "map (leaf_item as_key_ref_value_mut) (opt_leaves T)"
  have ptrs: "map snd ?kps = map (Ptr LeafKind) (map fst (opt_leaves T))"
    "map (leaf_item as_value_mut) (opt_leaves T) = map snd ?kps"
    by (auto simp: opt_leaves_def split: option.splits)
  have "distinct (map fst (opt_leaves T))"
    using m leaves_distinct by (cases T) (auto simp: opt_leaves_def map_state_def holds_def)
  then have "distinct (map snd ?kps)"
    unfolding ptrs distinct_map by (auto intro: inj_onI)
  moreover have "length ?kps = len_map m"
    using m by (simp add: opt_leaves_items(4) map_state_def len_map_def)
  moreover have "get_mut hp m (as_bytes k) = Ret (Some p)" if kp: "(k, p) \<in> set ?kps" for k p
  proof (cases T)
    case None
    then show ?thesis using kp by (simp add: opt_leaves_def)
  next
    case (Some t)
    then have t: "map_root m = Some (root_ptr t)" "wf_art [] t" "holds N hp t" using m by (auto simp: map_state_def)
    obtain a v where a: "(a, k, v) \<in> set (leaves t)" "p = Ptr LeafKind a"
      using kp Some by (auto simp: opt_leaves_def)
    then have "leaf_at t (as_bytes k) = Some (a, k, v)" by (simp add: leaf_at_eq [OF t(2)])
    then have "search_unchecked hp (root_ptr t) (as_bytes k) = Ret (Some p)"
      using search_unchecked_spec [OF t(3,2), of "as_bytes k"] a(2) by simp
    then show ?thesis
      using t(1) read_leaf_of [OF t(3) a(1)] a(2) by (simp add: get_mut_def)
  qed
  ultimately show ?thesis
    using iter_collect(1) [OF m, of as_key_ref_value_mut] iter_collect(1) [OF m, of as_value_mut]
    unfolding len_map_def ptrs(2) by blast
qed

text \<open>
  C14. The owning iterator yields every entry exactly once, whatever the order of calls to its two
  ends, and the map is well-formed after every step; when it is exhausted, everything the map
  had allocated has been freed and nothing else.
\<close>

theorem map_into_iter:
  assumes m: "map_state N fr m hp T"
  shows "\<exists>items m' hp' T'. drive into_iter_next into_iter_next_back calls (m, hp) = Ret (items, (m', hp'))
    \<and> items = fst (take_ends calls (opt_entries T)) \<and> map_state N fr m' hp' T'
    \<and> opt_entries T' = snd (take_ends calls (opt_entries T))
    \<and> into_iter_size_hint (m', hp') = (length (opt_entries T'), Some (length (opt_entries T')))
    \<and> (len_map m \<le> length calls \<longrightarrow>
        mset (List.map_filter id items) = mset (opt_entries T) \<and> cells hp' = fr)"
proof -
  have "into_left N fr (m, hp) (opt_entries T)" using m by (auto simp: into_left_def)
  from into.drive_spec [OF this, of calls] obtain m' hp' T' where
    d: "drive into_iter_next into_iter_next_back calls (m, hp) = Ret (fst (take_ends calls (opt_entries T)), (m', hp'))"
    and T': "map_state N fr m' hp' T'" "opt_entries T' = snd (take_ends calls (opt_entries T))"
    by (auto simp: into_left_def)
  have len: "len_map m = length (opt_entries T)" using m by (simp add: len_map_def map_state_def)
  have "cells hp' = fr" if "opt_entries T' = []"
  proof -
    have "T' = None"
      using that T'(1) leaves_ne by (cases T') (fastforce simp: map_state_def entries_def)+
    then show ?thesis using T'(1) by (auto simp: map_state_def)
  qed
  moreover have "into_iter_size_hint (m', hp') = (length (opt_entries T'), Some (length (opt_entries T')))"
    using T'(1) by (simp add: into_iter_size_hint_def len_map_def map_state_def)
  ultimately show ?thesis
    using d T' take_ends_all [of "opt_entries T" calls] len by (intro exI [of _ "fst (take_ends calls (opt_entries T))"] exI [of _ m'] exI [of _ hp'] exI [of _ T']) simp
qed

theorem map_into_iter_witness:
  "\<exists>m' hp'. drive into_iter_next into_iter_next_back [True, False] (sample_map, sample_heap)
    = Ret ([Some (Key [1, 2] (), 20), Some (Key [1, 3] (), 30)], (m', hp')) \<and> cells hp' = sample_frame"
  using map_into_iter [OF sample_state, of "[True, False]"]
  by (auto simp: sample_entries len_map_def sample_map_def)

end
