(* ===== verification/Prefix_Search.thy ===== *)
theory Prefix_Search
  imports Iterators
begin

text \<open>
  The iterators over the entries whose key starts with given bytes
  (\<open>src/src/collections/map/iterators/prefix.rs\<close>).  The deque holds nodes with the depth at
  which they are met; a node at a depth beyond the searched bytes is in the result with
  everything below it, any other node lies on the path that the searched bytes describe.
\<close>

section \<open>Operations\<close>

definition is_prefix_of :: "bytes \<Rightarrow> bytes \<Rightarrow> nat option" where
  "is_prefix_of a b =
     (let mn = min (length a) (length b); matched = matching_len a b in
      if mn = matched then Some matched else None)"

definition push_children :: "node_ptr inner \<Rightarrow> nat \<Rightarrow> (node_ptr \<times> nat) list outcome" where
  \<comment> \<open>\<open>push_back_rev_iter\<close> and \<open>push_front\<close>: the children in key order\<close>
  "push_children n depth = and_then (inner_iter n) (\<lambda>children. Ret (map (\<lambda>(_, c). (c, depth)) children))"

definition add_children ::
    "('k, 'v) heap \<Rightarrow> bytes \<Rightarrow> node_ptr inner \<Rightarrow> nat \<Rightarrow> (node_ptr \<times> nat) list outcome" where
  "add_children hp pfx n current_depth =
     (if length pfx \<le> current_depth then
        push_children n (current_depth + prefix_len (inner_header n) + 1)
      else
        and_then (inner_read_full_prefix (Suc (next_addr hp)) hp n current_depth) (\<lambda>(path, _).
        and_then (slice_range pfx current_depth (length pfx)) (\<lambda>rest.
        case is_prefix_of path rest of None \<Rightarrow> Ret []
        | Some matched \<Rightarrow>
            let new_depth = current_depth + matched in
            if length pfx \<le> new_depth then push_children n (new_depth + 1)
            else
              and_then (slice_range pfx new_depth (length pfx)) (\<lambda>rest.
              and_then (unwrap (case rest of [] \<Rightarrow> None | b # _ \<Rightarrow> Some b)) (\<lambda>key.
              and_then (inner_iter n) (\<lambda>children.
              case find (\<lambda>(k, _). k = key) children of
                None \<Rightarrow> Ret []
              | Some (_, c) \<Rightarrow> Ret [(c, new_depth + 1)]))))))"

definition handle_leaf :: "bytes \<Rightarrow> nat \<Rightarrow> ('k, 'v) leaf \<Rightarrow> bool outcome" where
  "handle_leaf pfx current_depth l =
     (let key = as_bytes (leaf_key l) in
      if length pfx \<le> current_depth then Ret True
      else if length key < length pfx then Ret False
      else
        and_then (slice_range key current_depth (length key)) (\<lambda>key.
        and_then (slice_range pfx current_depth (length pfx)) (\<lambda>rest.
        Ret (is_prefix_of key rest \<noteq> None))))"

definition prefix_visit ::
    "(node_ptr \<Rightarrow> ('k, 'v) leaf \<Rightarrow> 'r) \<Rightarrow> ('k, 'v) heap \<Rightarrow> bytes \<Rightarrow> node_ptr \<times> nat
      \<Rightarrow> (node_ptr \<times> nat, 'r) visited outcome" where
  "prefix_visit op hp pfx = (\<lambda>(node, current_depth).
     if ptr_type node = LeafKind then
       and_then (read_leaf hp node) (\<lambda>l.
       and_then (handle_leaf pfx current_depth l) (\<lambda>found.
       Ret (Leaf (if found then Some (op node l) else None))))
     else
       and_then (read_inner hp node) (\<lambda>n.
       and_then (add_children hp pfx n current_depth) (\<lambda>es. Ret (Push es))))"

definition prefix_new :: "treemap \<Rightarrow> (node_ptr \<times> nat) list \<times> nat" where
  "prefix_new m = ((case map_root m of None \<Rightarrow> [] | Some root \<Rightarrow> [(root, 0)]), num_entries m)"

definition prefix_next ::
    "(node_ptr \<Rightarrow> ('k, 'v) leaf \<Rightarrow> 'r) \<Rightarrow> ('k, 'v) heap \<Rightarrow> bytes \<Rightarrow> ((node_ptr \<times> nat) list \<times> nat, 'r) step" where
  "prefix_next op hp pfx = deque_next (prefix_visit op hp pfx) (Suc (next_addr hp))"

definition prefix_next_back ::
    "(node_ptr \<Rightarrow> ('k, 'v) leaf \<Rightarrow> 'r) \<Rightarrow> ('k, 'v) heap \<Rightarrow> bytes \<Rightarrow> ((node_ptr \<times> nat) list \<times> nat, 'r) step" where
  "prefix_next_back op hp pfx = deque_next_back (prefix_visit op hp pfx) (Suc (next_addr hp))"

definition prefix_size_hint :: "(node_ptr \<times> nat) list \<times> nat \<Rightarrow> nat \<times> nat option" where
  "prefix_size_hint it = (0, Some (snd it))"

definition prefix_last ::
    "(node_ptr \<Rightarrow> ('k, 'v) leaf \<Rightarrow> 'r) \<Rightarrow> ('k, 'v) heap \<Rightarrow> bytes \<Rightarrow> (node_ptr \<times> nat) list \<times> nat \<Rightarrow> 'r option outcome" where
  "prefix_last op hp pfx it = and_then (prefix_next_back op hp pfx it) (\<lambda>(r, _). Ret r)"

section \<open>Correctness of a visit\<close>

lemma is_prefix_of_eq:
  "is_prefix_of a b = (if Sublist.prefix a b then Some (length a)
     else if Sublist.prefix b a then Some (length b) else None)"
  using matching_len_full_iff [of a b] matching_len_full_iff [of b a] matching_len_le [of a b]
    prefix_length_le [of a b] prefix_length_le [of b a] matching_len_commute [of a b]
  by (auto simp: is_prefix_of_def Let_def min_def)

definition with_prefix :: "bytes \<Rightarrow> (nat \<times> 'k key \<times> 'v) list \<Rightarrow> (nat \<times> 'k key \<times> 'v) list" where
  "with_prefix pfx ls = filter (\<lambda>(a, k, v). Sublist.prefix pfx (as_bytes k)) ls"

definition prefix_below :: "bytes \<Rightarrow> (node_ptr \<Rightarrow> ('k, 'v) leaf \<Rightarrow> 'r) \<Rightarrow> ('k, 'v) art \<Rightarrow> 'r below" where
  "prefix_below pfx op t = \<lparr>below_items = map (leaf_item op) (with_prefix pfx (leaves t)),
     below_nodes = length (addrs t), below_leaves = length (leaves t)\<rparr>"

definition prefix_at :: "bytes \<Rightarrow> bytes \<Rightarrow> ('k, 'v) art \<Rightarrow> nat \<Rightarrow> bool" where
  \<comment> \<open>at a depth beyond the searched bytes everything matches; before, we are on their path\<close>
  "prefix_at pfx path t depth \<longleftrightarrow>
     (if length pfx \<le> depth then \<forall>(a, k, v)\<in>set (leaves t). Sublist.prefix pfx (as_bytes k)
      else depth = length path \<and> Sublist.prefix path pfx)"

definition prefix_stands ::
    "nat \<Rightarrow> (node_ptr \<Rightarrow> ('k, 'v) leaf \<Rightarrow> 'r) \<Rightarrow> ('k, 'v) heap \<Rightarrow> bytes \<Rightarrow> node_ptr \<times> nat \<Rightarrow> 'r below \<Rightarrow> bool" where
  "prefix_stands N op hp pfx e i \<longleftrightarrow> (\<exists>t path. fst e = root_ptr t \<and> represents N hp t \<and> wf_art path t
     \<and> height t \<le> next_addr hp \<and> prefix_at pfx path t (snd e) \<and> i = prefix_below pfx op t)"

text \<open>The items below an inner node are those below its children; only one child counts when
  the next byte is determined.\<close>

lemma with_prefix_children:
  "with_prefix pfx (leaves (AInner a ty pf ch)) = concat (map (\<lambda>(b, t). with_prefix pfx (leaves t)) ch)"
  by (induction ch) (auto simp: with_prefix_def)

lemma with_prefix_none:
  assumes "wf_art path t" "\<not> Sublist.prefix pfx path" "\<not> Sublist.prefix path pfx"
  shows "with_prefix pfx (leaves t) = []"
proof -
  have "\<not> Sublist.prefix pfx (as_bytes k)" if "(a, k, v) \<in> set (leaves t)" for a k v
    using wf_leaf_path [OF assms(1) that] assms(2,3) prefix_same_cases by blast
  then show ?thesis by (auto simp: with_prefix_def filter_empty_conv)
qed

lemma with_prefix_all:
  "wf_art path t \<Longrightarrow> Sublist.prefix pfx path \<Longrightarrow> (a, k, v) \<in> set (leaves t) \<Longrightarrow> Sublist.prefix pfx (as_bytes k)"
  by (rule prefix_order.trans [OF _ wf_leaf_path])

lemma concat_one_key:
  assumes "sorted_keys ch" "\<And>c t. (c, t) \<in> set ch \<Longrightarrow> c \<noteq> b \<Longrightarrow> f t = []"
  shows "concat (map (\<lambda>(c, t). f t) ch) = (case map_of ch b of None \<Rightarrow> [] | Some t \<Rightarrow> f t)"
  using assms
proof (induction ch)
  case (Cons x ch)
  obtain c t where x: "x = (c, t)" by (cases x)
  have IH: "concat (map (\<lambda>(c, t). f t) ch) = (case map_of ch b of None \<Rightarrow> [] | Some t \<Rightarrow> f t)"
    using Cons.prems by (intro Cons.IH) auto
  show ?case
  proof (cases "c = b")
    case True
    then have "b \<notin> fst ` set ch" using Cons.prems(1) x by auto
    then have "map_of ch b = None" by (simp add: map_of_eq_None_iff)
    then show ?thesis using IH True x by simp
  next
    case False
    then have "f t = []" using Cons.prems(2) [of c t] x by simp
    then show ?thesis using IH False x by simp
  qed
qed simp

lemma find_key: "find (\<lambda>(k, _). k = b) xs = map_option (\<lambda>v. (b, v)) (map_of xs b)"
  by (induction xs) auto

lemma prefix_below_children:
  "below_items (prefix_below pfx op (AInner a ty pf ch))
     = concat (map below_items (map (prefix_below pfx op \<circ> snd) ch))"
  "sum_list (map below_nodes (map (prefix_below pfx op \<circ> snd) ch)) < below_nodes (prefix_below pfx op (AInner a ty pf ch))"
  "sum_list (map below_leaves (map (prefix_below pfx op \<circ> snd) ch)) = below_leaves (prefix_below pfx op (AInner a ty pf ch))"
proof -
  show "below_items (prefix_below pfx op (AInner a ty pf ch))
     = concat (map below_items (map (prefix_below pfx op \<circ> snd) ch))"
    unfolding prefix_below_def with_prefix_children by (induction ch) auto
  have "sum_list (map below_nodes (map (prefix_below pfx op \<circ> snd) ch)) = length (concat (map (\<lambda>(b, t). addrs t) ch))"
    by (induction ch) (auto simp: prefix_below_def)
  then show "sum_list (map below_nodes (map (prefix_below pfx op \<circ> snd) ch)) < below_nodes (prefix_below pfx op (AInner a ty pf ch))"
    by (simp add: prefix_below_def)
  show "sum_list (map below_leaves (map (prefix_below pfx op \<circ> snd) ch)) = below_leaves (prefix_below pfx op (AInner a ty pf ch))"
    by (induction ch) (auto simp: prefix_below_def)
qed

lemma prefix_stands_child:
  assumes "represents N hp (AInner a ty pf ch)" "wf_art path (AInner a ty pf ch)"
    "height (AInner a ty pf ch) \<le> next_addr hp" "(b, t) \<in> set ch" "prefix_at pfx (path @ pf @ [b]) t d"
  shows "prefix_stands N op hp pfx (root_ptr t, d) (prefix_below pfx op t)"
proof -
  have "represents N hp t" using assms(1,4) by auto
  moreover have "wf_art (path @ pf @ [b]) t" by (rule wf_child [OF assms(2,4)])
  moreover have "height t \<le> next_addr hp" using height_child [OF assms(4), of a ty pf] assms(3) by simp
  ultimately show ?thesis using assms(5) unfolding prefix_stands_def by fastforce
qed

text \<open>All children, at a depth beyond the searched bytes.\<close>

lemma push_children_spec:
  assumes r: "represents N hp (AInner a ty pf ch)" and w: "wf_art path (AInner a ty pf ch)"
    and h: "height (AInner a ty pf ch) \<le> next_addr hp" and n: "node_ok N n ty pf (child_ptrs ch)"
    and d: "length pfx \<le> d"
    and all: "\<forall>(a, k, v)\<in>set (leaves (AInner a ty pf ch)). Sublist.prefix pfx (as_bytes k)"
  shows "\<exists>es. push_children n d = Ret es
    \<and> list_all2 (prefix_stands N op hp pfx) es (map (prefix_below pfx op \<circ> snd) ch)"
proof -
  have "push_children n d = Ret (map (\<lambda>(b, t). (root_ptr t, d)) ch)"
    using node_okD(8) [OF n] by (simp add: push_children_def child_ptrs_def comp_def split_def)
  moreover have "prefix_stands N op hp pfx (root_ptr t, d) (prefix_below pfx op t)" if "(b, t) \<in> set ch" for b t
  proof (intro prefix_stands_child [OF r w h that])
    have "set (leaves t) \<subseteq> set (leaves (AInner a ty pf ch))" using that by auto
    then show "prefix_at pfx (path @ pf @ [b]) t d" using all d by (simp add: prefix_at_def subset_eq del: leaves.simps)
  qed
  then have "list_all2 (prefix_stands N op hp pfx) (map (\<lambda>(b, t). (root_ptr t, d)) ch)
      (map (prefix_below pfx op \<circ> snd) ch)"
    unfolding list_all2_map1 list_all2_map2 list_all2_same by auto
  ultimately show ?thesis by blast
qed

lemma add_children_spec:
  assumes r: "represents N hp (AInner a ty pf ch)" and w: "wf_art path (AInner a ty pf ch)"
    and h: "height (AInner a ty pf ch) \<le> next_addr hp"
    and n: "read_inner hp (Ptr ty a) = Ret n" "node_ok N n ty pf (child_ptrs ch)"
    and d: "prefix_at pfx path (AInner a ty pf ch) d"
  shows "\<exists>es ks. add_children hp pfx n d = Ret es \<and> list_all2 (prefix_stands N op hp pfx) es ks
    \<and> concat (map below_items ks) = below_items (prefix_below pfx op (AInner a ty pf ch))
    \<and> sum_list (map below_nodes ks) < below_nodes (prefix_below pfx op (AInner a ty pf ch))
    \<and> sum_list (map below_leaves ks) \<le> below_leaves (prefix_below pfx op (AInner a ty pf ch))"
proof -
  have all: ?thesis if "add_children hp pfx n d = push_children n d'" "length pfx \<le> d'"
    "\<forall>(a, k, v)\<in>set (leaves (AInner a ty pf ch)). Sublist.prefix pfx (as_bytes k)" for d'
    using push_children_spec [OF r w h n(2) that(2,3), of op] that(1)
      prefix_below_children [where pfx = pfx and op = op and a = a and ty = ty and pf = pf and ch = ch] by (metis order_refl)
  show ?thesis
  proof (cases "length pfx \<le> d")
    case True
    then show ?thesis
      using d by (intro all [of "d + prefix_len (inner_header n) + 1"]) (auto simp: add_children_def prefix_at_def)
  next
    case False
    then obtain rest where rest: "pfx = path @ rest" "d = length path" "rest \<noteq> []"
      using d by (auto simp: prefix_at_def prefix_def)
    obtain lp where "inner_read_full_prefix (Suc (next_addr hp)) hp n d = Ret (pf, lp)"
      using read_full_prefix_spec [OF r w _ n(1), of "Suc (next_addr hp)"] h rest(2) by auto
    moreover have "slice_range pfx d (length pfx) = Ret rest" by (simp add: slice_range_def rest)
    ultimately have add: "add_children hp pfx n d =
        (case is_prefix_of pf rest of None \<Rightarrow> Ret []
        | Some matched \<Rightarrow>
            if length pfx \<le> d + matched then push_children n (d + matched + 1)
            else
              and_then (slice_range pfx (d + matched) (length pfx)) (\<lambda>rest.
              and_then (unwrap (case rest of [] \<Rightarrow> None | b # _ \<Rightarrow> Some b)) (\<lambda>key.
              and_then (inner_iter n) (\<lambda>children.
              case find (\<lambda>(k, _). k = key) children of
                None \<Rightarrow> Ret []
              | Some (_, c) \<Rightarrow> Ret [(c, d + matched + 1)]))))"
      using False unfolding add_children_def Let_def by simp
    show ?thesis
    proof (cases "Sublist.prefix rest pf")
      case True
      have "Sublist.prefix pfx (as_bytes k)" if mem: "(a', k, v) \<in> set (leaves (AInner a ty pf ch))" for a' k v
      proof -
        obtain b t where bt: "(b, t) \<in> set ch" "(a', k, v) \<in> set (leaves t)" using mem by auto
        have "Sublist.prefix pfx (path @ pf @ [b])" using True by (auto simp: rest(1) prefix_def)
        then show ?thesis using with_prefix_all [OF wf_child [OF w bt(1)] _ bt(2)] by simp
      qed
      then have "\<forall>(a, k, v)\<in>set (leaves (AInner a ty pf ch)). Sublist.prefix pfx (as_bytes k)" by blast
      moreover have isp: "is_prefix_of pf rest = Some (length rest)"
        using True prefix_order.antisym [of pf rest] by (auto simp: is_prefix_of_eq)
      have len: "length pfx = d + length rest" by (simp add: rest(1,2))
      then have "add_children hp pfx n d = push_children n (d + length rest + 1)"
        unfolding add isp option.case by simp
      ultimately show ?thesis using len by (intro all [of "d + length rest + 1"]) simp_all
    next
      case no_rest: False
      show ?thesis
      proof (cases "Sublist.prefix pf rest")
        case False
        then have "is_prefix_of pf rest = None" using no_rest by (simp add: is_prefix_of_eq)
        moreover have "\<not> Sublist.prefix pfx (path @ pf)" "\<not> Sublist.prefix (path @ pf) pfx"
          using False no_rest by (simp_all add: rest(1))
        then have "with_prefix pfx (leaves t) = []" if "(b, t) \<in> set ch" for b t
          using False no_rest by (intro with_prefix_none [OF wf_child [OF w that]])
            (auto simp: rest(1) prefix_snoc dest: append_prefixD)
        then have "with_prefix pfx (leaves (AInner a ty pf ch)) = []"
          unfolding with_prefix_children by auto
        ultimately show ?thesis
          by (intro exI [of _ "[]"]) (simp add: add prefix_below_def del: leaves.simps)
      next
        case True
        then obtain b r' where r': "rest = pf @ b # r'"
          using no_rest by (metis append_Nil2 list.exhaust prefix_def prefix_order.refl)
        have isp: "is_prefix_of pf rest = Some (length pf)" using True by (simp add: is_prefix_of_eq)
        have slice: "slice_range pfx (d + length pf) (length pfx) = Ret (b # r')"
          by (simp add: slice_range_def rest r')
        have find: "find (\<lambda>(k, _). k = b) (child_ptrs ch) = map_option (\<lambda>t. (b, root_ptr t)) (map_of ch b)"
          by (simp add: find_key map_of_child_ptrs option.map_comp comp_def)
        have "\<not> length pfx \<le> d + length pf" by (simp add: rest(1,2) r')
        then have "add_children hp pfx n d
            = Ret (case map_of ch b of None \<Rightarrow> [] | Some t \<Rightarrow> [(root_ptr t, d + length pf + 1)])"
          unfolding add isp option.case by (simp add: slice node_okD(8) [OF n(2)] find split: option.split)
        moreover have "d + length pf + 1 = length (path @ pf @ [b])" by (simp add: rest(2))
        ultimately have a: "add_children hp pfx n d = Ret (case map_of ch b of None \<Rightarrow> []
            | Some t \<Rightarrow> [(root_ptr t, length (path @ pf @ [b]))])" by (simp only:)
        have "with_prefix pfx (leaves t) = []" if "(c, t) \<in> set ch" "c \<noteq> b" for c t
          using that(2) by (intro with_prefix_none [OF wf_child [OF w that(1)]]) (auto simp: rest(1) r')
        then have one: "with_prefix pfx (leaves (AInner a ty pf ch))
            = (case map_of ch b of None \<Rightarrow> [] | Some t \<Rightarrow> with_prefix pfx (leaves t))"
          unfolding with_prefix_children using w by (intro concat_one_key) auto
        show ?thesis
        proof (cases "map_of ch b")
          case None
          then show ?thesis using one by (intro exI [of _ "[]"]) (simp add: a prefix_below_def del: leaves.simps)
        next
          case (Some t)
          then have t: "(b, t) \<in> set ch" by (rule map_of_SomeD)
          have "prefix_at pfx (path @ pf @ [b]) t (length (path @ pf @ [b]))"
          proof (cases "r' = []")
            case True
            then have "pfx = path @ pf @ [b]" by (simp add: rest(1) r')
            then show ?thesis using wf_leaf_path [OF wf_child [OF w t]] by (auto simp: prefix_at_def)
          next
            case False
            then show ?thesis by (auto simp: prefix_at_def rest(1) r')
          qed
          then have "prefix_stands N op hp pfx (root_ptr t, length (path @ pf @ [b])) (prefix_below pfx op t)"
            by (rule prefix_stands_child [OF r w h t])
          moreover have "length (addrs t) < length (addrs (AInner a ty pf ch))"
            "length (leaves t) \<le> length (leaves (AInner a ty pf ch))"
            using length_concat_le [OF t, of addrs] length_concat_le [OF t, of leaves] by simp_all
          ultimately show ?thesis
            using one Some unfolding a
            by (intro exI [of _ "[(root_ptr t, length (path @ pf @ [b]))]"] exI [of _ "[prefix_below pfx op t]"])
              (simp add: prefix_below_def del: leaves.simps addrs.simps)
        qed
      qed
    qed
  qed
qed

lemma handle_leaf_spec:
  assumes "wf_art path (ALeaf a k v)" "prefix_at pfx path (ALeaf a k v) d"
  shows "handle_leaf pfx d \<lparr>leaf_key = k, leaf_value = v\<rparr> = Ret (Sublist.prefix pfx (as_bytes k))"
proof (cases "length pfx \<le> d")
  case True
  then show ?thesis using assms(2) by (simp add: handle_leaf_def prefix_at_def)
next
  case False
  then obtain rest where rest: "pfx = path @ rest" "d = length path"
    using assms(2) by (auto simp: prefix_at_def prefix_def)
  obtain z where z: "as_bytes k = path @ z" using assms(1) by (auto simp: prefix_def)
  have "Sublist.prefix z rest \<Longrightarrow> length rest \<le> length z \<Longrightarrow> z = rest" by (auto simp: prefix_def)
  then show ?thesis
    using False prefix_length_le [of z rest]
    by (auto simp: handle_leaf_def Let_def rest z slice_range_def is_prefix_of_eq dest: prefix_length_le
        intro: prefix_order.antisym)
qed

interpretation pre: traversal "prefix_visit op hp pfx" "prefix_stands N op hp pfx"
proof unfold_locales
  fix e and i :: "'c below"
  assume "prefix_stands N op hp pfx e i"
  then obtain t path d where t: "e = (root_ptr t, d)" "represents N hp t" "wf_art path t"
    "height t \<le> next_addr hp" "prefix_at pfx path t d" "i = prefix_below pfx op t"
    unfolding prefix_stands_def by (metis prod.collapse)
  show "length (below_items i) \<le> below_leaves i"
    by (simp add: t(6) prefix_below_def with_prefix_def)
  show "\<exists>v. prefix_visit op hp pfx e = Ret v \<and>
      (case v of
         Push es \<Rightarrow> \<exists>ks. list_all2 (prefix_stands N op hp pfx) es ks \<and> concat (map below_items ks) = below_items i
           \<and> sum_list (map below_nodes ks) < below_nodes i
           \<and> sum_list (map below_leaves ks) \<le> below_leaves i
       | Leaf r \<Rightarrow> below_items i = (case r of None \<Rightarrow> [] | Some x \<Rightarrow> [x])
           \<and> 0 < below_nodes i \<and> 0 < below_leaves i)"
  proof (cases t)
    case (ALeaf a k v)
    have "handle_leaf pfx d \<lparr>leaf_key = k, leaf_value = v\<rparr> = Ret (Sublist.prefix pfx (as_bytes k))"
      by (intro handle_leaf_spec [OF t(3,5) [unfolded ALeaf]])
    then show ?thesis
      using t(1,2) ALeaf
      by (auto simp: prefix_visit_def read_leaf_def t(6) prefix_below_def with_prefix_def leaf_item_def)
  next
    case (AInner a ty pf ch)
    obtain n where n: "read_inner hp (Ptr ty a) = Ret n" "node_ok N n ty pf (child_ptrs ch)" "ty \<noteq> LeafKind"
      using read_inner_Ret [of N hp a ty pf ch] t(2) AInner by metis
    obtain es ks where es: "add_children hp pfx n d = Ret es" "list_all2 (prefix_stands N op hp pfx) es ks"
      "concat (map below_items ks) = below_items i" "sum_list (map below_nodes ks) < below_nodes i"
      "sum_list (map below_leaves ks) \<le> below_leaves i"
      using add_children_spec [of N hp a ty pf ch path n pfx d op] t AInner n(1,2) by blast
    have "prefix_visit op hp pfx e = Ret (Push es)"
      using n es(1) by (simp add: prefix_visit_def t(1) AInner)
    with es(2-) show ?thesis by (intro exI [of _ "Push es"]) auto
  qed
qed

lemma prefix_new_left:
  assumes "map_state N fr m hp T"
  shows "traversal.left (prefix_stands N op hp pfx) (Suc (next_addr hp)) (prefix_new m)
    (map (leaf_item op) (with_prefix pfx (opt_leaves T)))"
proof (cases T)
  case None
  then show ?thesis
    using assms by (auto simp: pre.left_def prefix_new_def map_state_def opt_leaves_def with_prefix_def)
next
  case (Some t)
  then have t: "map_root m = Some (root_ptr t)" "wf_art [] t" "holds N hp t" "num_entries m = length (leaves t)"
    using assms by (auto simp: map_state_def entries_def)
  then have "prefix_stands N op hp pfx (root_ptr t, 0) (prefix_below pfx op t)"
    using holds_height [OF t(3)] unfolding prefix_stands_def by (fastforce simp: holds_def prefix_at_def)
  then show ?thesis
    using t length_addrs_bound [OF t(3)] unfolding pre.left_def
    by (intro exI [of _ "[prefix_below pfx op t]"])
      (simp_all add: prefix_new_def Some opt_leaves_def prefix_below_def)
qed

lemma with_prefix_entries:
  "map (leaf_item as_key_value_ref) (with_prefix pfx (opt_leaves T))
    = filter (\<lambda>e. Sublist.prefix pfx (as_bytes (fst e))) (opt_entries T)"
proof -
  have "map (leaf_item as_key_value_ref) (with_prefix pfx ls)
      = filter (\<lambda>e. Sublist.prefix pfx (as_bytes (fst e))) (map (leaf_item as_key_value_ref) ls)"
    for ls :: "(nat \<times> 'a key \<times> 'b) list"
    by (induction ls) (auto simp: with_prefix_def)
  then show ?thesis by (simp add: opt_leaves_items(1) [symmetric])
qed

lemma prefix_collect:
  fixes pfx :: bytes
  assumes m: "map_state N fr m hp T"
  defines "es \<equiv> filter (\<lambda>e. Sublist.prefix pfx (as_bytes (fst e))) (opt_entries T)"
  shows "collect (prefix_next as_key_value_ref hp pfx) (Suc (len_map m)) (prefix_new m) = Ret es"
    and "collect (prefix_next_back as_key_value_ref hp pfx) (Suc (len_map m)) (prefix_new m) = Ret (rev es)"
proof -
  note l = prefix_new_left [OF m, of as_key_value_ref pfx, unfolded with_prefix_entries, folded es_def]
  have n: "length es < Suc (len_map m)"
    using m by (simp add: es_def map_state_def len_map_def le_imp_less_Suc)
  show "collect (prefix_next as_key_value_ref hp pfx) (Suc (len_map m)) (prefix_new m) = Ret es"
    unfolding prefix_next_def by (rule pre.de.collect_spec [OF l n])
  show "collect (prefix_next_back as_key_value_ref hp pfx) (Suc (len_map m)) (prefix_new m) = Ret (rev es)"
    unfolding prefix_next_back_def by (rule pre.de.collect_back_spec [OF l n])
qed

text \<open>
  C16. The prefix iterators yield exactly the entries whose key starts with the searched bytes,
  in key order, each once, whatever the order of calls to \<open>next\<close> and \<open>next_back\<close>; after any calls
  \<open>last\<close> is the last of the entries that are left, and the upper
  bound of the size hint is one.
\<close>

theorem map_prefix:
  assumes m: "map_state N fr m hp T"
  shows "\<exists>es. es = filter (\<lambda>e. Sublist.prefix pfx (as_bytes (fst e))) (opt_entries T)
    \<and> collect (prefix_next as_key_value_ref hp pfx) (Suc (len_map m)) (prefix_new m) = Ret es
    \<and> collect (prefix_next_back as_key_value_ref hp pfx) (Suc (len_map m)) (prefix_new m) = Ret (rev es)
    \<and> (\<forall>calls. \<exists>s'. drive (prefix_next as_key_value_ref hp pfx) (prefix_next_back as_key_value_ref hp pfx)
        calls (prefix_new m) = Ret (fst (take_ends calls es), s')
      \<and> prefix_last as_key_value_ref hp pfx s' = Ret (last_item (snd (take_ends calls es)))
      \<and> (\<exists>b. prefix_size_hint s' = (0, Some b) \<and> length (snd (take_ends calls es)) \<le> b))"
proof -
  let ?es = "filter (\<lambda>e. Sublist.prefix pfx (as_bytes (fst e))) (opt_entries T)"
  note l = prefix_new_left [OF m, of as_key_value_ref pfx, unfolded with_prefix_entries]
  have "\<exists>s'. drive (prefix_next as_key_value_ref hp pfx) (prefix_next_back as_key_value_ref hp pfx)
        calls (prefix_new m) = Ret (fst (take_ends calls ?es), s')
      \<and> prefix_last as_key_value_ref hp pfx s' = Ret (last_item (snd (take_ends calls ?es)))
      \<and> (\<exists>b. prefix_size_hint s' = (0, Some b) \<and> length (snd (take_ends calls ?es)) \<le> b)" for calls
    using pre.de.drive_spec [OF l, of calls] pre.left_size pre.de.last_spec
    unfolding prefix_next_def prefix_next_back_def prefix_size_hint_def prefix_last_def by blast
  with prefix_collect [OF m, of pfx] show ?thesis by blast
qed

theorem map_prefix_witness:
  "collect (prefix_next as_key_value_ref sample_heap [1, 3]) 3 (prefix_new sample_map) = Ret [(Key [1, 3] (), 30)]"
  using map_prefix [OF sample_state, of "[1, 3]"]
  by (auto simp: sample_entries len_map_def sample_map_def numeral_3_eq_3)

end
