(* ===== verification/Edit_Distance.thy ===== *)
theory Edit_Distance
  imports Prelude
begin

text \<open>
  The edit distance of two byte strings, as the specification of the fuzzy search: the least
  number of insertions, deletions and substitutions that turn one into the other.  The code
  computes it row by row from the front of both strings; \<open>dist_row\<close> is such a row.
\<close>

section \<open>Edit scripts\<close>

inductive edits :: "nat \<Rightarrow> 'a list \<Rightarrow> 'a list \<Rightarrow> bool" where
  edits_Nil: "edits 0 [] []"
| edits_keep: "edits n xs ys \<Longrightarrow> edits n (x # xs) (x # ys)"
| edits_substitute: "edits n xs ys \<Longrightarrow> edits (Suc n) (x # xs) (y # ys)"
| edits_delete: "edits n xs ys \<Longrightarrow> edits (Suc n) (x # xs) ys"
| edits_insert: "edits n xs ys \<Longrightarrow> edits (Suc n) xs (y # ys)"

code_pred edits .

lemma edits_swap: "edits n xs ys \<Longrightarrow> edits n ys xs"
  by (induction rule: edits.induct) (auto intro: edits.intros)

lemma edits_snoc:
  assumes "edits n xs ys"
  shows "edits n (xs @ [x]) (ys @ [x])" and "edits (Suc n) (xs @ [x]) (ys @ [y])"
    and "edits (Suc n) (xs @ [x]) ys" and "edits (Suc n) xs (ys @ [y])"
  using assms by (induction rule: edits.induct) (auto intro: edits.intros)

lemma edits_rev: "edits n xs ys \<Longrightarrow> edits n (rev xs) (rev ys)"
  by (induction rule: edits.induct) (auto intro: edits_snoc edits_Nil)

fun lev :: "'a list \<Rightarrow> 'a list \<Rightarrow> nat" where
  "lev [] ys = length ys"
| "lev (x # xs) [] = Suc (length xs)"
| "lev (x # xs) (y # ys) =
     (if x = y then lev xs ys else Suc (min (min (lev xs ys) (lev (x # xs) ys)) (lev xs (y # ys))))"

lemma lev_Nil2 [simp]: "lev xs [] = length xs"
  by (cases xs) simp_all

lemma lev_commute: "lev xs ys = lev ys xs"
  by (induction xs ys rule: lev.induct) (auto simp: min.assoc min.left_commute min.commute)

text \<open>One more byte changes the distance by at most one.\<close>

lemma lev_step: "lev (x # xs) ys \<le> Suc (lev xs ys) \<and> lev xs ys \<le> Suc (lev xs (y # ys))"
proof (induction "length xs + length ys" arbitrary: x y xs ys rule: less_induct)
  case less
  have "lev (x # xs) ys \<le> Suc (lev xs ys)"
  proof (cases ys)
    case (Cons z zs)
    have "lev xs zs \<le> Suc (lev xs (z # zs))" using less [of xs zs] Cons by simp
    then show ?thesis using Cons by simp
  qed simp
  moreover have "lev xs ys \<le> Suc (lev xs (y # ys))"
  proof (cases xs)
    case (Cons z zs)
    have "lev (z # zs) ys \<le> Suc (lev zs ys)" "lev zs ys \<le> Suc (lev zs (y # ys))"
      using less [of zs ys z y] Cons by auto
    then show ?thesis using Cons by auto
  qed simp
  ultimately show ?case ..
qed

lemma lev_Cons_le: "lev (x # xs) ys \<le> Suc (lev xs ys)" "lev xs (y # ys) \<le> Suc (lev xs ys)"
  using lev_step lev_commute by metis+

lemma lev_least: "edits n xs ys \<Longrightarrow> lev xs ys \<le> n"
proof (induction rule: edits.induct)
  case (edits_substitute n xs ys x y)
  then show ?case by (auto simp: min_def)
next
  case (edits_delete n xs ys x)
  then show ?case using lev_Cons_le(1) [of x xs ys] by simp
next
  case (edits_insert n xs ys y)
  then show ?case using lev_Cons_le(2) [of xs y ys] by simp
qed simp_all

lemma lev_edits: "edits (lev xs ys) xs ys"
proof (induction xs ys rule: lev.induct)
  case (1 ys)
  show ?case by (induction ys) (auto intro: edits.intros)
next
  case (2 x xs)
  have "edits (length xs) xs []" by (induction xs) (auto intro: edits.intros)
  then show ?case by (auto intro: edits.intros)
next
  case (3 x xs y ys)
  then show ?case by (auto simp: min_def intro: edits.intros)
qed

lemma lev_rev: "lev (rev xs) (rev ys) = lev xs ys"
  using lev_least [OF edits_rev [OF lev_edits [of xs ys]]]
    lev_least [OF edits_rev [OF lev_edits [of "rev xs" "rev ys"]]] by simp

lemma lev_le_iff: "lev xs ys \<le> m \<longleftrightarrow> (\<exists>n\<le>m. edits n xs ys)"
  using lev_least lev_edits le_trans by blast

section \<open>Rows\<close>

text \<open>The distances of all prefixes of the key to the bytes consumed so far.\<close>

definition dist_row :: "'a list \<Rightarrow> 'a list \<Rightarrow> nat list" where
  "dist_row key w = map (\<lambda>j. lev (take j key) w) [0..<Suc (length key)]"

lemma lev_snoc:
  "lev (xs @ [x]) (ys @ [y]) =
    (if x = y then lev xs ys else Suc (min (min (lev xs ys) (lev (xs @ [x]) ys)) (lev xs (ys @ [y]))))"
  using lev.simps(3) [of x "rev xs" y "rev ys"] lev_rev [of "xs @ [x]" "ys @ [y]"] lev_rev [of xs ys]
    lev_rev [of "xs @ [x]" ys] lev_rev [of xs "ys @ [y]"] by (simp split: if_splits)

lemma dist_row_length [simp]: "length (dist_row key w) = Suc (length key)"
  by (simp add: dist_row_def)

lemma dist_row_nth: "j \<le> length key \<Longrightarrow> dist_row key w ! j = lev (take j key) w"
  unfolding dist_row_def by (subst nth_map) (simp_all del: upt_Suc)

lemma dist_row_0 [simp]: "dist_row key w ! 0 = length w"
  by (simp add: dist_row_nth)

lemma dist_row_Nil: "dist_row key [] = [0..<Suc (length key)]"
  by (rule nth_equalityI) (simp_all add: dist_row_nth del: upt_Suc)

lemma dist_row_last: "last (dist_row key w) = lev key w"
  by (simp add: last_conv_nth dist_row_nth flip: length_0_conv)

lemma dist_row_snoc:
  "j < length key \<Longrightarrow> dist_row key (w @ [c]) ! Suc j =
    (if key ! j = c then dist_row key w ! j
     else Suc (min (min (dist_row key w ! j) (dist_row key w ! Suc j)) (dist_row key (w @ [c]) ! j)))"
  using lev_snoc [of "take j key" "key ! j" w c]
  by (simp add: dist_row_nth take_Suc_conv_app_nth)

text \<open>Once every entry of a row is beyond a bound, so is every later row.\<close>

definition row_within :: "nat \<Rightarrow> nat list \<Rightarrow> bool" where
  "row_within mx row \<longleftrightarrow> (\<exists>d\<in>set row. d \<le> mx)"

lemma row_within_snoc: "\<not> row_within mx (dist_row key w) \<Longrightarrow> \<not> row_within mx (dist_row key (w @ [c]))"
proof -
  assume "\<not> row_within mx (dist_row key w)"
  then have old: "mx < dist_row key w ! j" if "j \<le> length key" for j
  proof -
    have "dist_row key w ! j \<in> set (dist_row key w)" using that by simp
    then show ?thesis using \<open>\<not> row_within mx (dist_row key w)\<close> unfolding row_within_def by (meson not_le)
  qed
  have "mx < dist_row key (w @ [c]) ! j" if "j \<le> length key" for j
    using that
  proof (induction j)
    case 0
    then show ?case using old [of 0] by simp
  next
    case (Suc j)
    then show ?case using old [of j] old [of "Suc j"] by (auto simp: dist_row_snoc min_def)
  qed
  then show "\<not> row_within mx (dist_row key (w @ [c]))"
    by (auto simp: row_within_def not_le in_set_conv_nth)
qed

lemma row_within_prefix:
  assumes "\<not> row_within mx (dist_row key w)" "Sublist.prefix w w'"
  shows "mx < lev key w'"
proof -
  obtain z where z: "w' = w @ z" using assms(2) by (auto simp: prefix_def)
  have "\<not> row_within mx (dist_row key (w @ z))"
    by (induction z rule: rev_induct) (use assms(1) row_within_snoc in \<open>fastforce simp flip: append_assoc\<close>)+
  moreover have "lev key w' \<in> set (dist_row key w')"
    by (metis dist_row_last dist_row_length last_in_set length_0_conv nat.distinct(1))
  ultimately show ?thesis unfolding z row_within_def by (metis not_le)
qed

end
