(* ===== verification/Fuzzy_Search.thy ===== *)
theory Fuzzy_Search
  imports Prefix_Search Edit_Distance
begin

text \<open>
  The fuzzy iterators (\<open>src/src/collections/map/iterators/fuzzy.rs\<close>): the entries whose key is
  within an edit distance of the searched key.  A stack of nodes goes together with an arena of
  rows of the distance table, one row per node; subtrees whose row is beyond the bound are
  pruned.
\<close>

section \<open>The arena of rows\<close>

record stack_arena =
  arena_data :: "nat option list"
  arena_n :: nat

definition arena_new :: "nat \<Rightarrow> stack_arena" where
  "arena_new n = \<lparr>arena_data = [], arena_n = n\<rparr>"

definition arena_push :: "stack_arena \<Rightarrow> stack_arena" where
  "arena_push a = a\<lparr>arena_data := arena_data a @ replicate (arena_n a) None\<rparr>"

definition arena_write_top :: "stack_arena \<Rightarrow> nat option list \<Rightarrow> stack_arena" where
  \<comment> \<open>writes through the slice that \<open>push\<close> returned\<close>
  "arena_write_top a row = a\<lparr>arena_data := take (length (arena_data a) - arena_n a) (arena_data a) @ row\<rparr>"

definition arena_pop :: "stack_arena \<Rightarrow> stack_arena" where
  "arena_pop a = a\<lparr>arena_data := take (length (arena_data a) - arena_n a) (arena_data a)\<rparr>"

definition arena_pop_copy :: "stack_arena \<Rightarrow> nat \<Rightarrow> (nat list option \<times> stack_arena) outcome" where
  "arena_pop_copy a buffer_len =
     and_then (assert_that (arena_n a \<noteq> 0)) (\<lambda>_.
     and_then (assume_that (length (arena_data a) mod arena_n a = 0)) (\<lambda>_.
     if arena_data a = [] then Ret (None, a)
     else
       let start = length (arena_data a) - arena_n a; s = drop start (arena_data a) in
       and_then (assume_that (buffer_len = length s)) (\<lambda>_.
       and_then (assume_init_slice s) (\<lambda>row. Ret (Some row, arena_pop a)))))"

section \<open>One row of the table\<close>

fun edit_dist_from ::
    "bytes \<Rightarrow> byte \<Rightarrow> nat list \<Rightarrow> nat \<Rightarrow> nat list \<Rightarrow> nat option list \<times> bool \<Rightarrow> (nat option list \<times> bool) outcome" where
  "edit_dist_from key c old mx [] (new, keep) = Ret (new, keep)"
| "edit_dist_from key c old mx (i # rest) (new, keep) =
     and_then (get_unchecked key (i - 1)) (\<lambda>k.
     let b = (k = c); k1 = of_bool b; k2 = of_bool (\<not> b) in
     and_then (get_unchecked old (i - 1)) (\<lambda>substitution.
     and_then (get_unchecked old i) (\<lambda>insertion.
     and_then (get_unchecked new (i - 1)) (\<lambda>slot.
     and_then (unwrap_unchecked slot) (\<lambda>deletion.
     let v1 = k1 * substitution;
         v2 = k2 * (min (min substitution insertion) deletion + 1);
         v = v1 + v2 in
     and_then (get_unchecked new i) (\<lambda>_.
     edit_dist_from key c old mx rest (new[i := Some v], keep \<or> v \<le> mx)))))))"

definition edit_dist ::
    "bytes \<Rightarrow> byte \<Rightarrow> nat list \<Rightarrow> nat option list \<Rightarrow> nat \<Rightarrow> (nat option list \<times> bool) outcome" where
  "edit_dist key c old new mx =
     and_then (assume_that (length old = length new)) (\<lambda>_.
     and_then (assume_that (old \<noteq> [])) (\<lambda>_.
     and_then (assume_that (length key + 1 = length old)) (\<lambda>_.
     and_then (index_at old 0) (\<lambda>o0.
     let first = o0 + 1 in
     and_then (store_at new 0 (Some first)) (\<lambda>new.
     edit_dist_from key c old mx [1..<length new] (new, first \<le> mx))))))"

text \<open>
  Consuming several bytes; after each, \<open>swap\<close> exchanges the two buffers, so the new row must be
  initialised to be read as the old one.
\<close>

fun edit_dist_all ::
    "bytes \<Rightarrow> nat \<Rightarrow> bytes \<Rightarrow> nat list \<Rightarrow> nat option list \<Rightarrow> bool \<Rightarrow> (bool \<times> nat list \<times> nat option list) outcome" where
  "edit_dist_all key mx [] old_row new_row keep = Ret (keep, old_row, new_row)"
| "edit_dist_all key mx (k # ks) old_row new_row keep =
     and_then (edit_dist key k old_row new_row mx) (\<lambda>(row, keep').
     and_then (assume_init_slice row) (\<lambda>row.
     edit_dist_all key mx ks row (map Some old_row) (keep \<and> keep')))"

section \<open>Visiting a node\<close>

definition fuzzy_search_prefix ::
    "('k, 'v) heap \<Rightarrow> bytes \<Rightarrow> node_ptr inner \<Rightarrow> nat list \<Rightarrow> nat option list \<Rightarrow> nat
      \<Rightarrow> (bool \<times> nat list \<times> nat option list) outcome" where
  "fuzzy_search_prefix hp key n old_row new_row mx =
     and_then (get_unchecked old_row 0) (\<lambda>depth.
     and_then (inner_read_full_prefix (Suc (next_addr hp)) hp n depth) (\<lambda>(path, _).
     edit_dist_all key mx path old_row new_row True))"

fun push_similar ::
    "bytes \<Rightarrow> nat \<Rightarrow> nat list \<Rightarrow> stack_arena \<Rightarrow> node_ptr list \<Rightarrow> (byte \<times> node_ptr) list
      \<Rightarrow> (stack_arena \<times> node_ptr list) outcome" where
  \<comment> \<open>the loop of \<open>fuzzy_search\<close> over the children\<close>
  "push_similar key mx old_row arena nodes_to_search [] = Ret (arena, nodes_to_search)"
| "push_similar key mx old_row arena nodes_to_search ((k, node) # rest) =
     (let arena = arena_push arena in
      and_then (edit_dist key k old_row (replicate (arena_n arena) None) mx) (\<lambda>(row, keep).
      let arena = arena_write_top arena row in
      if keep then push_similar key mx old_row arena (nodes_to_search @ [node]) rest
      else push_similar key mx old_row (arena_pop arena) nodes_to_search rest))"

definition fuzzy_search_inner ::
    "('k, 'v) heap \<Rightarrow> bytes \<Rightarrow> nat \<Rightarrow> node_ptr inner \<Rightarrow> stack_arena \<Rightarrow> nat list \<Rightarrow> node_ptr list
      \<Rightarrow> (stack_arena \<times> node_ptr list) outcome" where
  "fuzzy_search_inner hp key mx n arena old_row nodes_to_search =
     and_then (fuzzy_search_prefix hp key n old_row (replicate (arena_n arena) None) mx) (\<lambda>(keep, old_row, _).
     if \<not> keep then Ret (arena, nodes_to_search)
     else
       and_then (inner_iter n) (\<lambda>children.
       push_similar key mx old_row arena nodes_to_search children))"

definition fuzzy_search_leaf :: "bytes \<Rightarrow> nat \<Rightarrow> ('k, 'v) leaf \<Rightarrow> nat list \<Rightarrow> nat option list \<Rightarrow> bool outcome" where
  "fuzzy_search_leaf key mx l old_row new_row =
     and_then (index_at old_row 0) (\<lambda>current_len.
     let bs = as_bytes (leaf_key l) in
     and_then (assume_that (current_len \<le> length bs)) (\<lambda>_.
     and_then (edit_dist_all key mx (drop current_len bs) old_row new_row True) (\<lambda>(_, old_row, _).
     and_then (unwrap_unchecked (if old_row = [] then None else Some (last old_row))) (\<lambda>d.
     Ret (d \<le> mx)))))"

section \<open>The iterator\<close>

record fuzzy =
  nodes_to_search :: "node_ptr list"
  fuzzy_arena :: stack_arena
  fuzzy_size :: nat

definition fuzzy_new :: "treemap \<Rightarrow> bytes \<Rightarrow> fuzzy" where
  "fuzzy_new m key =
     (let arena = arena_push (arena_new (length key + 1)) in
      \<lparr>nodes_to_search = (case map_root m of None \<Rightarrow> [] | Some root \<Rightarrow> [root]),
       fuzzy_arena = arena_write_top arena (map Some [0..<arena_n arena]),
       fuzzy_size = num_entries m\<rparr>)"

fun fuzzy_next_from ::
    "(node_ptr \<Rightarrow> ('k, 'v) leaf \<Rightarrow> 'r) \<Rightarrow> ('k, 'v) heap \<Rightarrow> bytes \<Rightarrow> nat \<Rightarrow> nat \<Rightarrow> (fuzzy, 'r) step" where
  "fuzzy_next_from op hp key mx 0 s = NoFuel"
| "fuzzy_next_from op hp key mx (Suc fuel) s =
     (let nodes = nodes_to_search s; s = s\<lparr>nodes_to_search := butlast nodes\<rparr> in
      and_then (arena_pop_copy (fuzzy_arena s) (length key + 1)) (\<lambda>(row, arena).
      let s = s\<lparr>fuzzy_arena := arena\<rparr> in
      case (if nodes = [] then None else Some (last nodes), row) of
        (Some node, Some old_row) \<Rightarrow>
          if ptr_type node = LeafKind then
            if fuzzy_size s = 0 then Panic
            else
              let s = s\<lparr>fuzzy_size := fuzzy_size s - 1\<rparr> in
              and_then (read_leaf hp node) (\<lambda>l.
              and_then (fuzzy_search_leaf key mx l old_row (replicate (arena_n arena) None)) (\<lambda>found.
              if found then Ret (Some (op node l), s) else fuzzy_next_from op hp key mx fuel s))
          else
            and_then (read_inner hp node) (\<lambda>n.
            and_then (fuzzy_search_inner hp key mx n arena old_row (nodes_to_search s)) (\<lambda>(arena, nodes).
            fuzzy_next_from op hp key mx fuel (s\<lparr>fuzzy_arena := arena, nodes_to_search := nodes\<rparr>)))
      | _ \<Rightarrow> Ret (None, s)))"

definition fuzzy_next ::
    "(node_ptr \<Rightarrow> ('k, 'v) leaf \<Rightarrow> 'r) \<Rightarrow> ('k, 'v) heap \<Rightarrow> bytes \<Rightarrow> nat \<Rightarrow> (fuzzy, 'r) step" where
  "fuzzy_next op hp key mx = fuzzy_next_from op hp key mx (Suc (next_addr hp))"

definition fuzzy_size_hint :: "fuzzy \<Rightarrow> nat \<times> nat option" where
  "fuzzy_size_hint s = (0, Some (fuzzy_size s))"

section \<open>Rows are computed correctly\<close>

lemma dist_row_ne [simp]: "dist_row key w \<noteq> []"
  by (simp add: dist_row_def)

lemma edit_dist_from_spec:
  fixes key w c
  defines "R \<equiv> dist_row key (w @ [c])"
  assumes "1 \<le> i" "i \<le> Suc (length key)" "length tl' = Suc (length key) - i"
  shows "edit_dist_from key c (dist_row key w) mx [i..<Suc (length key)]
      (map Some (take i R) @ tl', \<exists>d\<in>set (take i R). d \<le> mx)
    = Ret (map Some R, row_within mx R)"
  using assms(2-)
proof (induction "Suc (length key) - i" arbitrary: i tl')
  case 0
  then have "i = Suc (length key)" by simp
  then show ?case using 0 by (simp add: R_def row_within_def)
next
  case (Suc m)
  then obtain t ts where t: "tl' = t # ts" by (cases tl') auto
  have i: "i < Suc (length key)" using Suc.hyps(2) by simp
  obtain j where j: "i = Suc j" "j < length key" using Suc.prems(1) i by (cases i) auto
  have lenR: "length R = Suc (length key)" by (simp add: R_def)
  have new1: "(map Some (take i R) @ t # ts) ! j = Some (R ! j)"
    using j lenR by (simp add: nth_append)
  have upt: "[i..<Suc (length key)] = i # [Suc i..<Suc (length key)]"
    by (rule upt_conv_Cons [OF i])
  have take: "take (Suc i) R = take i R @ [R ! i]"
    using i lenR by (simp add: take_Suc_conv_app_nth)
  have upd: "(map Some (take i R) @ t # ts)[i := Some v] = map Some (take i R @ [v]) @ ts" for v
    using i lenR by (simp add: list_update_append)
  have v: "of_bool (key ! j = c) * dist_row key w ! j +
      of_bool (key ! j \<noteq> c) * (min (min (dist_row key w ! j) (dist_row key w ! i)) (R ! j) + 1) = R ! i"
    using dist_row_snoc [OF j(2), of w c] by (simp add: R_def j(1))
  have "edit_dist_from key c (dist_row key w) mx [i..<Suc (length key)]
      (map Some (take i R) @ tl', \<exists>d\<in>set (take i R). d \<le> mx)
    = edit_dist_from key c (dist_row key w) mx [Suc i..<Suc (length key)]
      (map Some (take i R @ [R ! i]) @ ts, (\<exists>d\<in>set (take i R). d \<le> mx) \<or> R ! i \<le> mx)"
    unfolding upt t edit_dist_from.simps Let_def
    using i j lenR Suc.prems(3) t new1 v upd [of "R ! i"]
    by (simp add: get_unchecked_def del: upt_Suc)
  also have "(\<exists>d\<in>set (take i R). d \<le> mx) \<or> R ! i \<le> mx \<longleftrightarrow> (\<exists>d\<in>set (take (Suc i) R). d \<le> mx)"
    unfolding take by auto
  also have "edit_dist_from key c (dist_row key w) mx [Suc i..<Suc (length key)]
      (map Some (take i R @ [R ! i]) @ ts, \<exists>d\<in>set (take (Suc i) R). d \<le> mx) = Ret (map Some R, row_within mx R)"
    unfolding take [symmetric]
    using Suc.hyps(2) Suc.prems t i by (intro Suc.hyps(1)) auto
  finally show ?case .
qed

lemma edit_dist_spec:
  assumes "length new = Suc (length key)"
  shows "edit_dist key c (dist_row key w) new mx
    = Ret (map Some (dist_row key (w @ [c])), row_within mx (dist_row key (w @ [c])))"
proof -
  obtain t ts where new: "new = t # ts" using assms by (cases new) auto
  let ?R = "dist_row key (w @ [c])"
  have 1: "take 1 ?R = [Suc (length w)]"
    using take_Suc_conv_app_nth [of 0 ?R] by simp
  have "edit_dist_from key c (dist_row key w) mx [1..<Suc (length key)]
      (map Some (take 1 ?R) @ ts, \<exists>d\<in>set (take 1 ?R). d \<le> mx)
    = Ret (map Some ?R, row_within mx ?R)"
    using assms new by (intro edit_dist_from_spec) auto
  then show ?thesis
    using assms dist_row_length [of key w] unfolding edit_dist_def 1
    by (simp add: new Let_def dist_row_ne del: upt_Suc dist_row_length)
qed

lemma edit_dist_all_spec:
  "length new = Suc (length key) \<Longrightarrow>
    \<exists>new'. edit_dist_all key mx bs (dist_row key w) new keep
      = Ret (keep \<and> (\<forall>j\<in>{1..length bs}. row_within mx (dist_row key (w @ take j bs))), dist_row key (w @ bs), new')
    \<and> length new' = Suc (length key)"
proof (induction bs arbitrary: w new keep)
  case (Cons b bs)
  obtain new' where IH: "edit_dist_all key mx bs (dist_row key (w @ [b])) (map Some (dist_row key w))
        (keep \<and> row_within mx (dist_row key (w @ [b])))
      = Ret ((keep \<and> row_within mx (dist_row key (w @ [b])))
          \<and> (\<forall>j\<in>{1..length bs}. row_within mx (dist_row key ((w @ [b]) @ take j bs))),
          dist_row key ((w @ [b]) @ bs), new')" "length new' = Suc (length key)"
    using Cons.IH [of "map Some (dist_row key w)" "w @ [b]" "keep \<and> row_within mx (dist_row key (w @ [b]))"] by auto
  have "(\<forall>j\<in>{1..length (b # bs)}. row_within mx (dist_row key (w @ take j (b # bs))))
    \<longleftrightarrow> row_within mx (dist_row key (w @ [b]))
      \<and> (\<forall>j\<in>{1..length bs}. row_within mx (dist_row key ((w @ [b]) @ take j bs)))"
  proof -
    have eq: "{1..length (b # bs)} = insert 1 (Suc ` {1..length bs})"
      unfolding image_Suc_atLeastAtMost by auto
    show ?thesis unfolding eq by (simp del: image_Suc_atLeastAtMost)
  qed
  then show ?case
    using IH by (simp add: edit_dist_spec [OF Cons.prems] conj_assoc)
qed simp

section \<open>Visiting a node, specified\<close>

definition similar :: "bytes \<Rightarrow> nat \<Rightarrow> (nat \<times> 'k key \<times> 'v) list \<Rightarrow> (nat \<times> 'k key \<times> 'v) list" where
  "similar key mx ls = filter (\<lambda>(a, k, v). lev key (as_bytes k) \<le> mx) ls"

definition rows :: "bytes \<Rightarrow> bytes list \<Rightarrow> nat option list" where
  "rows key ps = concat (map (\<lambda>p. map Some (dist_row key p)) ps)"

lemma rows_simps [simp]:
  "rows key [] = []" "rows key (ps @ qs) = rows key ps @ rows key qs"
  "rows key (p # ps) = map Some (dist_row key p) @ rows key ps"
  by (simp_all add: rows_def)

lemma rows_length [simp]: "length (rows key ps) = Suc (length key) * length ps"
  by (induction ps) simp_all

lemma push_similar_spec:
  assumes "arena_n arena = Suc (length key)"
  shows "push_similar key mx (dist_row key p) arena nodes cs
    = (let keep = filter (\<lambda>(b, _). row_within mx (dist_row key (p @ [b]))) cs in
       Ret (arena\<lparr>arena_data := arena_data arena @ rows key (map (\<lambda>(b, _). p @ [b]) keep)\<rparr>, nodes @ map snd keep))"
  using assms
proof (induction cs arbitrary: arena nodes)
  case (Cons c cs)
  obtain b node where c: "c = (b, node)" by (cases c)
  show ?case
    using Cons.prems Cons.IH
    by (simp add: c Let_def arena_push_def arena_write_top_def arena_pop_def edit_dist_spec)
qed simp

lemma similar_none:
  assumes "wf_art path t" "\<not> row_within mx (dist_row key w)" "Sublist.prefix w path"
  shows "similar key mx (leaves t) = []"
proof -
  have "mx < lev key (as_bytes k)" if "(a, k, v) \<in> set (leaves t)" for a k v
    using wf_leaf_path [OF assms(1) that] row_within_prefix [OF assms(2)] assms(3) prefix_order.trans by blast
  then show ?thesis by (fastforce simp: similar_def filter_empty_conv not_le)
qed

text \<open>
  An inner node: the children with a row that has an entry within the bound are pushed, and no
  leaf below any other child is similar to the key.
\<close>

definition kept :: "bytes \<Rightarrow> nat \<Rightarrow> bytes \<Rightarrow> bytes \<Rightarrow> (byte \<times> ('k, 'v) art) list \<Rightarrow> (byte \<times> ('k, 'v) art) list" where
  "kept key mx path pf ch =
     (if \<forall>j\<in>{1..length pf}. row_within mx (dist_row key (path @ take j pf))
      then filter (\<lambda>(b, _). row_within mx (dist_row key (path @ pf @ [b]))) ch else [])"

lemma fuzzy_search_inner_spec:
  assumes r: "represents N hp (AInner a ty pf ch)" and w: "wf_art path (AInner a ty pf ch)"
    and h: "height (AInner a ty pf ch) \<le> next_addr hp"
    and n: "read_inner hp (Ptr ty a) = Ret n" "node_ok N n ty pf (child_ptrs ch)"
    and an: "arena_n arena = Suc (length key)"
  shows "fuzzy_search_inner hp key mx n arena (dist_row key path) nodes
    = Ret (arena\<lparr>arena_data := arena_data arena @ rows key (map (\<lambda>(b, _). path @ pf @ [b]) (kept key mx path pf ch))\<rparr>,
        nodes @ map (root_ptr \<circ> snd) (kept key mx path pf ch))"
proof -
  obtain lp where full: "inner_read_full_prefix (Suc (next_addr hp)) hp n (length path) = Ret (pf, lp)"
    using read_full_prefix_spec [OF r w _ n(1), of "Suc (next_addr hp)"] h by auto
  obtain new' where all: "edit_dist_all key mx pf (dist_row key path) (replicate (arena_n arena) None) True
      = Ret (\<forall>j\<in>{1..length pf}. row_within mx (dist_row key (path @ take j pf)), dist_row key (path @ pf), new')"
    using edit_dist_all_spec [of "replicate (arena_n arena) None" key mx pf path True] an by auto
  have fp: "fuzzy_search_prefix hp key n (dist_row key path) (replicate (arena_n arena) None) mx
      = Ret (\<forall>j\<in>{1..length pf}. row_within mx (dist_row key (path @ take j pf)), dist_row key (path @ pf), new')"
    by (simp add: fuzzy_search_prefix_def full all)
  show ?thesis
    unfolding fuzzy_search_inner_def fp and_then.simps prod.case kept_def
    using push_similar_spec [OF an] by (simp add: node_okD(8) [OF n(2)] Let_def child_ptrs_def comp_def split_def filter_map)
qed

lemma similar_kept:
  assumes w: "wf_art path (AInner a ty pf ch)"
  shows "similar key mx (leaves (AInner a ty pf ch))
    = concat (map (\<lambda>(b, t). similar key mx (leaves t)) (kept key mx path pf ch))"
proof -
  have app: "similar key mx (leaves (AInner a ty pf ch)) = concat (map (\<lambda>(b, t). similar key mx (leaves t)) ch)"
    by (induction ch) (auto simp: similar_def)
  show ?thesis
  proof (cases "\<forall>j\<in>{1..length pf}. row_within mx (dist_row key (path @ take j pf))")
    case True
    have none: "similar key mx (leaves t) = []"
      if "(b, t) \<in> set ch" "\<not> row_within mx (dist_row key (path @ pf @ [b]))" for b t
      using similar_none [OF wf_child [OF w that(1)] that(2)] by simp
    have "concat (map (\<lambda>(b, t). similar key mx (leaves t)) cs)
      = concat (map (\<lambda>(b, t). similar key mx (leaves t)) (filter (\<lambda>(b, _). row_within mx (dist_row key (path @ pf @ [b]))) cs))"
      if "set cs \<subseteq> set ch" for cs
      using that
    proof (induction cs)
      case (Cons c cs)
      obtain b t where "c = (b, t)" by (cases c)
      then show ?case
        using Cons none [of b t] by (cases "row_within mx (dist_row key (path @ pf @ [b]))") simp_all
    qed simp
    from this [OF subset_refl] show ?thesis unfolding app kept_def if_P [OF True] .
  next
    case False
    then obtain j where j: "\<not> row_within mx (dist_row key (path @ take j pf))" by blast
    have "similar key mx (leaves t) = []" if "(b, t) \<in> set ch" for b t
      by (rule similar_none [OF wf_child [OF w that] j]) (simp add: take_is_prefix prefix_prefix)
    then have "concat (map (\<lambda>(b, t). similar key mx (leaves t)) ch) = []" by auto
    then show ?thesis unfolding app kept_def if_not_P [OF False] by simp
  qed
qed

lemma fuzzy_search_leaf_spec:
  assumes "wf_art path (ALeaf a k v)" "length new = Suc (length key)"
  shows "fuzzy_search_leaf key mx \<lparr>leaf_key = k, leaf_value = v\<rparr> (dist_row key path) new
    = Ret (lev key (as_bytes k) \<le> mx)"
proof -
  obtain z where z: "as_bytes k = path @ z" using assms(1) by (auto simp: prefix_def)
  obtain keep new' where "edit_dist_all key mx z (dist_row key path) new True = Ret (keep, dist_row key (path @ z), new')"
    using edit_dist_all_spec [OF assms(2), of mx z path True] by blast
  then show ?thesis by (simp add: fuzzy_search_leaf_def z Let_def dist_row_last)
qed

section \<open>The iterator, specified\<close>

lemma arena_pop_copy_spec:
  assumes "arena_n a = Suc (length key)" "arena_data a = rows key qs"
  shows "arena_pop_copy a (Suc (length key)) = Ret (if qs = [] then (None, a)
    else (Some (dist_row key (last qs)), a\<lparr>arena_data := rows key (butlast qs)\<rparr>))"
proof (cases qs rule: rev_cases)
  case Nil
  then show ?thesis using assms by (simp add: arena_pop_copy_def)
next
  case (snoc qs' q)
  have "length (arena_data a) mod arena_n a = 0" unfolding assms rows_length by (simp only: mod_mult_self1_is_0)
  then show ?thesis
    using assms by (simp add: arena_pop_copy_def arena_pop_def snoc Let_def)
qed

text \<open>The stack of nodes, each with the bytes that lead to it, and the rows for these bytes.\<close>

definition fuzzy_node :: "nat \<Rightarrow> ('k, 'v) heap \<Rightarrow> bytes \<times> ('k, 'v) art \<Rightarrow> bool" where
  "fuzzy_node N hp = (\<lambda>(path, t). represents N hp t \<and> wf_art path t \<and> height t \<le> next_addr hp)"

definition fuzzy_left ::
    "nat \<Rightarrow> (node_ptr \<Rightarrow> ('k, 'v) leaf \<Rightarrow> 'r) \<Rightarrow> ('k, 'v) heap \<Rightarrow> bytes \<Rightarrow> nat \<Rightarrow> nat \<Rightarrow> fuzzy \<Rightarrow> 'r list \<Rightarrow> bool" where
  "fuzzy_left N op hp key mx fuel s xs \<longleftrightarrow> (\<exists>ps qs.
     nodes_to_search s = map (root_ptr \<circ> snd) ps \<and> (\<forall>p\<in>set ps. fuzzy_node N hp p)
     \<and> arena_n (fuzzy_arena s) = Suc (length key) \<and> arena_data (fuzzy_arena s) = rows key qs
     \<and> (ps \<noteq> [] \<longrightarrow> qs = map fst ps)
     \<and> xs = map (leaf_item op) (rev (concat (map (similar key mx \<circ> leaves \<circ> snd) ps)))
     \<and> sum_list (map (length \<circ> addrs \<circ> snd) ps) < fuel
     \<and> sum_list (map (length \<circ> leaves \<circ> snd) ps) \<le> fuzzy_size s)"

lemma fuzzy_leftI:
  assumes "nodes_to_search s = map (root_ptr \<circ> snd) ps" "\<forall>p\<in>set ps. fuzzy_node N hp p"
    "arena_n (fuzzy_arena s) = Suc (length key)" "arena_data (fuzzy_arena s) = rows key (map fst ps)"
    "xs = map (leaf_item op) (rev (concat (map (similar key mx \<circ> leaves \<circ> snd) ps)))"
    "sum_list (map (length \<circ> addrs \<circ> snd) ps) < fuel"
    "sum_list (map (length \<circ> leaves \<circ> snd) ps) \<le> fuzzy_size s"
  shows "fuzzy_left N op hp key mx fuel s xs"
  using assms unfolding fuzzy_left_def by blast

lemma fuzzy_left_mono: "fuzzy_left N op hp key mx fuel s xs \<Longrightarrow> fuel \<le> fuel' \<Longrightarrow> fuzzy_left N op hp key mx fuel' s xs"
  unfolding fuzzy_left_def by (fast intro: order_less_le_trans)

definition kept_nodes :: "bytes \<Rightarrow> nat \<Rightarrow> bytes \<Rightarrow> bytes \<Rightarrow> (byte \<times> ('k, 'v) art) list \<Rightarrow> (bytes \<times> ('k, 'v) art) list" where
  "kept_nodes key mx path pf ch = map (\<lambda>(b, t). (path @ pf @ [b], t)) (kept key mx path pf ch)"

lemma set_kept: "set (kept key mx path pf ch) \<subseteq> set ch"
  by (auto simp: kept_def)

lemma kept_nodes_sums:
  fixes f :: "('k, 'v) art \<Rightarrow> nat"
  shows "sum_list (map (f \<circ> snd) (kept_nodes key mx path pf ch)) \<le> sum_list (map (f \<circ> snd) ch)"
proof -
  have "sum_list (map (f \<circ> snd) (kept_nodes key mx path pf ch)) = sum_list (map (f \<circ> snd) (kept key mx path pf ch))"
    by (simp add: kept_nodes_def comp_def split_def)
  also have "\<dots> \<le> sum_list (map (f \<circ> snd) ch)"
    unfolding kept_def by (simp only: sum_list_filter_le_nat split: if_split) simp
  finally show ?thesis .
qed

lemma kept_nodes_ok:
  assumes "fuzzy_node N hp (path, AInner a ty pf ch)"
  shows "\<forall>p\<in>set (kept_nodes key mx path pf ch). fuzzy_node N hp p"
proof -
  have "fuzzy_node N hp (path @ pf @ [b], t)" if "(b, t) \<in> set ch" for b t
    using assms that wf_child [of path a ty pf ch b t] height_child [OF that, of a ty pf]
    by (auto simp: fuzzy_node_def simp del: height.simps)
  then show ?thesis using set_kept [of key mx path pf ch] by (auto simp: kept_nodes_def)
qed

lemma kept_nodes_items:
  assumes "wf_art path (AInner a ty pf ch)"
  shows "concat (map (similar key mx \<circ> leaves \<circ> snd) (kept_nodes key mx path pf ch))
    = similar key mx (leaves (AInner a ty pf ch))"
  unfolding similar_kept [OF assms] kept_nodes_def by (simp add: comp_def split_def)

lemma fuzzy_next_spec:
  "fuzzy_left N op hp key mx fuel s xs \<Longrightarrow> \<exists>item s' xs'. fuzzy_next_from op hp key mx fuel s = Ret (item, s')
      \<and> fuzzy_left N op hp key mx fuel s' xs'
      \<and> (case item of None \<Rightarrow> xs = [] \<and> xs' = [] | Some x \<Rightarrow> xs = x # xs')"
proof (induction fuel arbitrary: s xs)
  case 0
  then show ?case by (simp add: fuzzy_left_def)
next
  case (Suc fuel)
  obtain ps qs where l: "nodes_to_search s = map (root_ptr \<circ> snd) ps" "\<forall>p\<in>set ps. fuzzy_node N hp p"
     "arena_n (fuzzy_arena s) = Suc (length key)" "arena_data (fuzzy_arena s) = rows key qs"
     "ps \<noteq> [] \<longrightarrow> qs = map fst ps"
     "xs = map (leaf_item op) (rev (concat (map (similar key mx \<circ> leaves \<circ> snd) ps)))"
     "sum_list (map (length \<circ> addrs \<circ> snd) ps) < Suc fuel"
     "sum_list (map (length \<circ> leaves \<circ> snd) ps) \<le> fuzzy_size s"
    using Suc.prems unfolding fuzzy_left_def by blast
  note pop = arena_pop_copy_spec [OF l(3,4)]
  show ?case
  proof (cases ps rule: rev_cases)
    case Nil
    define s' where "s' = s\<lparr>nodes_to_search := [], fuzzy_arena := (if qs = [] then fuzzy_arena s
        else (fuzzy_arena s)\<lparr>arena_data := rows key (butlast qs)\<rparr>)\<rparr>"
    have "fuzzy_next_from op hp key mx (Suc fuel) s = Ret (None, s')"
      using l(1) Nil by (simp add: pop s'_def Let_def)
    moreover have "fuzzy_left N op hp key mx (Suc fuel) s' []"
      unfolding fuzzy_left_def
      using l(3,4) by (intro exI [of _ "[]"] exI [of _ "butlast qs"]) (simp add: s'_def)
    moreover have "xs = []" using l(6) Nil by simp
    ultimately show ?thesis by fastforce
  next
    case (snoc ps' p)
    obtain path t where p: "p = (path, t)" by (cases p)
    have qs: "qs = map fst ps' @ [path]" using l(5) snoc p by simp
    have t: "represents N hp t" "wf_art path t" "height t \<le> next_addr hp"
      using l(2) snoc p by (auto simp: fuzzy_node_def)
    define s0 where "s0 = s\<lparr>nodes_to_search := map (root_ptr \<circ> snd) ps',
      fuzzy_arena := (fuzzy_arena s)\<lparr>arena_data := rows key (map fst ps')\<rparr>\<rparr>"
    note step = l(1) snoc p pop qs s0_def Let_def
    show ?thesis
    proof (cases t)
      case (ALeaf a k v)
      have rd: "read_leaf hp (Ptr LeafKind a) = Ret \<lparr>leaf_key = k, leaf_value = v\<rparr>"
        by (rule read_leaf_Ret [of N]) (use t(1) ALeaf in simp)
      have fs: "fuzzy_search_leaf key mx \<lparr>leaf_key = k, leaf_value = v\<rparr> (dist_row key path) (replicate (Suc (length key)) None)
          = Ret (lev key (as_bytes k) \<le> mx)"
        by (rule fuzzy_search_leaf_spec) (use t(2) ALeaf in simp_all)
      define s1 where "s1 = s0\<lparr>fuzzy_size := fuzzy_size s - 1\<rparr>"
      have sz: "fuzzy_size s \<noteq> 0" using l(8) snoc p ALeaf by simp
      have nx: "fuzzy_next_from op hp key mx (Suc fuel) s
          = (if lev key (as_bytes k) \<le> mx then Ret (Some (op (Ptr LeafKind a) \<lparr>leaf_key = k, leaf_value = v\<rparr>), s1)
             else fuzzy_next_from op hp key mx fuel s1)"
        using sz by (simp add: step ALeaf rd l(3) fs s1_def del: replicate_Suc)
      define ys where "ys = map (leaf_item op) (rev (concat (map (similar key mx \<circ> leaves \<circ> snd) ps')))"
      have left: "fuzzy_left N op hp key mx fuel s1 ys"
        using l(2,3,7,8) snoc p ALeaf
        by (intro fuzzy_leftI [of _ ps']) (simp_all add: s1_def s0_def ys_def)
      show ?thesis
      proof (cases "lev key (as_bytes k) \<le> mx")
        case True
        then have "xs = op (Ptr LeafKind a) \<lparr>leaf_key = k, leaf_value = v\<rparr> # ys"
          using l(6) snoc p ALeaf by (simp add: similar_def ys_def leaf_item_def)
        then show ?thesis using nx True fuzzy_left_mono [OF left, of "Suc fuel"] by fastforce
      next
        case False
        then have "xs = ys" using l(6) snoc p ALeaf by (simp add: similar_def ys_def)
        then show ?thesis using nx False Suc.IH [OF left] fuzzy_left_mono [of _ _ _ _ _ fuel _ _ "Suc fuel"]
          by (metis le_SucI order_refl)
      qed
    next
      case (AInner a ty pf ch)
      obtain n where n: "read_inner hp (Ptr ty a) = Ret n" "node_ok N n ty pf (child_ptrs ch)" "ty \<noteq> LeafKind"
        using read_inner_Ret [of N hp a ty pf ch] t(1) AInner by metis
      let ?ks = "kept_nodes key mx path pf ch"
      define s1 where "s1 = s\<lparr>fuzzy_arena := (fuzzy_arena s)\<lparr>arena_data := rows key (map fst (ps' @ ?ks))\<rparr>,
        nodes_to_search := map (root_ptr \<circ> snd) (ps' @ ?ks)\<rparr>"
      have vis: "fuzzy_search_inner hp key mx n ((fuzzy_arena s)\<lparr>arena_data := rows key (map fst ps')\<rparr>)
          (dist_row key path) (map (root_ptr \<circ> snd) ps')
        = Ret ((fuzzy_arena s)\<lparr>arena_data := rows key (map fst (ps' @ ?ks))\<rparr>, map (root_ptr \<circ> snd) (ps' @ ?ks))"
        using fuzzy_search_inner_spec [OF t [unfolded AInner] n(1,2), of "(fuzzy_arena s)\<lparr>arena_data := rows key (map fst ps')\<rparr>"
            key mx "map (root_ptr \<circ> snd) ps'"] l(3)
        by (simp add: kept_nodes_def comp_def split_def)
      have nx: "fuzzy_next_from op hp key mx (Suc fuel) s = fuzzy_next_from op hp key mx fuel s1"
        using n(1,3) vis by (simp add: step AInner s1_def)
      have sums: "sum_list (map (length \<circ> addrs \<circ> snd) ?ks) < length (addrs t)"
        "sum_list (map (length \<circ> leaves \<circ> snd) ?ks) \<le> length (leaves t)"
        using kept_nodes_sums [of "length \<circ> addrs" key mx path pf ch] kept_nodes_sums [of "length \<circ> leaves" key mx path pf ch]
        by (simp_all add: AInner length_concat comp_def split_def)
      have "fuzzy_left N op hp key mx fuel s1 xs"
      proof (rule fuzzy_leftI [of _ "ps' @ ?ks"])
        have "fuzzy_node N hp (path, AInner a ty pf ch)" using l(2) snoc p AInner by simp
        from kept_nodes_ok [OF this] show "\<forall>q\<in>set (ps' @ ?ks). fuzzy_node N hp q" using l(2) snoc by auto
        show "xs = map (leaf_item op) (rev (concat (map (similar key mx \<circ> leaves \<circ> snd) (ps' @ ?ks))))"
          using kept_nodes_items [OF t(2) [unfolded AInner], of key mx] l(6) snoc p AInner by simp
        show "sum_list (map (length \<circ> addrs \<circ> snd) (ps' @ ?ks)) < fuel"
          using sums(1) l(7) snoc p by simp
        show "sum_list (map (length \<circ> leaves \<circ> snd) (ps' @ ?ks)) \<le> fuzzy_size s1"
          using sums(2) l(8) snoc p by (simp add: s1_def s0_def)
      qed (simp_all add: s1_def s0_def l(3))
      then show ?thesis using nx Suc.IH fuzzy_left_mono [of _ _ _ _ _ fuel _ _ "Suc fuel"]
        by (metis le_SucI order_refl)
    qed
  qed
qed

interpretation fz: forward_iterator "fuzzy_next_from op hp key mx fuel" "fuzzy_left N op hp key mx fuel"
  by unfold_locales (rule fuzzy_next_spec)


lemma fuzzy_new_left:
  assumes "map_state N fr m hp T"
  shows "fuzzy_left N op hp key mx (Suc (next_addr hp)) (fuzzy_new m key)
    (map (leaf_item op) (rev (similar key mx (opt_leaves T))))"
proof -
  have arena: "arena_n (fuzzy_arena (fuzzy_new m key)) = Suc (length key)"
    "arena_data (fuzzy_arena (fuzzy_new m key)) = rows key [[]]"
    by (simp_all add: fuzzy_new_def Let_def arena_push_def arena_new_def arena_write_top_def dist_row_Nil del: upt_Suc)
  show ?thesis
  proof (cases T)
    case None
    then have "nodes_to_search (fuzzy_new m key) = []"
      using assms by (simp add: fuzzy_new_def map_state_def Let_def)
    then show ?thesis
      using arena None unfolding fuzzy_left_def
      by (intro exI [of _ "[]"] exI [of _ "[[]]"]) (simp add: opt_leaves_def similar_def)
  next
    case (Some t)
    then have t: "map_root m = Some (root_ptr t)" "wf_art [] t" "holds N hp t" "num_entries m = length (leaves t)"
      using assms by (auto simp: map_state_def entries_def)
    then have "fuzzy_node N hp ([], t)"
      using holds_height [OF t(3)] by (simp add: fuzzy_node_def holds_def)
    moreover have "nodes_to_search (fuzzy_new m key) = [root_ptr t]" "fuzzy_size (fuzzy_new m key) = length (leaves t)"
      by (simp_all add: fuzzy_new_def Let_def t)
    ultimately show ?thesis
      using arena length_addrs_bound [OF t(3)] Some
      by (intro fuzzy_leftI [of _ "[([], t)]"]) (simp_all add: opt_leaves_def)
  qed
qed

lemma fuzzy_collect:
  fixes key :: bytes and mx :: nat
  assumes m: "map_state N fr m hp T"
  defines "es \<equiv> filter (\<lambda>e. lev key (as_bytes (fst e)) \<le> mx) (opt_entries T)"
  shows "collect (fuzzy_next as_key_value_ref hp key mx) (Suc (len_map m)) (fuzzy_new m key) = Ret (rev es)"
proof -
  have "map (leaf_item as_key_value_ref) (similar key mx ls)
      = filter (\<lambda>e. lev key (as_bytes (fst e)) \<le> mx) (map (leaf_item as_key_value_ref) ls)"
    for ls :: "(nat \<times> 'a key \<times> 'b) list"
    by (induction ls) (auto simp: similar_def)
  then have "map (leaf_item as_key_value_ref) (rev (similar key mx (opt_leaves T))) = rev es"
    by (simp add: es_def opt_leaves_items(1) [symmetric] rev_map [symmetric])
  note l = fuzzy_new_left [OF m, of as_key_value_ref key mx, unfolded this]
  have "length (rev es) < Suc (len_map m)"
    using m by (simp add: es_def map_state_def len_map_def le_imp_less_Suc)
  then show ?thesis unfolding fuzzy_next_def by (rule fz.collect_spec [OF l])
qed

section \<open>Property\<close>

text \<open>
  C17. Fuzzy search yields exactly the entries whose key can be turned into the searched key with
  at most the given number of insertions, deletions and substitutions of bytes, each once, in
  descending key order, and neither panics nor reads an uninitialised row; pruning a subtree
  never loses a match.
\<close>

theorem map_fuzzy:
  assumes m: "map_state N fr m hp T"
  shows "\<exists>es. collect (fuzzy_next as_key_value_ref hp key mx) (Suc (len_map m)) (fuzzy_new m key) = Ret es
    \<and> sorted_wrt (\<lambda>x y. as_bytes (fst y) < as_bytes (fst x)) es
    \<and> (\<forall>e. e \<in> set es \<longleftrightarrow> opt_map T (as_bytes (fst e)) = Some e
        \<and> (\<exists>n\<le>mx. edits n key (as_bytes (fst e))))"
proof -
  let ?es = "filter (\<lambda>e. lev key (as_bytes (fst e)) \<le> mx) (opt_entries T)"
  have "sorted_wrt (\<lambda>x y. as_bytes (fst y) < as_bytes (fst x)) (rev ?es)"
    using sorted_opt_entries [OF m] by (simp add: sorted_wrt_rev sorted_wrt_filter)
  moreover have "e \<in> set (rev ?es) \<longleftrightarrow> opt_map T (as_bytes (fst e)) = Some e
        \<and> (\<exists>n\<le>mx. edits n key (as_bytes (fst e)))" for e
    using opt_map_entries [OF m, of "as_bytes (fst e)" e] by (auto simp: lev_le_iff)
  ultimately show ?thesis using fuzzy_collect [OF m] by blast
qed

theorem map_fuzzy_witness:
  "\<exists>es. collect (fuzzy_next as_key_value_ref sample_heap [1] 1) 3 (fuzzy_new sample_map [1]) = Ret es
    \<and> (Key [1, 3] (), 30) \<in> set es"
proof -
  have "edits 1 [1] [1, 3 :: byte]" by (auto intro: edits.intros simp: One_nat_def)
  then show ?thesis
    using map_fuzzy [OF sample_state, of "[1]" 1]
    by (auto simp: len_map_def sample_map_def numeral_3_eq_3 sample_opt_map simp del: opt_simps)
qed

end
