(* ===== verification/Comparisons.thy ===== *)
theory Comparisons
  imports Iterators
begin

text \<open>
  Comparing and hashing maps: \<open>eq\<close>, \<open>cmp\<close>, \<open>partial_cmp\<close> and \<open>hash\<close> of \<open>src/src/collections/map.rs\<close>,
  with the loops of the standard library on two iterators that they call.  The equality, the
  order and the hash of an entry are arguments, as the key and value types are the user's; so is
  what writing a length prefix does to the state of the hasher.

  The lemmas evaluate the loops on the sorted entries of the maps.
\<close>

section \<open>Comparing maps\<close>

datatype ordering = Less | Equal | Greater

fun iter_eq :: "('a \<Rightarrow> 'a \<Rightarrow> bool) \<Rightarrow> ('s, 'a) step \<Rightarrow> ('t, 'a) step \<Rightarrow> nat \<Rightarrow> 's \<Rightarrow> 't \<Rightarrow> bool outcome" where
  "iter_eq same nxt nxt' 0 s s' = NoFuel"
| "iter_eq same nxt nxt' (Suc fuel) s s' =
     and_then (nxt s) (\<lambda>(x, s).
     and_then (nxt' s') (\<lambda>(y, s').
     case (x, y) of
       (None, None) \<Rightarrow> Ret True
     | (Some x, Some y) \<Rightarrow> if same x y then iter_eq same nxt nxt' fuel s s' else Ret False
     | _ \<Rightarrow> Ret False))"

fun iter_cmp :: "('a \<Rightarrow> 'a \<Rightarrow> ordering) \<Rightarrow> ('s, 'a) step \<Rightarrow> ('t, 'a) step \<Rightarrow> nat \<Rightarrow> 's \<Rightarrow> 't \<Rightarrow> ordering outcome" where
  "iter_cmp compare nxt nxt' 0 s s' = NoFuel"
| "iter_cmp compare nxt nxt' (Suc fuel) s s' =
     and_then (nxt s) (\<lambda>(x, s).
     case x of
       None \<Rightarrow> and_then (nxt' s') (\<lambda>(y, s'). Ret (if y = None then Equal else Less))
     | Some x \<Rightarrow>
         and_then (nxt' s') (\<lambda>(y, s').
         case y of None \<Rightarrow> Ret Greater
         | Some y \<Rightarrow>
             case compare x y of Equal \<Rightarrow> iter_cmp compare nxt nxt' fuel s s' | c \<Rightarrow> Ret c))"

fun iter_partial_cmp ::
    "('a \<Rightarrow> 'a \<Rightarrow> ordering option) \<Rightarrow> ('s, 'a) step \<Rightarrow> ('t, 'a) step \<Rightarrow> nat \<Rightarrow> 's \<Rightarrow> 't \<Rightarrow> ordering option outcome" where
  "iter_partial_cmp compare nxt nxt' 0 s s' = NoFuel"
| "iter_partial_cmp compare nxt nxt' (Suc fuel) s s' =
     and_then (nxt s) (\<lambda>(x, s).
     case x of
       None \<Rightarrow> and_then (nxt' s') (\<lambda>(y, s'). Ret (Some (if y = None then Equal else Less)))
     | Some x \<Rightarrow>
         and_then (nxt' s') (\<lambda>(y, s').
         case y of None \<Rightarrow> Ret (Some Greater)
         | Some y \<Rightarrow>
             if compare x y = Some Equal then iter_partial_cmp compare nxt nxt' fuel s s' else Ret (compare x y)))"

fun iter_hash :: "('a \<Rightarrow> 'h \<Rightarrow> 'h) \<Rightarrow> ('s, 'a) step \<Rightarrow> nat \<Rightarrow> 's \<Rightarrow> 'h \<Rightarrow> 'h outcome" where
  \<comment> \<open>the loop of \<open>hash\<close>\<close>
  "iter_hash elt_hash nxt 0 s state = NoFuel"
| "iter_hash elt_hash nxt (Suc fuel) s state =
     and_then (nxt s) (\<lambda>(x, s).
     case x of None \<Rightarrow> Ret state | Some elt \<Rightarrow> iter_hash elt_hash nxt fuel s (elt_hash elt state))"

definition eq_map :: "('k key \<times> 'v \<Rightarrow> 'k key \<times> 'v \<Rightarrow> bool) \<Rightarrow> ('k, 'v) heap \<Rightarrow> treemap \<Rightarrow> treemap \<Rightarrow> bool outcome" where
  \<comment> \<open>\<open>PartialEq::eq\<close>\<close>
  "eq_map same hp m other =
     and_then (iter_eq same (iter_next as_key_value_ref hp) (iter_next as_key_value_ref hp)
       (Suc (num_entries m)) (iter_new m) (iter_new other)) (\<lambda>b.
     Ret (b \<and> num_entries m = num_entries other))"

definition cmp_map :: "('k key \<times> 'v \<Rightarrow> 'k key \<times> 'v \<Rightarrow> ordering) \<Rightarrow> ('k, 'v) heap \<Rightarrow> treemap \<Rightarrow> treemap \<Rightarrow> ordering outcome" where
  \<comment> \<open>\<open>Ord::cmp\<close>\<close>
  "cmp_map compare hp m other =
     iter_cmp compare (iter_next as_key_value_ref hp) (iter_next as_key_value_ref hp)
       (Suc (num_entries m)) (iter_new m) (iter_new other)"

definition partial_cmp_map ::
    "('k key \<times> 'v \<Rightarrow> 'k key \<times> 'v \<Rightarrow> ordering option) \<Rightarrow> ('k, 'v) heap \<Rightarrow> treemap \<Rightarrow> treemap \<Rightarrow> ordering option outcome" where
  \<comment> \<open>\<open>PartialOrd::partial_cmp\<close>\<close>
  "partial_cmp_map compare hp m other =
     iter_partial_cmp compare (iter_next as_key_value_ref hp) (iter_next as_key_value_ref hp)
       (Suc (num_entries m)) (iter_new m) (iter_new other)"

definition hash_map ::
    "(nat \<Rightarrow> 'h \<Rightarrow> 'h) \<Rightarrow> ('k key \<times> 'v \<Rightarrow> 'h \<Rightarrow> 'h) \<Rightarrow> ('k, 'v) heap \<Rightarrow> treemap \<Rightarrow> 'h \<Rightarrow> 'h outcome" where
  \<comment> \<open>\<open>Hash::hash\<close>\<close>
  "hash_map write_length_prefix elt_hash hp m state =
     (let state = write_length_prefix (num_entries m) state in
      iter_hash elt_hash (iter_next as_key_value_ref hp) (Suc (num_entries m)) (iter_new m) state)"

text \<open>The lexicographic order of two lists.\<close>

fun list_cmp :: "('a \<Rightarrow> 'a \<Rightarrow> ordering) \<Rightarrow> 'a list \<Rightarrow> 'a list \<Rightarrow> ordering" where
  "list_cmp compare [] [] = Equal"
| "list_cmp compare [] (y # ys) = Less"
| "list_cmp compare (x # xs) [] = Greater"
| "list_cmp compare (x # xs) (y # ys) =
     (case compare x y of Equal \<Rightarrow> list_cmp compare xs ys | c \<Rightarrow> c)"

fun list_partial_cmp :: "('a \<Rightarrow> 'a \<Rightarrow> ordering option) \<Rightarrow> 'a list \<Rightarrow> 'a list \<Rightarrow> ordering option" where
  "list_partial_cmp compare [] [] = Some Equal"
| "list_partial_cmp compare [] (y # ys) = Some Less"
| "list_partial_cmp compare (x # xs) [] = Some Greater"
| "list_partial_cmp compare (x # xs) (y # ys) =
     (if compare x y = Some Equal then list_partial_cmp compare xs ys else compare x y)"

context double_ended
begin

lemma iter_eq_spec:
  "left s xs \<Longrightarrow> left s' ys \<Longrightarrow> length xs < fuel
    \<Longrightarrow> iter_eq same next_item next_item fuel s s' = Ret (list_all2 same xs ys)"
proof (induction fuel arbitrary: s s' xs ys)
  case (Suc fuel)
  obtain s1 s2 where s1: "next_item s = Ret (if xs = [] then None else Some (hd xs), s1)" "left s1 (tl xs)"
    and s2: "next_item s' = Ret (if ys = [] then None else Some (hd ys), s2)" "left s2 (tl ys)"
    using step_spec [OF Suc.prems(1), of True] step_spec [OF Suc.prems(2), of True] by auto
  show ?case
    using Suc.IH [OF s1(2) s2(2)] Suc.prems(3) by (cases xs; cases ys) (simp_all add: s1(1) s2(1))
qed simp

lemma iter_cmp_spec:
  "left s xs \<Longrightarrow> left s' ys \<Longrightarrow> length xs < fuel
    \<Longrightarrow> iter_cmp compare next_item next_item fuel s s' = Ret (list_cmp compare xs ys)"
proof (induction fuel arbitrary: s s' xs ys)
  case (Suc fuel)
  obtain s1 s2 where s1: "next_item s = Ret (if xs = [] then None else Some (hd xs), s1)" "left s1 (tl xs)"
    and s2: "next_item s' = Ret (if ys = [] then None else Some (hd ys), s2)" "left s2 (tl ys)"
    using step_spec [OF Suc.prems(1), of True] step_spec [OF Suc.prems(2), of True] by auto
  show ?case
    using Suc.IH [OF s1(2) s2(2)] Suc.prems(3)
    by (cases xs; cases ys) (simp_all add: s1(1) s2(1) split: ordering.split)
qed simp

lemma iter_partial_cmp_spec:
  "left s xs \<Longrightarrow> left s' ys \<Longrightarrow> length xs < fuel
    \<Longrightarrow> iter_partial_cmp compare next_item next_item fuel s s' = Ret (list_partial_cmp compare xs ys)"
proof (induction fuel arbitrary: s s' xs ys)
  case (Suc fuel)
  obtain s1 s2 where s1: "next_item s = Ret (if xs = [] then None else Some (hd xs), s1)" "left s1 (tl xs)"
    and s2: "next_item s' = Ret (if ys = [] then None else Some (hd ys), s2)" "left s2 (tl ys)"
    using step_spec [OF Suc.prems(1), of True] step_spec [OF Suc.prems(2), of True] by auto
  show ?case
    using Suc.IH [OF s1(2) s2(2)] Suc.prems(3) by (cases xs; cases ys) (simp_all add: s1(1) s2(1))
qed simp

lemma iter_hash_spec: "left s xs \<Longrightarrow> length xs < fuel \<Longrightarrow> iter_hash elt_hash next_item fuel s state = Ret (fold elt_hash xs state)"
proof (induction fuel arbitrary: s xs state)
  case (Suc fuel)
  obtain s1 where s1: "next_item s = Ret (if xs = [] then None else Some (hd xs), s1)" "left s1 (tl xs)"
    using step_spec [OF Suc.prems(1), of True] by auto
  show ?case using Suc.IH [OF s1(2)] Suc.prems(2) by (cases xs) (simp_all add: s1(1))
qed simp

end

lemma eq_map_spec:
  assumes "map_state N fr m hp T" "map_state N fr' m' hp T'"
  shows "eq_map same hp m m' = Ret (list_all2 same (opt_entries T) (opt_entries T'))"
proof -
  note l = iter_new_left [OF assms(1), of as_key_value_ref, unfolded opt_leaves_items]
    iter_new_left [OF assms(2), of as_key_value_ref, unfolded opt_leaves_items]
  have n: "num_entries m = length (opt_entries T)" "num_entries m' = length (opt_entries T')"
    using assms by (auto simp: map_state_def)
  have "iter_eq same (iter_next as_key_value_ref hp) (iter_next as_key_value_ref hp) (Suc (num_entries m))
      (iter_new m) (iter_new m') = Ret (list_all2 same (opt_entries T) (opt_entries T'))"
    unfolding iter_next_def by (rule it.ex.iter_eq_spec [OF l]) (simp add: n)
  then show ?thesis by (auto simp: eq_map_def n list_all2_lengthD)
qed

lemma cmp_map_spec:
  assumes "map_state N fr m hp T" "map_state N fr' m' hp T'"
  shows "cmp_map compare hp m m' = Ret (list_cmp compare (opt_entries T) (opt_entries T'))"
proof -
  note l = iter_new_left [OF assms(1), of as_key_value_ref, unfolded opt_leaves_items]
    iter_new_left [OF assms(2), of as_key_value_ref, unfolded opt_leaves_items]
  have n: "num_entries m = length (opt_entries T)" using assms by (auto simp: map_state_def)
  show ?thesis
    unfolding cmp_map_def iter_next_def by (rule it.ex.iter_cmp_spec [OF l]) (simp add: n)
qed

lemma partial_cmp_map_spec:
  assumes "map_state N fr m hp T" "map_state N fr' m' hp T'"
  shows "partial_cmp_map compare hp m m' = Ret (list_partial_cmp compare (opt_entries T) (opt_entries T'))"
proof -
  note l = iter_new_left [OF assms(1), of as_key_value_ref, unfolded opt_leaves_items]
    iter_new_left [OF assms(2), of as_key_value_ref, unfolded opt_leaves_items]
  have n: "num_entries m = length (opt_entries T)" using assms by (auto simp: map_state_def)
  show ?thesis
    unfolding partial_cmp_map_def iter_next_def by (rule it.ex.iter_partial_cmp_spec [OF l]) (simp add: n)
qed

lemma hash_map_spec:
  assumes "map_state N fr m hp T"
  shows "hash_map wl eh hp m state = Ret (fold eh (opt_entries T) (wl (length (opt_entries T)) state))"
proof -
  note l = iter_new_left [OF assms(1), of as_key_value_ref, unfolded opt_leaves_items]
  have n: "num_entries m = length (opt_entries T)" using assms by (auto simp: map_state_def)
  show ?thesis
    unfolding hash_map_def iter_next_def Let_def n by (rule it.ex.iter_hash_spec [OF l]) simp
qed

lemma list_partial_cmp_total: "list_partial_cmp (\<lambda>x y. Some (compare x y)) xs ys = Some (list_cmp compare xs ys)"
  by (induction compare xs ys rule: list_cmp.induct) (auto split: ordering.split)

lemma fold_cong_all2:
  "list_all2 same xs ys \<Longrightarrow> (\<And>x y. same x y \<Longrightarrow> eh x = eh y) \<Longrightarrow> fold eh xs state = fold eh ys state"
  by (induction xs ys arbitrary: state rule: list_all2_induct) simp_all

lemma list_cmp_Equal:
  "(\<And>x y. same x y \<longleftrightarrow> compare x y = Equal) \<Longrightarrow> list_cmp compare xs ys = Equal \<longleftrightarrow> list_all2 same xs ys"
  by (induction compare xs ys rule: list_cmp.induct) (auto split: ordering.split)

text \<open>
  C15. \<open>==\<close> on maps decides equality of the abstract maps when \<open>==\<close> on keys and values is equality;
  \<open>cmp\<close> is the lexicographic order of the sorted entries, and it is \<open>Equal\<close> exactly when \<open>==\<close> holds
  if the two agree on entries.  \<open>partial_cmp\<close> agrees with \<open>cmp\<close> when the order of the entries is
  total, and maps that are \<open>==\<close> have the same hash if entries that are \<open>==\<close> do.
\<close>

theorem map_comparisons:
  assumes m: "map_state N fr m hp T" "map_state N fr' m' hp T'"
  shows "eq_map (=) hp m m' = Ret (opt_map T = opt_map T')
    \<and> cmp_map compare hp m m' = Ret (list_cmp compare (opt_entries T) (opt_entries T'))
    \<and> ((\<forall>x y. compare x y = Equal \<longleftrightarrow> same x y) \<longrightarrow>
        (cmp_map compare hp m m' = Ret Equal \<longleftrightarrow> eq_map same hp m m' = Ret True))
    \<and> partial_cmp_map (\<lambda>x y. Some (compare x y)) hp m m' = Ret (Some (list_cmp compare (opt_entries T) (opt_entries T')))
    \<and> (eq_map same hp m m' = Ret True \<and> (\<forall>x y. same x y \<longrightarrow> elt_hash x = elt_hash y) \<longrightarrow>
        hash_map write_length_prefix elt_hash hp m state = hash_map write_length_prefix elt_hash hp m' state
        \<and> (\<exists>h. hash_map write_length_prefix elt_hash hp m state = Ret h))"
proof -
  have "opt_map T = opt_map T' \<longleftrightarrow> opt_entries T = opt_entries T'"
  proof
    assume "opt_map T = opt_map T'"
    then show "opt_entries T = opt_entries T'"
      using opt_entries_unique [OF m(1) opt_entries_sorted [OF m(2)]] opt_map_entries [OF m(2)] by simp
  next
    assume "opt_entries T = opt_entries T'"
    then show "opt_map T = opt_map T'"
      using opt_map_entries [OF m(1)] opt_map_entries [OF m(2)] by (metis (no_types) ext option.exhaust)
  qed
  moreover have "eq_map (=) hp m m' = Ret (opt_entries T = opt_entries T')"
    by (simp add: eq_map_spec [OF m] list.rel_eq)
  ultimately show ?thesis
    using list_cmp_Equal [of same compare "opt_entries T" "opt_entries T'"]
      fold_cong_all2 [of same "opt_entries T" "opt_entries T'" elt_hash] list_all2_lengthD [of same "opt_entries T" "opt_entries T'"]
    unfolding eq_map_spec [OF m] cmp_map_spec [OF m] partial_cmp_map_spec [OF m] hash_map_spec [OF m(1)]
      hash_map_spec [OF m(2)] list_partial_cmp_total by auto
qed

theorem map_comparisons_witness:
  "eq_map (=) sample_heap sample_map sample_map = Ret True"
  using map_comparisons [OF sample_state sample_state, where compare = "\<lambda>_ _. Equal" and same = "\<lambda>_ _. True"
      and elt_hash = "\<lambda>_ h. h + 1" and state = "0 :: nat" and write_length_prefix = "(+)"]
  by simp

end
