(* ===== verification/Entry.thy ===== *)
theory Entry
  imports Iterators
begin

text \<open>
  The entry interface (\<open>src/src/collections/map/entry.rs\<close> and the functions \<open>try_entry\<close> and
  \<open>entry\<close> of \<open>src/src/collections/map.rs\<close>): a handle on the place of one key in the map,
  occupied or vacant, with operations that update the map through it.

  The map that an entry borrows is passed along with the heap.  A reference to a value is the
  pointer to its leaf, as in \<open>get_mut\<close>.  \<open>V::default()\<close> and the closures are arguments.

  The lemmas relate a handle to the tree by the predicate \<open>leads_to\<close> of theory \<open>Delete\<close>: the
  occupied entries that \<open>try_entry\<close> returns hold exactly the point at which their key can be
  deleted.  This is not so for those that \<open>insert_entry\<close> returns for a vacant entry: their
  pointers to the parent and the grandparent are those of the place before the insertion.
\<close>

section \<open>Entries\<close>

record occupied_entry =
  oe_leaf_node_ptr :: node_ptr
  oe_grandparent_ptr_and_parent_key_byte :: "(node_ptr \<times> byte) option"
  oe_parent_ptr_and_child_key_byte :: "(node_ptr \<times> byte) option"

record 'q vacant_entry =
  ve_key :: 'q
  ve_insert_point :: "insert_point option"

datatype 'q entry = Occupied occupied_entry | Vacant "'q vacant_entry"

definition try_entry ::
    "('k, 'v) heap \<Rightarrow> treemap \<Rightarrow> 'k key \<Rightarrow> (insert_prefix_error + 'k key entry) outcome" where
  "try_entry hp m key =
     (case map_root m of
        Some root \<Rightarrow>
          and_then (search_for_insert_point hp root (as_bytes key)) (\<lambda>r.
          case r of Inl e \<Rightarrow> Ret (Inl e)
          | Inr point \<Rightarrow>
              (case insert_type point of
                 Exact leaf_node_ptr \<Rightarrow> Ret (Inr (Occupied \<lparr>oe_leaf_node_ptr = leaf_node_ptr,
                   oe_grandparent_ptr_and_parent_key_byte = ip_grandparent_ptr_and_parent_key_byte point,
                   oe_parent_ptr_and_child_key_byte = ip_parent_ptr_and_child_key_byte point\<rparr>))
               | _ \<Rightarrow> Ret (Inr (Vacant \<lparr>ve_key = key, ve_insert_point = Some point\<rparr>))))
      | None \<Rightarrow> Ret (Inr (Vacant \<lparr>ve_key = key, ve_insert_point = None\<rparr>)))"

definition map_entry :: "('k, 'v) heap \<Rightarrow> treemap \<Rightarrow> 'k key \<Rightarrow> 'k key entry outcome" where
  \<comment> \<open>\<open>TreeMap::entry\<close>, for keys with the marker \<open>NoPrefixesBytes\<close>\<close>
  "map_entry hp m key = and_then (try_entry hp m key) (\<lambda>r. case r of Inl _ \<Rightarrow> UB | Inr e \<Rightarrow> Ret e)"

subsection \<open>Occupied entries\<close>

definition occupied_get :: "('k, 'v) heap \<Rightarrow> occupied_entry \<Rightarrow> 'v outcome" where
  "occupied_get hp e =
     and_then (read_leaf hp (oe_leaf_node_ptr e)) (\<lambda>l. Ret (as_value_ref (oe_leaf_node_ptr e) l))"

definition occupied_get_mut :: "('k, 'v) heap \<Rightarrow> occupied_entry \<Rightarrow> node_ptr outcome" where
  "occupied_get_mut hp e =
     and_then (read_leaf hp (oe_leaf_node_ptr e)) (\<lambda>l. Ret (as_value_mut (oe_leaf_node_ptr e) l))"

definition occupied_insert ::
    "('k, 'v) heap \<Rightarrow> occupied_entry \<Rightarrow> 'v \<Rightarrow> ('v \<times> ('k, 'v) heap) outcome" where
  "occupied_insert hp e v =
     and_then (read_leaf hp (oe_leaf_node_ptr e)) (\<lambda>l.
     and_then (write_value hp (as_value_mut (oe_leaf_node_ptr e) l) v) (\<lambda>hp.
     Ret (leaf_value l, hp)))"

definition occupied_into_mut :: "('k, 'v) heap \<Rightarrow> occupied_entry \<Rightarrow> node_ptr outcome" where
  "occupied_into_mut hp e =
     and_then (read_leaf hp (oe_leaf_node_ptr e)) (\<lambda>l. Ret (as_value_mut (oe_leaf_node_ptr e) l))"

definition occupied_key :: "('k, 'v) heap \<Rightarrow> occupied_entry \<Rightarrow> 'k key outcome" where
  "occupied_key hp e =
     and_then (read_leaf hp (oe_leaf_node_ptr e)) (\<lambda>l. Ret (as_key_ref (oe_leaf_node_ptr e) l))"

definition occupied_remove_entry ::
    "('k, 'v) heap \<Rightarrow> treemap \<Rightarrow> occupied_entry \<Rightarrow> (('k key \<times> 'v) \<times> treemap \<times> ('k, 'v) heap) outcome" where
  "occupied_remove_entry hp m e =
     (let delete_point =
        \<lparr>dp_grandparent_ptr_and_parent_key_byte = oe_grandparent_ptr_and_parent_key_byte e,
         dp_parent_ptr_and_child_key_byte = oe_parent_ptr_and_child_key_byte e,
         dp_leaf_node_ptr = oe_leaf_node_ptr e\<rparr> in
      and_then (apply_delete_point hp m delete_point) (\<lambda>(delete_result, m, hp).
      Ret ((leaf_key (deleted_leaf delete_result), leaf_value (deleted_leaf delete_result)), m, hp)))"

definition occupied_remove ::
    "('k, 'v) heap \<Rightarrow> treemap \<Rightarrow> occupied_entry \<Rightarrow> ('k key \<times> treemap \<times> ('k, 'v) heap) outcome" where
  \<comment> \<open>the first component of the pair, which is the key\<close>
  "occupied_remove hp m e = and_then (occupied_remove_entry hp m e) (\<lambda>(kv, m, hp). Ret (fst kv, m, hp))"

subsection \<open>Vacant entries\<close>

definition vacant_insert_entry ::
    "nat \<Rightarrow> ('k, 'v) heap \<Rightarrow> treemap \<Rightarrow> 'k key vacant_entry \<Rightarrow> 'v
      \<Rightarrow> (occupied_entry \<times> treemap \<times> ('k, 'v) heap) outcome" where
  "vacant_insert_entry PREFIX_LEN hp m e v =
     (case ve_insert_point e of
        Some insert_point \<Rightarrow>
          and_then (apply_insert_point PREFIX_LEN hp m insert_point (ve_key e) v) (\<lambda>(insert_result, m, hp).
          Ret (\<lparr>oe_leaf_node_ptr = ir_leaf_node_ptr insert_result,
            oe_grandparent_ptr_and_parent_key_byte = ip_grandparent_ptr_and_parent_key_byte insert_point,
            oe_parent_ptr_and_child_key_byte = ip_parent_ptr_and_child_key_byte insert_point\<rparr>, m, hp))
      | None \<Rightarrow>
          (case init_tree hp m (ve_key e) v of (leaf_node_ptr, m, hp) \<Rightarrow>
           Ret (\<lparr>oe_leaf_node_ptr = leaf_node_ptr, oe_grandparent_ptr_and_parent_key_byte = None,
             oe_parent_ptr_and_child_key_byte = None\<rparr>, m, hp)))"

definition vacant_insert ::
    "nat \<Rightarrow> ('k, 'v) heap \<Rightarrow> treemap \<Rightarrow> 'k key vacant_entry \<Rightarrow> 'v
      \<Rightarrow> (node_ptr \<times> treemap \<times> ('k, 'v) heap) outcome" where
  "vacant_insert PREFIX_LEN hp m e v =
     and_then (vacant_insert_entry PREFIX_LEN hp m e v) (\<lambda>(oe, m, hp).
     and_then (occupied_into_mut hp oe) (\<lambda>p. Ret (p, m, hp)))"

definition vacant_into_key :: "'q vacant_entry \<Rightarrow> 'q" where
  "vacant_into_key e = ve_key e"

definition vacant_key :: "'q vacant_entry \<Rightarrow> 'q" where
  "vacant_key e = ve_key e"

subsection \<open>Both\<close>

definition entry_and_modify ::
    "('k, 'v) heap \<Rightarrow> 'q entry \<Rightarrow> ('v \<Rightarrow> 'v) \<Rightarrow> ('q entry \<times> ('k, 'v) heap) outcome" where
  "entry_and_modify hp e f =
     (case e of
        Occupied oe \<Rightarrow>
          and_then (read_leaf hp (oe_leaf_node_ptr oe)) (\<lambda>l.
          and_then (write_value hp (as_value_mut (oe_leaf_node_ptr oe) l) (f (leaf_value l))) (\<lambda>hp.
          Ret (Occupied oe, hp)))
      | Vacant ve \<Rightarrow> Ret (Vacant ve, hp))"

definition entry_insert_entry ::
    "nat \<Rightarrow> ('k, 'v) heap \<Rightarrow> treemap \<Rightarrow> 'k key entry \<Rightarrow> 'v
      \<Rightarrow> (occupied_entry \<times> treemap \<times> ('k, 'v) heap) outcome" where
  "entry_insert_entry PREFIX_LEN hp m e v =
     (case e of
        Occupied oe \<Rightarrow> and_then (occupied_insert hp oe v) (\<lambda>(_, hp). Ret (oe, m, hp))
      | Vacant ve \<Rightarrow> vacant_insert_entry PREFIX_LEN hp m ve v)"

definition entry_key :: "('k, 'v) heap \<Rightarrow> 'k key entry \<Rightarrow> 'k key outcome" where
  "entry_key hp e = (case e of Occupied oe \<Rightarrow> occupied_key hp oe | Vacant ve \<Rightarrow> Ret (vacant_key ve))"

definition or_insert ::
    "nat \<Rightarrow> ('k, 'v) heap \<Rightarrow> treemap \<Rightarrow> 'k key entry \<Rightarrow> 'v \<Rightarrow> (node_ptr \<times> treemap \<times> ('k, 'v) heap) outcome" where
  "or_insert PREFIX_LEN hp m e v =
     (case e of
        Occupied oe \<Rightarrow> and_then (occupied_into_mut hp oe) (\<lambda>p. Ret (p, m, hp))
      | Vacant ve \<Rightarrow> vacant_insert PREFIX_LEN hp m ve v)"

definition or_default ::
    "'v \<Rightarrow> nat \<Rightarrow> ('k, 'v) heap \<Rightarrow> treemap \<Rightarrow> 'k key entry \<Rightarrow> (node_ptr \<times> treemap \<times> ('k, 'v) heap) outcome" where
  "or_default v_default PREFIX_LEN hp m e =
     (case e of
        Occupied oe \<Rightarrow> and_then (occupied_into_mut hp oe) (\<lambda>p. Ret (p, m, hp))
      | Vacant ve \<Rightarrow> vacant_insert PREFIX_LEN hp m ve v_default)"

definition or_insert_with ::
    "nat \<Rightarrow> ('k, 'v) heap \<Rightarrow> treemap \<Rightarrow> 'k key entry \<Rightarrow> (unit \<Rightarrow> 'v)
      \<Rightarrow> (node_ptr \<times> treemap \<times> ('k, 'v) heap) outcome" where
  "or_insert_with PREFIX_LEN hp m e f =
     (case e of
        Occupied oe \<Rightarrow> and_then (occupied_into_mut hp oe) (\<lambda>p. Ret (p, m, hp))
      | Vacant ve \<Rightarrow> vacant_insert PREFIX_LEN hp m ve (f ()))"

definition or_insert_with_key ::
    "nat \<Rightarrow> ('k, 'v) heap \<Rightarrow> treemap \<Rightarrow> 'k key entry \<Rightarrow> ('k key \<Rightarrow> 'v)
      \<Rightarrow> (node_ptr \<times> treemap \<times> ('k, 'v) heap) outcome" where
  "or_insert_with_key PREFIX_LEN hp m e f =
     (case e of
        Occupied oe \<Rightarrow> and_then (occupied_into_mut hp oe) (\<lambda>p. Ret (p, m, hp))
      | Vacant ve \<Rightarrow> let v = f (vacant_key ve) in vacant_insert PREFIX_LEN hp m ve v)"

definition or_insert_entry ::
    "nat \<Rightarrow> ('k, 'v) heap \<Rightarrow> treemap \<Rightarrow> 'k key entry \<Rightarrow> 'v \<Rightarrow> (occupied_entry \<times> treemap \<times> ('k, 'v) heap) outcome" where
  "or_insert_entry PREFIX_LEN hp m e v =
     (case e of Occupied oe \<Rightarrow> Ret (oe, m, hp) | Vacant ve \<Rightarrow> vacant_insert_entry PREFIX_LEN hp m ve v)"

definition or_default_entry ::
    "'v \<Rightarrow> nat \<Rightarrow> ('k, 'v) heap \<Rightarrow> treemap \<Rightarrow> 'k key entry \<Rightarrow> (occupied_entry \<times> treemap \<times> ('k, 'v) heap) outcome" where
  "or_default_entry v_default PREFIX_LEN hp m e =
     (case e of Occupied oe \<Rightarrow> Ret (oe, m, hp) | Vacant ve \<Rightarrow> vacant_insert_entry PREFIX_LEN hp m ve v_default)"

definition or_insert_with_entry ::
    "nat \<Rightarrow> ('k, 'v) heap \<Rightarrow> treemap \<Rightarrow> 'k key entry \<Rightarrow> (unit \<Rightarrow> 'v)
      \<Rightarrow> (occupied_entry \<times> treemap \<times> ('k, 'v) heap) outcome" where
  "or_insert_with_entry PREFIX_LEN hp m e f =
     (case e of Occupied oe \<Rightarrow> Ret (oe, m, hp) | Vacant ve \<Rightarrow> vacant_insert_entry PREFIX_LEN hp m ve (f ()))"

definition or_insert_with_key_entry ::
    "nat \<Rightarrow> ('k, 'v) heap \<Rightarrow> treemap \<Rightarrow> 'k key entry \<Rightarrow> ('k key \<Rightarrow> 'v)
      \<Rightarrow> (occupied_entry \<times> treemap \<times> ('k, 'v) heap) outcome" where
  "or_insert_with_key_entry PREFIX_LEN hp m e f =
     (case e of Occupied oe \<Rightarrow> Ret (oe, m, hp)
      | Vacant ve \<Rightarrow> let v = f (vacant_key ve) in vacant_insert_entry PREFIX_LEN hp m ve v)"

section \<open>The search finds the leaf of a present key\<close>

definition delete_point_of :: "occupied_entry \<Rightarrow> delete_point" where
  "delete_point_of e =
     \<lparr>dp_grandparent_ptr_and_parent_key_byte = oe_grandparent_ptr_and_parent_key_byte e,
      dp_parent_ptr_and_child_key_byte = oe_parent_ptr_and_child_key_byte e,
      dp_leaf_node_ptr = oe_leaf_node_ptr e\<rparr>"

text \<open>The search of \<open>try_entry\<close> meets the leaf of a present key, where the deletion would find it.\<close>

lemma search_insert_exact:
  assumes "holds N hp t" "wf_art path t" "height t < fuel" "Sublist.prefix path key" "tree_map t key = Some e"
  shows "\<exists>ip p. search_insert_from fuel hp root key gp par (root_ptr t) (length path) = Ret (Inr ip)
    \<and> insert_type ip = Exact p
    \<and> leads_to gp par t key \<lparr>dp_grandparent_ptr_and_parent_key_byte = ip_grandparent_ptr_and_parent_key_byte ip,
       dp_parent_ptr_and_child_key_byte = ip_parent_ptr_and_child_key_byte ip, dp_leaf_node_ptr = p\<rparr>"
  using assms
proof (induction t arbitrary: path fuel gp par)
  case (ALeaf a k v)
  have "as_bytes k = key" using ALeaf.prems(5) by (simp add: tree_map_Leaf split: if_splits)
  then show ?case
    using ALeaf.prems(1,3) at_leaf [of gp par a k v]
    by (cases fuel) (auto simp: holds_def read_leaf_def)
next
  case (AInner a ty pf ch)
  let ?t = "AInner a ty pf ch"
  obtain f where f: "fuel = Suc f" using AInner.prems(3) by (cases fuel) auto
  obtain rest where key: "key = path @ rest" using AInner.prems(4) by (auto simp: prefix_def)
  have hf: "height ?t \<le> f" using AInner.prems(3) f by simp
  have "Sublist.prefix (path @ pf) key" "key \<noteq> path @ pf"
    using tree_map_Inner(2) [OF AInner.prems(2), of key] AInner.prems(5) by auto
  then obtain b r where rest: "rest = pf @ b # r" unfolding key
    by (metis append_Nil2 neq_Nil_conv prefix_def same_append_eq same_prefix_prefix)
  then obtain c where c: "map_of ch b = Some c" "tree_map c key = Some e"
    using tree_map_Inner(1) [OF AInner.prems(2), of b r] AInner.prems(5) by (auto simp: key split: option.splits)
  then have mem: "(b, c) \<in> set ch" by (simp add: map_of_SomeD)
  have idx: "index_at key (length path + length pf) = Ret b" "length path + length pf < length key"
    using nth_append_length [of "path @ pf" b r] by (simp_all add: index_at_def key rest)
  have step: "search_insert_from fuel hp root key gp par (root_ptr ?t) (length path)
      = search_insert_from f hp root key par (Some (Ptr ty a, b)) (root_ptr c) (length (path @ pf @ [b]))"
    using test_prefix_spec(3) [OF AInner.prems(1,2) hf key rest] c(1) idx AInner.prems(2) by (simp add: f Let_def)
  have "height c < f" using height_child [OF mem, of a ty pf] hf by simp
  moreover have "Sublist.prefix (path @ pf @ [b]) key" by (simp add: key rest)
  ultimately show ?case
    using AInner.IH [OF mem holds_child [OF AInner.prems(1) mem] wf_child [OF AInner.prems(2) mem] _ _ c(2),
        of f par "Some (Ptr ty a, b)"] leads_to.below [OF mem]
    unfolding step by blast
qed

lemma leads_to_leaf:
  "leads_to gp par t kb dp \<Longrightarrow> \<exists>a k v. dp_leaf_node_ptr dp = Ptr LeafKind a \<and> (a, k, v) \<in> set (leaves t) \<and> as_bytes k = kb"
  by (induction rule: leads_to.induct) force+

lemma leads_to_set_leaf: "leads_to gp par t kb dp \<Longrightarrow> leads_to gp par (set_leaf a v t) kb dp"
proof (induction rule: leads_to.induct)
  case (below b c ch par ty a' kb dp gp pf)
  have "(b, set_leaf a v c) \<in> set (map (map_prod id (set_leaf a v)) ch)" using below.hyps(1) by force
  then show ?case using leads_to.below [OF _ below.IH] by simp
qed (auto intro: leads_to.intros)

text \<open>An occupied entry for the key \<open>kb\<close> of the map.\<close>

definition entry_at ::
    "nat \<Rightarrow> (nat \<Rightarrow> ('k, 'v) cell option) \<Rightarrow> treemap \<Rightarrow> ('k, 'v) heap \<Rightarrow> ('k, 'v) art option
      \<Rightarrow> bytes \<Rightarrow> occupied_entry \<Rightarrow> bool" where
  "entry_at N frame m hp T kb e \<longleftrightarrow> map_state N frame m hp T
     \<and> (\<exists>t. T = Some t \<and> leads_to None None t kb (delete_point_of e))"

lemma entry_value_at:
  assumes "entry_at N fr m hp T kb e"
  obtains k v where "value_at N fr m hp T (oe_leaf_node_ptr e) k v" "as_bytes k = kb" "opt_map T kb = Some (k, v)"
proof -
  obtain t where t: "T = Some t" "leads_to None None t kb (delete_point_of e)" "map_state N fr m hp T"
    using assms by (auto simp: entry_at_def)
  then obtain a k v where "oe_leaf_node_ptr e = Ptr LeafKind a" "(a, k, v) \<in> set (leaves t)" "as_bytes k = kb"
    using leads_to_leaf [OF t(2)] by (auto simp: delete_point_of_def)
  then have "value_at N fr m hp T (oe_leaf_node_ptr e) k v" "as_bytes k = kb" using t by (auto simp: value_at_def)
  then show thesis using that value_at_read(2) by metis
qed

lemma try_entry_spec:
  assumes m: "map_state N fr m hp T" and len: "length (as_bytes k) < 2 ^ 32"
  shows "if \<exists>e\<in>set (opt_entries T). conflicts (as_bytes k) (as_bytes (fst e))
    then try_entry hp m k = Ret (Inl (InsertPrefixError (as_bytes k)))
    else if as_bytes k \<in> dom (opt_map T)
    then \<exists>oe. try_entry hp m k = Ret (Inr (Occupied oe)) \<and> entry_at N fr m hp T (as_bytes k) oe
    else \<exists>ve. try_entry hp m k = Ret (Inr (Vacant ve)) \<and> ve_key ve = k \<and>
      (\<forall>v. \<exists>oe m' hp' T'. vacant_insert_entry N hp m ve v = Ret (oe, m', hp')
        \<and> value_at N fr m' hp' T' (oe_leaf_node_ptr oe) k v \<and> opt_map T' = (opt_map T)(as_bytes k \<mapsto> (k, v)))"
proof (cases T)
  case None
  let ?ve = "\<lparr>ve_key = k, ve_insert_point = None\<rparr>"
  have "\<exists>oe m' hp' T'. vacant_insert_entry N hp m ?ve v = Ret (oe, m', hp')
        \<and> value_at N fr m' hp' T' (oe_leaf_node_ptr oe) k v \<and> opt_map T' = [as_bytes k \<mapsto> (k, v)]" for v
    using init_tree_spec [OF m [unfolded None] len, of v] by (fastforce simp: vacant_insert_entry_def)
  then show ?thesis using m by (simp add: None try_entry_def map_state_def)
next
  case (Some t)
  note m = m [unfolded Some]
  have h: "holds N hp t" "wf_art [] t" "map_root m = Some (root_ptr t)" using m by (auto simp: map_state_def)
  note spec = apply_insert_spec [OF m len]
  show ?thesis
  proof (cases "\<exists>e\<in>set (entries t). conflicts (as_bytes k) (as_bytes (fst e))")
    case True
    then show ?thesis using spec h(3) by (simp add: try_entry_def Some)
  next
    case clash: False
    show ?thesis
    proof (cases "tree_map t (as_bytes k)")
      case e: (Some e)
      have fuel: "height t < Suc (next_addr hp)" using holds_height [OF h(1)] by simp
      obtain ip p where "search_for_insert_point hp (root_ptr t) (as_bytes k) = Ret (Inr ip)"
        "insert_type ip = Exact p" "leads_to None None t (as_bytes k) (delete_point_of \<lparr>oe_leaf_node_ptr = p,
           oe_grandparent_ptr_and_parent_key_byte = ip_grandparent_ptr_and_parent_key_byte ip,
           oe_parent_ptr_and_child_key_byte = ip_parent_ptr_and_child_key_byte ip\<rparr>)"
        using search_insert_exact [OF h(1,2) fuel Nil_prefix e, of "root_ptr t" None None]
        by (auto simp: search_for_insert_point_def delete_point_of_def simp del: search_insert_from.simps)
      then show ?thesis using clash h(3) e m by (auto simp: try_entry_def Some entry_at_def)
    next
      case new: None
      obtain ip where ip: "search_for_insert_point hp (root_ptr t) (as_bytes k) = Ret (Inr ip)"
        using spec [of undefined] clash by auto
      let ?ve = "\<lparr>ve_key = k, ve_insert_point = Some ip\<rparr>"
      have ap: "\<exists>r m' hp' T'. apply_insert_point N hp m ip k v = Ret (r, m', hp') \<and> existing_leaf r = None
        \<and> value_at N fr m' hp' T' (ir_leaf_node_ptr r) k v \<and> opt_map T' = (tree_map t)(as_bytes k \<mapsto> (k, v))" for v
        using spec [of v] clash ip new by auto
      have "\<exists>oe m' hp' T'. vacant_insert_entry N hp m ?ve v = Ret (oe, m', hp')
        \<and> value_at N fr m' hp' T' (oe_leaf_node_ptr oe) k v \<and> opt_map T' = (tree_map t)(as_bytes k \<mapsto> (k, v))" for v
        using ap [of v] by (fastforce simp: vacant_insert_entry_def)
      moreover have "insert_type ip \<noteq> Exact p" for p
        using ap [of undefined]
        by (auto simp: apply_insert_point_def insert_apply_def and_then_eq_Ret_iff Let_def split: if_splits)
      then have "try_entry hp m k = Ret (Inr (Vacant ?ve))"
        using ip h(3) by (simp add: try_entry_def split: insert_search_result_type.split)
      ultimately show ?thesis using clash new by (simp add: Some domIff)
    qed
  qed
qed

section \<open>Occupied entries\<close>

lemma entry_write:
  fixes v :: 'v
  assumes e: "entry_at N fr m hp T kb e" and o: "opt_map T kb = Some (k, w)"
  shows "\<exists>hp' T'. write_value hp (oe_leaf_node_ptr e) v = Ret hp' \<and> entry_at N fr m hp' T' kb e
    \<and> opt_map T' = (opt_map T)(kb \<mapsto> (k, v))"
proof -
  obtain t where t: "T = Some t" "leads_to None None t kb (delete_point_of e)" using e by (auto simp: entry_at_def)
  have va: "value_at N fr m hp T (oe_leaf_node_ptr e) k w" and kb: "as_bytes k = kb"
    using entry_value_at [OF e] o by (metis Pair_inject option.inject)+
  show ?thesis
    using value_at_write [OF va, of v] value_at_read(3) leads_to_set_leaf [OF t(2)]
    unfolding entry_at_def kb by (fastforce simp: t(1) simp del: opt_simps)
qed

lemma entry_read:
  assumes e: "entry_at N fr m hp T kb e" and o: "opt_map T kb = Some (k, w)"
  shows "read_leaf hp (oe_leaf_node_ptr e) = Ret \<lparr>leaf_key = k, leaf_value = w\<rparr>"
    "value_at N fr m hp T (oe_leaf_node_ptr e) k w" "as_bytes k = kb"
proof -
  show va: "value_at N fr m hp T (oe_leaf_node_ptr e) k w" and "as_bytes k = kb"
    using entry_value_at [OF e] o by (metis Pair_inject option.inject)+
  show "read_leaf hp (oe_leaf_node_ptr e) = Ret \<lparr>leaf_key = k, leaf_value = w\<rparr>" by (rule value_at_read(1) [OF va])
qed

lemmas occupied_defs = occupied_get_def occupied_get_mut_def occupied_into_mut_def occupied_key_def
  as_value_ref_def as_value_mut_def as_key_ref_def

lemma occupied_reads:
  assumes "entry_at N fr m hp T kb e" "opt_map T kb = Some (k, w)"
  shows "occupied_get hp e = Ret w" "occupied_key hp e = Ret k"
    "occupied_get_mut hp e = Ret (oe_leaf_node_ptr e)" "occupied_into_mut hp e = Ret (oe_leaf_node_ptr e)"
  using entry_read(1) [OF assms] by (simp_all add: occupied_defs)

lemma occupied_insert_spec:
  assumes e: "entry_at N fr m hp T kb e" "opt_map T kb = Some (k, w)"
  shows "\<exists>hp' T'. occupied_insert hp e v = Ret (w, hp') \<and> entry_at N fr m hp' T' kb e
    \<and> opt_map T' = (opt_map T)(kb \<mapsto> (k, v))"
  using entry_write [OF e, of v] entry_read(1) [OF e]
  by (fastforce simp: occupied_insert_def as_value_mut_def)

lemma and_modify_spec:
  assumes e: "entry_at N fr m hp T kb e" "opt_map T kb = Some (k, w)"
  shows "\<exists>hp' T'. entry_and_modify hp (Occupied e) f = Ret (Occupied e, hp') \<and> entry_at N fr m hp' T' kb e
    \<and> opt_map T' = (opt_map T)(kb \<mapsto> (k, f w))"
  using entry_write [OF e, of "f w"] entry_read(1) [OF e]
  by (fastforce simp: entry_and_modify_def as_value_mut_def)

lemma occupied_remove_spec:
  assumes e: "entry_at N fr m hp T kb e" "opt_map T kb = Some (k, w)"
  shows "\<exists>m' hp' T'. occupied_remove_entry hp m e = Ret ((k, w), m', hp')
    \<and> occupied_remove hp m e = Ret (k, m', hp')
    \<and> map_state N fr m' hp' T' \<and> opt_map T' = (opt_map T)(kb := None)"
proof -
  obtain t where t: "T = Some t" "leads_to None None t kb (delete_point_of e)" "map_state N fr m hp (Some t)"
    using e(1) by (auto simp: entry_at_def)
  obtain m' hp' T' where 1: "pop_with hp m (delete_point_of e) = Ret (Some (k, w), m', hp')"
    "map_state N fr m' hp' T'" "opt_map T' = (tree_map t)(kb := None)"
    using apply_delete_spec [OF t(3,2)] e(2) by (auto simp: t(1))
  then have "occupied_remove_entry hp m e = Ret ((k, w), m', hp')"
    by (auto simp: pop_with_def occupied_remove_entry_def delete_point_of_def and_then_eq_Ret_iff)
  then show ?thesis using 1(2,3) by (auto simp: occupied_remove_def t(1))
qed

lemma or_insert_variants:
  "or_insert_with N hp m e f = or_insert N hp m e (f ())"
  "or_default d N hp m e = or_insert N hp m e d"
  "or_insert_with_entry N hp m e f = or_insert_entry N hp m e (f ())"
  "or_default_entry d N hp m e = or_insert_entry N hp m e d"
  by (simp_all add: or_insert_with_def or_insert_def or_default_def or_insert_with_entry_def or_insert_entry_def
      or_default_entry_def split: entry.split)

lemma try_entry_cases:
  assumes m: "map_state N fr m hp T" and en: "try_entry hp m k = Ret (Inr en)" and len: "length (as_bytes k) < 2 ^ 32"
  obtains (present) oe k0 w where "en = Occupied oe" "entry_at N fr m hp T (as_bytes k) oe" "opt_map T (as_bytes k) = Some (k0, w)"
  | (absent) ve where "en = Vacant ve" "ve_key ve = k" "opt_map T (as_bytes k) = None"
      "\<forall>v. \<exists>oe m' hp' T'. vacant_insert_entry N hp m ve v = Ret (oe, m', hp')
        \<and> value_at N fr m' hp' T' (oe_leaf_node_ptr oe) k v \<and> opt_map T' = (opt_map T)(as_bytes k \<mapsto> (k, v))"
proof (cases "opt_map T (as_bytes k)")
  case None
  then show thesis using try_entry_spec [OF m len] en absent by (auto split: if_splits)
next
  case (Some e)
  then show thesis using try_entry_spec [OF m len] en present by (cases e) (auto split: if_splits)
qed

lemma entry_insert_entry_spec:
  assumes m: "map_state N fr m hp T" and en: "try_entry hp m k = Ret (Inr en)" and len: "length (as_bytes k) < 2 ^ 32"
  defines "k' \<equiv> case opt_map T (as_bytes k) of None \<Rightarrow> k | Some (k0, _) \<Rightarrow> k0"
  shows "\<exists>oe m' hp' T'. entry_insert_entry N hp m en v = Ret (oe, m', hp')
    \<and> value_at N fr m' hp' T' (oe_leaf_node_ptr oe) k' v \<and> opt_map T' = (opt_map T)(as_bytes k \<mapsto> (k', v))"
  using m en len
proof (cases rule: try_entry_cases)
  case (present oe k0 w)
  have k': "k' = k0" using present(3) by (simp add: k'_def)
  obtain hp' T' where "occupied_insert hp oe v = Ret (w, hp')" "entry_at N fr m hp' T' (as_bytes k) oe"
    "opt_map T' = (opt_map T)(as_bytes k \<mapsto> (k0, v))"
    using occupied_insert_spec [OF present(2,3)] by blast
  moreover from this have "value_at N fr m hp' T' (oe_leaf_node_ptr oe) k0 v" by (intro entry_read(2) [where kb = "as_bytes k"]) simp_all
  ultimately show ?thesis unfolding present(1) k' by (auto simp: entry_insert_entry_def)
next
  case (absent ve)
  then show ?thesis by (simp add: k'_def entry_insert_entry_def)
qed

lemma or_insert_spec:
  fixes f :: "'k key \<Rightarrow> 'v" and m :: treemap
  assumes m: "map_state N fr m hp T" and en: "try_entry hp m k = Ret (Inr en)" and len: "length (as_bytes k) < 2 ^ 32"
  defines "kv \<equiv> case opt_map T (as_bytes k) of None \<Rightarrow> (k, f k) | Some kv \<Rightarrow> kv"
  shows "\<exists>oe m' hp' T'. or_insert_with_key_entry N hp m en f = Ret (oe, m', hp')
    \<and> or_insert_with_key N hp m en f = Ret (oe_leaf_node_ptr oe, m', hp')
    \<and> or_insert_entry N hp m en (f k) = Ret (oe, m', hp')
    \<and> or_insert N hp m en (f k) = Ret (oe_leaf_node_ptr oe, m', hp')
    \<and> value_at N fr m' hp' T' (oe_leaf_node_ptr oe) (fst kv) (snd kv)
    \<and> opt_map T' = (opt_map T)(as_bytes k \<mapsto> kv)"
  using m en len
proof (cases rule: try_entry_cases)
  case (present oe k0 w)
  then have "(opt_map T)(as_bytes k \<mapsto> kv) = opt_map T" "kv = (k0, w)" by (auto simp: kv_def)
  then show ?thesis
    using occupied_reads(4) [OF present(2,3)] entry_read(2) [OF present(2,3)]
    by (auto simp: present(1) or_insert_with_key_entry_def or_insert_with_key_def or_insert_entry_def or_insert_def)
next
  case (absent ve)
  obtain oe m' hp' T' where 1: "vacant_insert_entry N hp m ve (f k) = Ret (oe, m', hp')"
    "value_at N fr m' hp' T' (oe_leaf_node_ptr oe) k (f k)" "opt_map T' = (opt_map T)(as_bytes k \<mapsto> (k, f k))"
    using absent(4) by blast
  have "vacant_insert N hp m ve (f k) = Ret (oe_leaf_node_ptr oe, m', hp')"
    using 1(1) value_at_read(1) [OF 1(2)] by (simp add: vacant_insert_def occupied_defs)
  then show ?thesis
    using 1 absent(2,3) unfolding absent(1)
    by (auto simp: or_insert_with_key_entry_def or_insert_with_key_def or_insert_entry_def or_insert_def vacant_key_def kv_def)
qed

section \<open>Properties of the entries\<close>

text \<open>
  C26. \<open>try_entry\<close> fails exactly when \<open>try_insert\<close> would; otherwise the entry is occupied
  exactly when the key is present, and then gives the stored key, the value and a reference to
  this value.  \<open>entry\<close> reaches its unchecked unwrap only when \<open>try_entry\<close> fails.
\<close>

theorem map_try_entry:
  assumes "map_state N fr m hp T" "length (as_bytes k) < 2 ^ 32"
  shows "if \<exists>e\<in>set (opt_entries T). conflicts (as_bytes k) (as_bytes (fst e))
    then try_entry hp m k = Ret (Inl (InsertPrefixError (as_bytes k)))
    else \<exists>en. try_entry hp m k = Ret (Inr en) \<and> map_entry hp m k = Ret en \<and>
      (case opt_map T (as_bytes k) of
         None \<Rightarrow> (\<exists>ve. en = Vacant ve \<and> vacant_key ve = k)
       | Some (k0, w) \<Rightarrow> (\<exists>oe p. en = Occupied oe \<and> occupied_key hp oe = Ret k0 \<and> occupied_get hp oe = Ret w
           \<and> occupied_get_mut hp oe = Ret p \<and> value_at N fr m hp T p k0 w))"
proof -
  consider "\<exists>e\<in>set (opt_entries T). conflicts (as_bytes k) (as_bytes (fst e))"
      "try_entry hp m k = Ret (Inl (InsertPrefixError (as_bytes k)))"
    | en where "\<not> (\<exists>e\<in>set (opt_entries T). conflicts (as_bytes k) (as_bytes (fst e)))" "try_entry hp m k = Ret (Inr en)"
    using try_entry_spec [OF assms] by (metis (full_types))
  then show ?thesis
  proof cases
    case 2
    have "map_entry hp m k = Ret en" by (simp add: map_entry_def 2(2))
    with assms(1) 2(2) assms(2) show ?thesis
    proof (cases rule: try_entry_cases)
      case (present oe k0 w)
      then show ?thesis
        using 2 occupied_reads [OF present(2,3)] entry_read(2) [OF present(2,3)] by (simp add: map_entry_def)
    next
      case (absent ve)
      then show ?thesis using 2 by (simp add: map_entry_def vacant_key_def)
    qed
  qed simp
qed

theorem map_try_entry_witness:
  "(\<exists>oe. map_entry sample_heap sample_map (Key [1, 3] ()) = Ret (Occupied oe) \<and> occupied_get sample_heap oe = Ret 30)
   \<and> (\<exists>ve. map_entry sample_heap sample_map (Key [1, 4, 4] ()) = Ret (Vacant ve))
   \<and> try_entry sample_heap sample_map (Key [1] ()) = Ret (Inl (InsertPrefixError [1]))"
  using map_try_entry [OF sample_state, of "Key [1, 3] ()"] map_try_entry [OF sample_state, of "Key [1, 4, 4] ()"]
    map_try_entry [OF sample_state, of "Key [1] ()"]
  by (simp add: sample_opt_map sample_entries conflicts_def del: opt_simps(3,4)) blast

text \<open>
  C27. The \<open>or_insert\<close> family: on the entry of a key, each of them returns a reference to the
  value of the key; if the key was absent, the map now has it with the given value, else the map
  is as it was, and the closures are only used for an absent key.
\<close>

theorem map_or_insert:
  fixes f :: "'k key \<Rightarrow> 'v"
  assumes "map_state N fr m hp T" "length (as_bytes k) < 2 ^ 32" "try_entry hp m k = Ret (Inr en)"
  defines "kv \<equiv> case opt_map T (as_bytes k) of None \<Rightarrow> (k, f k) | Some kv \<Rightarrow> kv"
  shows "\<exists>p m' hp' T'. or_insert N hp m en (f k) = Ret (p, m', hp')
    \<and> or_insert_with_key N hp m en f = Ret (p, m', hp')
    \<and> or_insert_with N hp m en (\<lambda>_. f k) = Ret (p, m', hp')
    \<and> or_default (f k) N hp m en = Ret (p, m', hp')
    \<and> value_at N fr m' hp' T' p (fst kv) (snd kv)
    \<and> opt_map T' = (opt_map T)(as_bytes k \<mapsto> kv)"
  using or_insert_spec [OF assms(1,3,2), of f, folded kv_def] unfolding or_insert_variants by blast

theorem map_or_insert_witness:
  "\<exists>en p m' hp' T'. try_entry sample_heap sample_map (Key [1, 4, 4] ()) = Ret (Inr en)
    \<and> or_insert 2 sample_heap sample_map en 44 = Ret (p, m', hp')
    \<and> value_at 2 sample_frame m' hp' T' p (Key [1, 4, 4] ()) 44 \<and> opt_map T' [1, 2] = Some (Key [1, 2] (), 20)"
proof -
  obtain en where "try_entry sample_heap sample_map (Key [1, 4, 4] ()) = Ret (Inr en)"
    using try_entry_spec [OF sample_state, of "Key [1, 4, 4] ()"]
    by (auto simp: sample_entries conflicts_def split: if_splits)
  then show ?thesis
    using map_or_insert [OF sample_state, of "Key [1, 4, 4] ()" en "\<lambda>_. 44"]
    by (fastforce simp: sample_opt_map simp del: opt_simps)
qed

text \<open>
  C28. Through the occupied entry of a key, \<open>insert\<close> replaces the value and returns the old
  one, \<open>and_modify\<close> applies the function to it, both keeping the stored key; \<open>remove_entry\<close> and
  \<open>remove\<close> delete the key and return its entry and its stored key.
\<close>

theorem map_occupied_entry:
  assumes "map_state N fr m hp T" "length (as_bytes k) < 2 ^ 32" "try_entry hp m k = Ret (Inr (Occupied oe))"
  shows "\<exists>k0 w. opt_map T (as_bytes k) = Some (k0, w)
    \<and> (\<exists>hp' T'. occupied_insert hp oe v = Ret (w, hp') \<and> map_state N fr m hp' T'
        \<and> opt_map T' = (opt_map T)(as_bytes k \<mapsto> (k0, v)))
    \<and> (\<exists>hp' T'. entry_and_modify hp (Occupied oe :: 'k key entry) f = Ret (Occupied oe, hp') \<and> map_state N fr m hp' T'
        \<and> opt_map T' = (opt_map T)(as_bytes k \<mapsto> (k0, f w)))
    \<and> (\<exists>m' hp' T'. occupied_remove_entry hp m oe = Ret ((k0, w), m', hp') \<and> occupied_remove hp m oe = Ret (k0, m', hp')
        \<and> map_state N fr m' hp' T' \<and> opt_map T' = (opt_map T)(as_bytes k := None))"
proof -
  obtain k0 w where e: "entry_at N fr m hp T (as_bytes k) oe" "opt_map T (as_bytes k) = Some (k0, w)"
    using assms(1,3,2) by (cases rule: try_entry_cases) auto
  then show ?thesis
    using occupied_insert_spec [OF e, of v] and_modify_spec [OF e, of f] occupied_remove_spec [OF e]
    unfolding entry_at_def by blast
qed

theorem map_occupied_entry_witness:
  "\<exists>oe m' hp' T'. try_entry sample_heap sample_map (Key [1, 3] ()) = Ret (Inr (Occupied oe))
    \<and> occupied_remove sample_heap sample_map oe = Ret (Key [1, 3] (), m', hp') \<and> map_state 2 sample_frame m' hp' T'
    \<and> opt_map T' [1, 3] = None \<and> opt_map T' [1, 2] \<noteq> None"
proof -
  obtain oe where 1: "try_entry sample_heap sample_map (Key [1, 3] ()) = Ret (Inr (Occupied oe))"
    using try_entry_spec [OF sample_state, of "Key [1, 3] ()"]
    by (auto simp: sample_opt_map sample_entries conflicts_def dom_def simp del: opt_simps(3,4))
  show ?thesis
    using map_occupied_entry [OF sample_state _ 1, of 0 id] 1
    by (fastforce simp: sample_opt_map simp del: opt_simps)
qed

text \<open>
  \<open>insert_entry\<close> sets the value of the key (keeping a stored key) and returns an occupied
  entry for it, whose reference to the value is right.
\<close>

lemma map_insert_entry:
  assumes "map_state N fr m hp T" "length (as_bytes k) < 2 ^ 32" "try_entry hp m k = Ret (Inr en)"
  shows "\<exists>oe m' hp' T' k'. entry_insert_entry N hp m en v = Ret (oe, m', hp')
    \<and> k' = (case opt_map T (as_bytes k) of None \<Rightarrow> k | Some (k0, _) \<Rightarrow> k0)
    \<and> occupied_get hp' oe = Ret v \<and> occupied_key hp' oe = Ret k'
    \<and> map_state N fr m' hp' T' \<and> opt_map T' = (opt_map T)(as_bytes k \<mapsto> (k', v))"
proof -
  let ?k = "case opt_map T (as_bytes k) of None \<Rightarrow> k | Some (k0, _) \<Rightarrow> k0"
  obtain oe m' hp' T' where 1: "entry_insert_entry N hp m en v = Ret (oe, m', hp')"
    "value_at N fr m' hp' T' (oe_leaf_node_ptr oe) ?k v" "opt_map T' = (opt_map T)(as_bytes k \<mapsto> (?k, v))"
    using entry_insert_entry_spec [OF assms(1,3,2), of v] by blast
  have "occupied_get hp' oe = Ret v" "occupied_key hp' oe = Ret ?k"
    using value_at_read(1) [OF 1(2)] by (simp_all add: occupied_defs)
  then show ?thesis using 1 value_at_read(3) [OF 1(2)] by blast
qed

text \<open>
  C29. The entry that \<open>insert_entry\<close> returns for a vacant key has the parent pointers of before
  the insertion, so removing through it destroys the map: when the key went in at the root of a
  map that was not empty, the removal leaves a map without a root that still counts the earlier
  entries, and none of their keys is found any more.
\<close>

theorem vacant_entry_remove_loses_tree:
  assumes "map_state N fr m hp (Some t)" "length (as_bytes k) < 2 ^ 32"
    and "try_entry hp m k = Ret (Inr (Vacant \<lparr>ve_key = k, ve_insert_point = Some ip\<rparr>))"
    and "ip_parent_ptr_and_child_key_byte ip = None" "ip_grandparent_ptr_and_parent_key_byte ip = None"
  shows "\<exists>m' hp'. and_then (entry_insert_entry N hp m (Vacant \<lparr>ve_key = k, ve_insert_point = Some ip\<rparr>) v)
      (\<lambda>(oe, m, hp). occupied_remove_entry hp m oe) = Ret ((k, v), m', hp')
    \<and> len_map m' = length (entries t) \<and> map_root m' = None \<and> get hp' m' key = Ret None"
proof -
  have h: "map_root m = Some (root_ptr t)" using assms(1) by (simp add: map_state_def)
  have new: "tree_map t (as_bytes k) = None" and ex: "\<not> (\<exists>e\<in>set (entries t). conflicts (as_bytes k) (as_bytes (fst e)))"
    using try_entry_spec [OF assms(1,2)] assms(3) by (auto split: if_splits)
  have "search_for_insert_point hp (root_ptr t) (as_bytes k) = Ret (Inr ip)"
    using assms(3) by (cases "search_for_insert_point hp (root_ptr t) (as_bytes k)")
      (auto simp: try_entry_def h split: sum.splits insert_search_result_type.splits)
  then obtain r m1 hp1 T1 where ap: "apply_insert_point N hp m ip k v = Ret (r, m1, hp1)"
    "value_at N fr m1 hp1 T1 (ir_leaf_node_ptr r) k v" "opt_map T1 = (tree_map t)(as_bytes k \<mapsto> (k, v))"
    using apply_insert_spec [OF assms(1,2), of v] ex by auto
  obtain t1 a where t1: "T1 = Some t1" "ir_leaf_node_ptr r = Ptr LeafKind a" "map_state N fr m1 hp1 (Some t1)"
    using ap(2) by (auto simp: value_at_def)
  have "length (entries t1) = Suc (length (entries t))"
    using length_entries_insert [of "[]" t t1 "as_bytes k" "(k, v)"] assms(1) t1(1,3) ap(3) new
    by (simp add: map_state_def)
  then have n: "num_entries m1 = Suc (length (entries t))" "map_root m1 = Some (root_ptr t1)"
    using t1(3) by (simp_all add: map_state_def)
  have "dealloc_leaf hp1 (Ptr LeafKind a) = Ret (\<lparr>leaf_key = k, leaf_value = v\<rparr>, dealloc hp1 a)"
    using value_at_read(1) [OF ap(2)] t1(2) by (simp add: dealloc_leaf_def)
  then show ?thesis
    using ap(1) n assms(4,5) t1(2)
    by (simp add: entry_insert_entry_def vacant_insert_entry_def occupied_remove_entry_def apply_delete_point_def
        delete_apply_def len_map_def get_def get_key_value_def)
qed

theorem vacant_entry_remove_loses_tree_witness:
  "\<exists>ve m' hp'. try_entry sample_heap sample_map (Key [1, 4, 4] ()) = Ret (Inr (Vacant ve))
    \<and> and_then (vacant_insert_entry 2 sample_heap sample_map ve 44)
        (\<lambda>(oe, m, hp). occupied_remove_entry hp m oe) = Ret ((Key [1, 4, 4] (), 44), m', hp')
    \<and> len_map m' = 2 \<and> get hp' m' [1, 2] = Ret None"
proof -
  let ?ip = "\<lparr>ip_grandparent_ptr_and_parent_key_byte = None, ip_parent_ptr_and_child_key_byte = None,
    insert_type = IntoExisting (Ptr Node4 2), key_bytes_used = 1, ip_root = Ptr Node4 2\<rparr>"
  have "search_for_insert_point sample_heap (Ptr Node4 2) [1, 4, 4] = Ret (Inr ?ip)" by code_simp
  then have 1: "try_entry sample_heap sample_map (Key [1, 4, 4] ())
      = Ret (Inr (Vacant \<lparr>ve_key = Key [1, 4, 4] (), ve_insert_point = Some ?ip\<rparr>))"
    by (simp add: try_entry_def sample_map_def)
  show ?thesis
    using vacant_entry_remove_loses_tree [OF sample_state _ 1, of 44 "[1, 2]"] 1
    by (fastforce simp: entry_insert_entry_def sample_entries)
qed

end
