(* ===== verification/Entry_Ref.thy ===== *)
theory Entry_Ref
  imports Entry
begin

text \<open>
  The entry interface for borrowed keys (\<open>src/src/collections/map/entry_ref.rs\<close> and the functions
  \<open>try_entry_ref\<close>, \<open>entry_ref\<close> of \<open>src/src/collections/map.rs\<close>).  The struct of an occupied entry
  has the fields of the one in theory \<open>Entry\<close>.  \<open>into\<close> is the conversion of a borrowed key to the
  key type (\<open>From<&Q>\<close>), \<open>q_bytes\<close> is \<open>AsBytes\<close> of the borrowed key; what the code relies on is that
  both keys have the same bytes.  \<open>own\<close> is the entry with the borrowed key replaced by the key
  made from it: the lemmas say that every operation is that of theory \<open>Entry\<close> on it.
\<close>

section \<open>Entries by a borrowed key\<close>

definition try_entry_ref ::
    "('q \<Rightarrow> bytes) \<Rightarrow> ('k, 'v) heap \<Rightarrow> treemap \<Rightarrow> 'q \<Rightarrow> (insert_prefix_error + 'q entry) outcome" where
  "try_entry_ref q_bytes hp m key =
     (case map_root m of
        Some root \<Rightarrow>
          and_then (search_for_insert_point hp root (q_bytes key)) (\<lambda>r.
          case r of Inl e \<Rightarrow> Ret (Inl e)
          | Inr point \<Rightarrow>
              (case insert_type point of
                 Exact leaf_node_ptr \<Rightarrow> Ret (Inr (Occupied \<lparr>oe_leaf_node_ptr = leaf_node_ptr,
                   oe_grandparent_ptr_and_parent_key_byte = ip_grandparent_ptr_and_parent_key_byte point,
                   oe_parent_ptr_and_child_key_byte = ip_parent_ptr_and_child_key_byte point\<rparr>))
               | _ \<Rightarrow> Ret (Inr (Vacant \<lparr>ve_key = key, ve_insert_point = Some point\<rparr>))))
      | None \<Rightarrow> Ret (Inr (Vacant \<lparr>ve_key = key, ve_insert_point = None\<rparr>)))"

definition map_entry_ref :: "('q \<Rightarrow> bytes) \<Rightarrow> ('k, 'v) heap \<Rightarrow> treemap \<Rightarrow> 'q \<Rightarrow> 'q entry outcome" where
  "map_entry_ref q_bytes hp m key =
     and_then (try_entry_ref q_bytes hp m key) (\<lambda>r. case r of Inl _ \<Rightarrow> UB | Inr e \<Rightarrow> Ret e)"

subsection \<open>Occupied entries\<close>

definition occupied_ref_get :: "('k, 'v) heap \<Rightarrow> occupied_entry \<Rightarrow> 'v outcome" where
  "occupied_ref_get hp e =
     and_then (read_leaf hp (oe_leaf_node_ptr e)) (\<lambda>l. Ret (as_value_ref (oe_leaf_node_ptr e) l))"

definition occupied_ref_get_mut :: "('k, 'v) heap \<Rightarrow> occupied_entry \<Rightarrow> node_ptr outcome" where
  "occupied_ref_get_mut hp e =
     and_then (read_leaf hp (oe_leaf_node_ptr e)) (\<lambda>l. Ret (as_value_mut (oe_leaf_node_ptr e) l))"

definition occupied_ref_insert ::
    "('k, 'v) heap \<Rightarrow> occupied_entry \<Rightarrow> 'v \<Rightarrow> ('v \<times> ('k, 'v) heap) outcome" where
  "occupied_ref_insert hp e v =
     and_then (read_leaf hp (oe_leaf_node_ptr e)) (\<lambda>l.
     let leaf_value_ptr = as_value_mut (oe_leaf_node_ptr e) l in
     and_then (write_value hp leaf_value_ptr v) (\<lambda>hp.
     Ret (leaf_value l, hp)))"

definition occupied_ref_into_mut :: "('k, 'v) heap \<Rightarrow> occupied_entry \<Rightarrow> node_ptr outcome" where
  "occupied_ref_into_mut hp e =
     and_then (read_leaf hp (oe_leaf_node_ptr e)) (\<lambda>l. Ret (as_value_mut (oe_leaf_node_ptr e) l))"

definition occupied_ref_key :: "('k, 'v) heap \<Rightarrow> occupied_entry \<Rightarrow> 'k key outcome" where
  "occupied_ref_key hp e =
     and_then (read_leaf hp (oe_leaf_node_ptr e)) (\<lambda>l. Ret (as_key_ref (oe_leaf_node_ptr e) l))"

definition occupied_ref_remove_entry ::
    "('k, 'v) heap \<Rightarrow> treemap \<Rightarrow> occupied_entry \<Rightarrow> (('k key \<times> 'v) \<times> treemap \<times> ('k, 'v) heap) outcome" where
  "occupied_ref_remove_entry hp m e =
     (let delete_point =
        \<lparr>dp_grandparent_ptr_and_parent_key_byte = oe_grandparent_ptr_and_parent_key_byte e,
         dp_parent_ptr_and_child_key_byte = oe_parent_ptr_and_child_key_byte e,
         dp_leaf_node_ptr = oe_leaf_node_ptr e\<rparr> in
      and_then (apply_delete_point hp m delete_point) (\<lambda>(delete_result, m, hp).
      Ret ((leaf_key (deleted_leaf delete_result), leaf_value (deleted_leaf delete_result)), m, hp)))"

definition occupied_ref_remove ::
    "('k, 'v) heap \<Rightarrow> treemap \<Rightarrow> occupied_entry \<Rightarrow> ('k key \<times> treemap \<times> ('k, 'v) heap) outcome" where
  \<comment> \<open>here too the component returned is the key\<close>
  "occupied_ref_remove hp m e = and_then (occupied_ref_remove_entry hp m e) (\<lambda>(kv, m, hp). Ret (fst kv, m, hp))"

subsection \<open>Vacant entries\<close>

definition vacant_ref_insert_entry ::
    "('q \<Rightarrow> 'k key) \<Rightarrow> nat \<Rightarrow> ('k, 'v) heap \<Rightarrow> treemap \<Rightarrow> 'q vacant_entry \<Rightarrow> 'v
      \<Rightarrow> (occupied_entry \<times> treemap \<times> ('k, 'v) heap) outcome" where
  "vacant_ref_insert_entry into PREFIX_LEN hp m e v =
     (case ve_insert_point e of
        Some insert_point \<Rightarrow>
          and_then (apply_insert_point PREFIX_LEN hp m insert_point (into (ve_key e)) v) (\<lambda>(insert_result, m, hp).
          Ret (\<lparr>oe_leaf_node_ptr = ir_leaf_node_ptr insert_result,
            oe_grandparent_ptr_and_parent_key_byte = ip_grandparent_ptr_and_parent_key_byte insert_point,
            oe_parent_ptr_and_child_key_byte = ip_parent_ptr_and_child_key_byte insert_point\<rparr>, m, hp))
      | None \<Rightarrow>
          (case init_tree hp m (into (ve_key e)) v of (leaf_node_ptr, m, hp) \<Rightarrow>
           Ret (\<lparr>oe_leaf_node_ptr = leaf_node_ptr, oe_grandparent_ptr_and_parent_key_byte = None,
             oe_parent_ptr_and_child_key_byte = None\<rparr>, m, hp)))"

definition vacant_ref_insert ::
    "('q \<Rightarrow> 'k key) \<Rightarrow> nat \<Rightarrow> ('k, 'v) heap \<Rightarrow> treemap \<Rightarrow> 'q vacant_entry \<Rightarrow> 'v
      \<Rightarrow> (node_ptr \<times> treemap \<times> ('k, 'v) heap) outcome" where
  "vacant_ref_insert into PREFIX_LEN hp m e v =
     and_then (vacant_ref_insert_entry into PREFIX_LEN hp m e v) (\<lambda>(oe, m, hp).
     and_then (occupied_ref_into_mut hp oe) (\<lambda>p. Ret (p, m, hp)))"

definition vacant_ref_into_key :: "('q \<Rightarrow> 'k key) \<Rightarrow> 'q vacant_entry \<Rightarrow> 'k key" where
  "vacant_ref_into_key into e = into (ve_key e)"

definition vacant_ref_key :: "'q vacant_entry \<Rightarrow> 'q" where
  "vacant_ref_key e = ve_key e"

subsection \<open>Both\<close>

definition entry_ref_and_modify ::
    "('k, 'v) heap \<Rightarrow> 'q entry \<Rightarrow> ('v \<Rightarrow> 'v) \<Rightarrow> ('q entry \<times> ('k, 'v) heap) outcome" where
  "entry_ref_and_modify hp e f =
     (case e of
        Occupied oe \<Rightarrow>
          and_then (read_leaf hp (oe_leaf_node_ptr oe)) (\<lambda>l.
          and_then (write_value hp (as_value_mut (oe_leaf_node_ptr oe) l) (f (leaf_value l))) (\<lambda>hp.
          Ret (Occupied oe, hp)))
      | Vacant ve \<Rightarrow> Ret (Vacant ve, hp))"

definition entry_ref_insert_entry ::
    "('q \<Rightarrow> 'k key) \<Rightarrow> nat \<Rightarrow> ('k, 'v) heap \<Rightarrow> treemap \<Rightarrow> 'q entry \<Rightarrow> 'v
      \<Rightarrow> (occupied_entry \<times> treemap \<times> ('k, 'v) heap) outcome" where
  "entry_ref_insert_entry into PREFIX_LEN hp m e v =
     (case e of
        Occupied oe \<Rightarrow> and_then (occupied_ref_insert hp oe v) (\<lambda>(_, hp). Ret (oe, m, hp))
      | Vacant ve \<Rightarrow> vacant_ref_insert_entry into PREFIX_LEN hp m ve v)"

definition entry_ref_key :: "('k key \<Rightarrow> 'q) \<Rightarrow> ('k, 'v) heap \<Rightarrow> 'q entry \<Rightarrow> 'q outcome" where
  \<comment> \<open>\<open>borrow\<close> is \<open>Borrow::borrow\<close> of the key type\<close>
  "entry_ref_key borrow hp e =
     (case e of Occupied oe \<Rightarrow> and_then (occupied_ref_key hp oe) (\<lambda>k. Ret (borrow k)) | Vacant ve \<Rightarrow> Ret (vacant_ref_key ve))"

definition ref_or_default ::
    "('q \<Rightarrow> 'k key) \<Rightarrow> 'v \<Rightarrow> nat \<Rightarrow> ('k, 'v) heap \<Rightarrow> treemap \<Rightarrow> 'q entry \<Rightarrow> (node_ptr \<times> treemap \<times> ('k, 'v) heap) outcome" where
  "ref_or_default into v_default PREFIX_LEN hp m e =
     (case e of
        Occupied oe \<Rightarrow> and_then (occupied_ref_into_mut hp oe) (\<lambda>p. Ret (p, m, hp))
      | Vacant ve \<Rightarrow> vacant_ref_insert into PREFIX_LEN hp m ve v_default)"

definition ref_or_insert ::
    "('q \<Rightarrow> 'k key) \<Rightarrow> nat \<Rightarrow> ('k, 'v) heap \<Rightarrow> treemap \<Rightarrow> 'q entry \<Rightarrow> 'v \<Rightarrow> (node_ptr \<times> treemap \<times> ('k, 'v) heap) outcome" where
  "ref_or_insert into PREFIX_LEN hp m e v =
     (case e of
        Occupied oe \<Rightarrow> and_then (occupied_ref_into_mut hp oe) (\<lambda>p. Ret (p, m, hp))
      | Vacant ve \<Rightarrow> vacant_ref_insert into PREFIX_LEN hp m ve v)"

definition ref_or_insert_with_key ::
    "('q \<Rightarrow> 'k key) \<Rightarrow> nat \<Rightarrow> ('k, 'v) heap \<Rightarrow> treemap \<Rightarrow> 'q entry \<Rightarrow> ('q \<Rightarrow> 'v)
      \<Rightarrow> (node_ptr \<times> treemap \<times> ('k, 'v) heap) outcome" where
  "ref_or_insert_with_key into PREFIX_LEN hp m e f =
     (case e of
        Occupied oe \<Rightarrow> and_then (occupied_ref_into_mut hp oe) (\<lambda>p. Ret (p, m, hp))
      | Vacant ve \<Rightarrow> let v = f (vacant_ref_key ve) in vacant_ref_insert into PREFIX_LEN hp m ve v)"

definition ref_or_insert_entry ::
    "('q \<Rightarrow> 'k key) \<Rightarrow> nat \<Rightarrow> ('k, 'v) heap \<Rightarrow> treemap \<Rightarrow> 'q entry \<Rightarrow> 'v
      \<Rightarrow> (occupied_entry \<times> treemap \<times> ('k, 'v) heap) outcome" where
  "ref_or_insert_entry into PREFIX_LEN hp m e v =
     (case e of Occupied oe \<Rightarrow> Ret (oe, m, hp) | Vacant ve \<Rightarrow> vacant_ref_insert_entry into PREFIX_LEN hp m ve v)"

definition ref_or_insert_with_key_entry ::
    "('q \<Rightarrow> 'k key) \<Rightarrow> nat \<Rightarrow> ('k, 'v) heap \<Rightarrow> treemap \<Rightarrow> 'q entry \<Rightarrow> ('q \<Rightarrow> 'v)
      \<Rightarrow> (occupied_entry \<times> treemap \<times> ('k, 'v) heap) outcome" where
  "ref_or_insert_with_key_entry into PREFIX_LEN hp m e f =
     (case e of Occupied oe \<Rightarrow> Ret (oe, m, hp)
      | Vacant ve \<Rightarrow> let v = f (vacant_ref_key ve) in vacant_ref_insert_entry into PREFIX_LEN hp m ve v)"

definition ref_or_insert_with ::
    "('q \<Rightarrow> 'k key) \<Rightarrow> nat \<Rightarrow> ('k, 'v) heap \<Rightarrow> treemap \<Rightarrow> 'q entry \<Rightarrow> (unit \<Rightarrow> 'v)
      \<Rightarrow> (node_ptr \<times> treemap \<times> ('k, 'v) heap) outcome" where
  "ref_or_insert_with into PREFIX_LEN hp m e f =
     (case e of
        Occupied oe \<Rightarrow> and_then (occupied_ref_into_mut hp oe) (\<lambda>p. Ret (p, m, hp))
      | Vacant ve \<Rightarrow> vacant_ref_insert into PREFIX_LEN hp m ve (f ()))"

definition ref_or_default_entry ::
    "('q \<Rightarrow> 'k key) \<Rightarrow> 'v \<Rightarrow> nat \<Rightarrow> ('k, 'v) heap \<Rightarrow> treemap \<Rightarrow> 'q entry \<Rightarrow> (occupied_entry \<times> treemap \<times> ('k, 'v) heap) outcome" where
  "ref_or_default_entry into v_default PREFIX_LEN hp m e =
     (case e of Occupied oe \<Rightarrow> Ret (oe, m, hp) | Vacant ve \<Rightarrow> vacant_ref_insert_entry into PREFIX_LEN hp m ve v_default)"

definition ref_or_insert_with_entry ::
    "('q \<Rightarrow> 'k key) \<Rightarrow> nat \<Rightarrow> ('k, 'v) heap \<Rightarrow> treemap \<Rightarrow> 'q entry \<Rightarrow> (unit \<Rightarrow> 'v)
      \<Rightarrow> (occupied_entry \<times> treemap \<times> ('k, 'v) heap) outcome" where
  "ref_or_insert_with_entry into PREFIX_LEN hp m e f =
     (case e of Occupied oe \<Rightarrow> Ret (oe, m, hp) | Vacant ve \<Rightarrow> vacant_ref_insert_entry into PREFIX_LEN hp m ve (f ()))"

section \<open>They are the entries by the owned key\<close>

lemma occupied_ref_eq:
  "occupied_ref_get = occupied_get" "occupied_ref_get_mut = occupied_get_mut" "occupied_ref_insert = occupied_insert"
  "occupied_ref_into_mut = occupied_into_mut" "occupied_ref_key = occupied_key"
  "occupied_ref_remove_entry = occupied_remove_entry" "occupied_ref_remove = occupied_remove" "vacant_ref_key = vacant_key"
  by (simp_all add: fun_eq_iff occupied_ref_get_def occupied_get_def occupied_ref_get_mut_def occupied_get_mut_def
      occupied_ref_insert_def occupied_insert_def occupied_ref_into_mut_def occupied_into_mut_def occupied_ref_key_def
      occupied_key_def occupied_ref_remove_entry_def occupied_remove_entry_def occupied_ref_remove_def occupied_remove_def
      vacant_ref_key_def vacant_key_def Let_def)

definition own_vacant :: "('q \<Rightarrow> 'k key) \<Rightarrow> 'q vacant_entry \<Rightarrow> 'k key vacant_entry" where
  "own_vacant into ve = \<lparr>ve_key = into (ve_key ve), ve_insert_point = ve_insert_point ve\<rparr>"

definition own :: "('q \<Rightarrow> 'k key) \<Rightarrow> 'q entry \<Rightarrow> 'k key entry" where
  "own into e = (case e of Occupied oe \<Rightarrow> Occupied oe | Vacant ve \<Rightarrow> Vacant (own_vacant into ve))"

lemma own_simps [simp]:
  "own into (Occupied oe) = Occupied oe" "own into (Vacant ve) = Vacant (own_vacant into ve)"
  by (simp_all add: own_def)

lemma vacant_ref_own:
  "vacant_ref_insert_entry into N hp m ve v = vacant_insert_entry N hp m (own_vacant into ve) v"
  "vacant_ref_insert into N hp m ve v = vacant_insert N hp m (own_vacant into ve) v"
  "vacant_ref_into_key into ve = vacant_into_key (own_vacant into ve)"
  unfolding vacant_ref_insert_entry_def vacant_insert_entry_def vacant_ref_insert_def vacant_insert_def
    own_vacant_def vacant_ref_into_key_def vacant_into_key_def vacant_entry.select_convs occupied_ref_eq
  by (rule refl)+

lemma try_entry_own:
  assumes "as_bytes (into q) = q_bytes q"
  shows "try_entry hp m (into q) = and_then (try_entry_ref q_bytes hp m q) (\<lambda>r. Ret (map_sum id (own into) r))"
proof (cases "map_root m")
  case (Some root)
  show ?thesis
    by (cases "search_for_insert_point hp root (q_bytes q)")
      (auto simp: try_entry_def try_entry_ref_def Some assms own_vacant_def
        split: sum.split insert_search_result_type.split)
qed (simp add: try_entry_def try_entry_ref_def own_vacant_def)

lemma entry_ref_and_modify_own:
  "and_then (entry_ref_and_modify hp e g) (\<lambda>(e, hp). Ret (own into e, hp)) = entry_and_modify hp (own into e) g"
  by (cases e) (simp_all add: entry_ref_and_modify_def entry_and_modify_def and_then_assoc)

lemma ref_or_insert_own:
  "ref_or_insert into N hp m e v = or_insert N hp m (own into e) v"
  "ref_or_default into v N hp m e = or_default v N hp m (own into e)"
  "ref_or_insert_with into N hp m e h = or_insert_with N hp m (own into e) h"
  "ref_or_insert_with_key into N hp m e (f \<circ> into) = or_insert_with_key N hp m (own into e) f"
  "entry_ref_insert_entry into N hp m e v = entry_insert_entry N hp m (own into e) v"
proof -
  have "vacant_key (own_vacant into ve) = into (vacant_key ve)" for ve
    by (simp add: vacant_key_def own_vacant_def)
  then show "ref_or_insert into N hp m e v = or_insert N hp m (own into e) v"
    "ref_or_default into v N hp m e = or_default v N hp m (own into e)"
    "ref_or_insert_with into N hp m e h = or_insert_with N hp m (own into e) h"
    "ref_or_insert_with_key into N hp m e (f \<circ> into) = or_insert_with_key N hp m (own into e) f"
    "entry_ref_insert_entry into N hp m e v = entry_insert_entry N hp m (own into e) v"
    by (cases e; simp add: ref_or_insert_def or_insert_def ref_or_default_def or_default_def ref_or_insert_with_def
        or_insert_with_def ref_or_insert_with_key_def or_insert_with_key_def entry_ref_insert_entry_def
        entry_insert_entry_def vacant_ref_own occupied_ref_eq)+
qed

section \<open>Property\<close>

text \<open>
  C30. The entries by a borrowed key behave as those by the owned key: they are found at the
  same place, and every insertion through them is that of the key made from the borrowed one.
\<close>

theorem map_entry_ref_refines:
  assumes "as_bytes (into q) = q_bytes q"
  shows "try_entry hp m (into q) = and_then (try_entry_ref q_bytes hp m q) (\<lambda>r. Ret (map_sum id (own into) r))
    \<and> map_entry hp m (into q) = and_then (map_entry_ref q_bytes hp m q) (\<lambda>e. Ret (own into e))
    \<and> and_then (entry_ref_and_modify hp e g) (\<lambda>(e, hp). Ret (own into e, hp)) = entry_and_modify hp (own into e) g
    \<and> occupied_ref_remove_entry hp m oe = occupied_remove_entry hp m oe
    \<and> entry_ref_insert_entry into N hp m e v = entry_insert_entry N hp m (own into e) v
    \<and> ref_or_insert into N hp m e v = or_insert N hp m (own into e) v
    \<and> ref_or_default into v N hp m e = or_default v N hp m (own into e)
    \<and> ref_or_insert_with into N hp m e h = or_insert_with N hp m (own into e) h
    \<and> ref_or_insert_with_key into N hp m e (f \<circ> into) = or_insert_with_key N hp m (own into e) f
    \<and> ref_or_insert_entry into N hp m e v = or_insert_entry N hp m (own into e) v
    \<and> ref_or_default_entry into v N hp m e = or_default_entry v N hp m (own into e)
    \<and> ref_or_insert_with_entry into N hp m e h = or_insert_with_entry N hp m (own into e) h
    \<and> ref_or_insert_with_key_entry into N hp m e (f \<circ> into) = or_insert_with_key_entry N hp m (own into e) f"
proof -
  note own = try_entry_own [where into = into and q = q and q_bytes = q_bytes, OF assms]
  have "map_entry hp m (into q) = and_then (map_entry_ref q_bytes hp m q) (\<lambda>e. Ret (own into e))"
    by (cases "try_entry_ref q_bytes hp m q") (auto simp: map_entry_def map_entry_ref_def own split: sum.split)
  moreover have "vacant_key (own_vacant into ve) = into (vacant_key ve)" for ve
    by (simp add: vacant_key_def own_vacant_def)
  ultimately show ?thesis
    using own entry_ref_and_modify_own [of hp e g into]
    by (cases e) (simp_all add: ref_or_insert_own ref_or_insert_entry_def or_insert_entry_def ref_or_insert_with_key_entry_def
        or_insert_with_key_entry_def ref_or_default_entry_def or_default_entry_def
        ref_or_insert_with_entry_def or_insert_with_entry_def vacant_ref_own occupied_ref_eq)
qed

theorem map_entry_ref_refines_witness:
  "try_entry sample_heap sample_map (Key [1, 3] ())
    = and_then (try_entry_ref id sample_heap sample_map [1, 3]) (\<lambda>r. Ret (map_sum id (own (\<lambda>q. Key q ())) r))"
  using map_entry_ref_refines [of "\<lambda>q. Key q ()" "[1, 3]" id sample_heap sample_map] by simp

end
