(* ===== verification/Byte_Mapping.thy ===== *)
theory Byte_Mapping
  imports Tree_Map
begin

text \<open>
  Byte mappings (\<open>src/src/bytes/mapped.rs\<close>): the reversible mappings of integers, addresses,
  arrays, vectors and tuples to byte strings whose lexicographic order is the order of the
  values.

  An integer type of Rust is a word; a signed one is a word whose value is \<open>sint\<close>, as
  \<open>bytemuck::cast\<close> between the two keeps the bits.  The const generic \<open>size_of\<close> is the number of
  bytes of the word.
\<close>

section \<open>Integers\<close>

fun be_bytes :: "nat \<Rightarrow> nat \<Rightarrow> bytes" where
  "be_bytes 0 x = []"
| "be_bytes (Suc n) x = of_nat (x div 256 ^ n) # be_bytes n x"

fun be_value :: "bytes \<Rightarrow> nat" where
  "be_value [] = 0"
| "be_value (b # bs) = unat b * 256 ^ length bs + be_value bs"

definition to_be_bytes :: "'w::len word \<Rightarrow> bytes" where
  "to_be_bytes x = be_bytes (LENGTH('w) div 8) (unat x)"

definition from_be_bytes :: "bytes \<Rightarrow> 'w::len word" where
  "from_be_bytes bs = of_nat (be_value bs)"

definition ube_to_bytes :: "'w::len word \<Rightarrow> bytes" where
  "ube_to_bytes x = to_be_bytes x"

definition ube_from_bytes :: "bytes \<Rightarrow> 'w::len word outcome" where
  "ube_from_bytes bs = Ret (from_be_bytes bs)"

definition ibe_to_bytes :: "'w::len word \<Rightarrow> bytes" where
  "ibe_to_bytes x = to_be_bytes (x XOR push_bit (LENGTH('w) - 1) 1)"

definition ibe_from_bytes :: "bytes \<Rightarrow> 'w::len word outcome" where
  "ibe_from_bytes bs = Ret (from_be_bytes bs XOR push_bit (LENGTH('w) - 1) 1)"

definition nonzero_ube_to_bytes :: "'w::len word \<Rightarrow> bytes" where
  "nonzero_ube_to_bytes x = to_be_bytes x"

definition nonzero_ube_from_bytes :: "bytes \<Rightarrow> 'w::len word outcome" where
  "nonzero_ube_from_bytes bs = (let x = from_be_bytes bs in if x = 0 then Panic else Ret x)"

definition nonzero_ibe_to_bytes :: "'w::len word \<Rightarrow> bytes" where
  "nonzero_ibe_to_bytes x = to_be_bytes (x XOR push_bit (LENGTH('w) - 1) 1)"

definition nonzero_ibe_from_bytes :: "bytes \<Rightarrow> 'w::len word outcome" where
  "nonzero_ibe_from_bytes bs =
     (let signed = from_be_bytes bs XOR push_bit (LENGTH('w) - 1) 1 in
      if signed = 0 then Panic else Ret signed)"

section \<open>Addresses, arrays, vectors, tuples\<close>

text \<open>An address of the standard library is its list of octets.\<close>

definition octets_to_bytes :: "bytes \<Rightarrow> bytes" where
  "octets_to_bytes a = a"

definition octets_from_bytes :: "bytes \<Rightarrow> bytes outcome" where
  "octets_from_bytes bs = Ret bs"

definition identity_to_bytes :: "bytes \<Rightarrow> bytes" where
  "identity_to_bytes a = a"

definition identity_from_bytes :: "bytes \<Rightarrow> bytes outcome" where
  "identity_from_bytes bs = Ret bs"

definition elements_to_bytes :: "('d \<Rightarrow> bytes) \<Rightarrow> 'd list \<Rightarrow> bytes" where
  \<comment> \<open>\<open>to_bytes\<close> of arrays, \<open>Vec\<close> and \<open>Box<[_]>\<close>\<close>
  "elements_to_bytes enc values = fold (\<lambda>v bs. bs @ enc v) values []"

fun elements_from_bytes :: "(bytes \<Rightarrow> 'd outcome) \<Rightarrow> nat \<Rightarrow> bytes \<Rightarrow> nat list \<Rightarrow> 'd list outcome" where
  "elements_from_bytes dec sz bs [] = Ret []"
| "elements_from_bytes dec sz bs (index # rest) =
     and_then (slice_range bs (index * sz) ((index + 1) * sz)) (\<lambda>value_bytes.
     and_then (assert_that (length value_bytes = sz)) (\<lambda>_.
     and_then (dec value_bytes) (\<lambda>v.
     and_then (elements_from_bytes dec sz bs rest) (\<lambda>vs. Ret (v # vs)))))"

definition array_from_bytes :: "(bytes \<Rightarrow> 'd outcome) \<Rightarrow> nat \<Rightarrow> nat \<Rightarrow> bytes \<Rightarrow> 'd list outcome" where
  "array_from_bytes dec sz N bs = elements_from_bytes dec sz bs [0..<N]"

definition vec_from_bytes :: "(bytes \<Rightarrow> 'd outcome) \<Rightarrow> nat \<Rightarrow> bytes \<Rightarrow> 'd list outcome" where
  "vec_from_bytes dec sz bs = (let num_elements = length bs div sz in elements_from_bytes dec sz bs [0..<num_elements])"

definition split_first_chunk :: "nat \<Rightarrow> 'a list \<Rightarrow> ('a list \<times> 'a list) option" where
  "split_first_chunk n xs = (if n \<le> length xs then Some (take n xs, drop n xs) else None)"

section \<open>The container \<open>Mapped\<close>\<close>

type_synonym mapped = bytes

definition mapped_new :: "('d \<Rightarrow> bytes) \<Rightarrow> 'd \<Rightarrow> mapped" where
  "mapped_new to_bytes value = to_bytes value"

definition mapped_with_repr :: "bytes \<Rightarrow> mapped" where
  "mapped_with_repr repr = repr"

definition mapped_get :: "(bytes \<Rightarrow> 'd outcome) \<Rightarrow> mapped \<Rightarrow> 'd outcome" where
  "mapped_get from_bytes m = from_bytes m"

definition mapped_as_bytes :: "mapped \<Rightarrow> bytes" where
  "mapped_as_bytes m = m"

definition mapped_eq :: "mapped \<Rightarrow> mapped \<Rightarrow> bool" where
  "mapped_eq a b \<longleftrightarrow> a = b"

definition mapped_less :: "mapped \<Rightarrow> mapped \<Rightarrow> bool" where
  \<comment> \<open>\<open>cmp\<close> is \<open>Less\<close>\<close>
  "mapped_less a b \<longleftrightarrow> a < b"

section \<open>Tuples\<close>

text \<open>
  The macro \<open>as_bytes_for_tuples\<close> unfolds the same code for tuples of two to twelve components.
  A component has a type \<open>D\<close>, a mapping \<open>M\<close> and the length of its bytes.  The types of the
  components of a tuple differ; here their values are those of one type \<open>'e\<close> that satisfy
  \<open>comp_valid\<close>, and a tuple is the list of its elements.
\<close>

record 'e tuple_component =
  comp_valid :: "'e \<Rightarrow> bool"
  comp_less :: "'e \<Rightarrow> 'e \<Rightarrow> bool"
  comp_to_bytes :: "'e \<Rightarrow> bytes"
  comp_from_bytes :: "bytes \<Rightarrow> 'e outcome"
  comp_len :: nat

definition tuple_to_bytes :: "'e tuple_component list \<Rightarrow> 'e list \<Rightarrow> bytes" where
  "tuple_to_bytes comps elems =
     fold (\<lambda>(c, elem) bytes. let mapped = mapped_new (comp_to_bytes c) elem in bytes @ mapped) (zip comps elems) []"

fun split_chunks :: "nat list \<Rightarrow> bytes \<Rightarrow> (bytes list \<times> bytes) outcome" where
  "split_chunks [] remaining = Ret ([], remaining)"
| "split_chunks (len # lens) remaining =
     and_then (unwrap (split_first_chunk len remaining)) (\<lambda>(chunk, remaining).
     and_then (split_chunks lens remaining) (\<lambda>(chunks, remaining). Ret (chunk # chunks, remaining)))"

fun get_chunks :: "'e tuple_component list \<Rightarrow> bytes list \<Rightarrow> 'e list outcome" where
  "get_chunks (c # comps) (chunk # chunks) =
     and_then (mapped_get (comp_from_bytes c) (mapped_with_repr chunk)) (\<lambda>elem.
     and_then (get_chunks comps chunks) (\<lambda>elems. Ret (elem # elems)))"
| "get_chunks comps chunks = Ret []"

definition tuple_from_bytes :: "'e tuple_component list \<Rightarrow> bytes \<Rightarrow> 'e list outcome" where
  "tuple_from_bytes comps bytes =
     and_then (split_chunks (map comp_len comps) bytes) (\<lambda>(chunks, remaining).
     and_then (assert_that (length remaining = 0)) (\<lambda>_.
     get_chunks comps chunks))"

definition tuple_capacity :: "'e tuple_component list \<Rightarrow> nat" where
  \<comment> \<open>the macro \<open>sum!\<close>\<close>
  "tuple_capacity comps = sum_list (map comp_len comps)"

section \<open>Big endian bytes\<close>

lemma be_bytes_length [simp]: "length (be_bytes n x) = n"
  by (induction n) simp_all

lemma be_value_less: "be_value bs < 256 ^ length bs"
proof (induction bs)
  case (Cons b bs)
  define m :: nat where "m = 256 ^ length bs"
  have "unat b < 256" using unsigned_less [of b] by simp
  then have "Suc (unat b) * m \<le> 256 * m" by (intro mult_le_mono1) (simp only: Suc_le_eq)
  then have "m + unat b * m \<le> 256 * m" by (simp only: mult_Suc)
  then have "unat b * m + be_value bs < 256 * m" using Cons.IH unfolding m_def [symmetric] by linarith
  then show ?case by (simp add: m_def)
qed simp

lemma be_value_be_bytes: "be_value (be_bytes n x) = x mod 256 ^ n"
proof (induction n)
  case (Suc n)
  have "unat (of_nat (x div 256 ^ n) :: byte) = x div 256 ^ n mod 256"
    by (simp add: unat_of_nat)
  then show ?case
    using Suc mod_mult2_eq [of x "256 ^ n" 256] by (simp add: mult.commute)
qed simp

lemma be_value_order: "length bs = length cs \<Longrightarrow> be_value bs < be_value cs \<longleftrightarrow> bs < cs"
proof (induction bs cs rule: list_induct2)
  case (Cons b bs c cs)
  let ?m = "256 ^ length bs :: nat"
  have lt: "be_value bs < ?m" "be_value cs < ?m" using be_value_less [of bs] be_value_less [of cs] Cons.hyps by simp_all
  have "unat b * ?m + be_value bs < unat c * ?m + be_value cs" if "b < c"
  proof -
    have "Suc (unat b) \<le> unat c" using that by (simp add: word_less_nat_alt)
    then have "Suc (unat b) * ?m \<le> unat c * ?m" by (rule mult_le_mono1)
    then show ?thesis using lt(1) by simp
  qed
  moreover have "unat c * ?m + be_value cs < unat b * ?m + be_value bs" if "c < b"
  proof -
    have "Suc (unat c) \<le> unat b" using that by (simp add: word_less_nat_alt)
    then have "Suc (unat c) * ?m \<le> unat b * ?m" by (rule mult_le_mono1)
    then show ?thesis using lt(2) by simp
  qed
  ultimately show ?case
    using Cons.IH by (cases b c rule: linorder_cases) (auto simp: Cons.hyps [symmetric])
qed simp

lemma to_be_bytes_length [simp]: "length (to_be_bytes (x :: 'w::len word)) = LENGTH('w) div 8"
  by (simp add: to_be_bytes_def)

lemma to_be_bytes_value:
  fixes x :: "'w::len word"
  assumes "8 dvd LENGTH('w)"
  shows "be_value (to_be_bytes x) = unat x"
proof -
  have "(256 :: nat) ^ (LENGTH('w) div 8) = 2 ^ (8 * (LENGTH('w) div 8))" by (simp add: power_mult)
  also have "8 * (LENGTH('w) div 8) = LENGTH('w)" using assms by simp
  finally show ?thesis using unsigned_less [of x] by (simp add: to_be_bytes_def be_value_be_bytes)
qed

lemma from_to_be_bytes:
  fixes x :: "'w::len word"
  shows "8 dvd LENGTH('w) \<Longrightarrow> from_be_bytes (to_be_bytes x) = x"
  by (simp add: from_be_bytes_def to_be_bytes_value)

lemma to_be_bytes_order:
  fixes x y :: "'w::len word"
  shows "8 dvd LENGTH('w) \<Longrightarrow> to_be_bytes x < to_be_bytes y \<longleftrightarrow> x < y"
  by (simp add: be_value_order [symmetric] to_be_bytes_value word_less_nat_alt)

text \<open>Flipping the top bit turns the signed order into the unsigned one.\<close>

lemma top_bit_twice: "2 ^ (LENGTH('w) - 1) + 2 ^ (LENGTH('w) - 1) = (0 :: 'w::len word)"
proof -
  have "2 ^ (LENGTH('w) - 1) + 2 ^ (LENGTH('w) - 1) = (2 ^ Suc (LENGTH('w) - 1) :: 'w word)"
    by (simp only: power_Suc mult_2)
  also have "Suc (LENGTH('w) - 1) = LENGTH('w)" by simp
  finally show ?thesis by simp
qed

lemma xor_top_bit: "x XOR 2 ^ (LENGTH('w) - 1) = x + 2 ^ (LENGTH('w) - 1)" for x :: "'w::len word"
proof -
  define t :: "'w word" where "t = 2 ^ (LENGTH('w) - 1)"
  have bit: "bit t i \<longleftrightarrow> i = LENGTH('w) - 1" for i
    by (auto simp: t_def bit_simps)
  have add: "y XOR t = y + t" if "\<not> bit y (LENGTH('w) - 1)" for y
  proof -
    have "y AND t = 0" using that by (intro bit_eqI) (auto simp: bit_and_iff bit)
    then show ?thesis by (simp add: disjunctive_add_eq_xor)
  qed
  have "x XOR t = x + t"
  proof (cases "bit x (LENGTH('w) - 1)")
    case True
    define y where "y = x XOR t"
    have "\<not> bit y (LENGTH('w) - 1)" using True by (simp add: y_def bit_xor_iff bit)
    then have "y + t = y XOR t" by (simp add: add)
    also have "\<dots> = x" by (simp add: y_def xor.assoc)
    finally have "x + t = y + (t + t)" by (simp add: ac_simps)
    also have "t + t = 0" unfolding t_def by (rule top_bit_twice)
    finally show ?thesis by (simp add: y_def)
  qed (rule add)
  then show ?thesis by (simp add: t_def)
qed

lemma uint_flip: "uint (x XOR 2 ^ (LENGTH('w) - 1)) = sint x + 2 ^ (LENGTH('w) - 1)" for x :: "'w::len word"
proof -
  have t: "uint (2 ^ (LENGTH('w) - 1) :: 'w word) = 2 ^ (LENGTH('w) - 1)"
    by transfer (simp add: take_bit_eq_mod)
  have "sint x = take_bit LENGTH('w) (uint x + 2 ^ (LENGTH('w) - 1)) - 2 ^ (LENGTH('w) - 1)"
    using signed_take_bit_eq_take_bit_shift [of "LENGTH('w) - 1" "uint x"] by (simp add: sint_uint)
  then show ?thesis unfolding xor_top_bit uint_word_ariths take_bit_eq_mod t by simp
qed

section \<open>The contract of a mapping\<close>

text \<open>
  A mapping to byte strings of one length that can be reversed and keeps the order: what
  \<open>BytesMapping\<close>, \<open>NoPrefixesBytes\<close> and \<open>OrderedBytes\<close> promise together.  \<open>valid\<close> is the domain type.
\<close>

locale byte_mapping =
  fixes valid :: "'d \<Rightarrow> bool"
    and to_bytes :: "'d \<Rightarrow> bytes"
    and from_bytes :: "bytes \<Rightarrow> 'd outcome"
    and width :: nat
    and less_value :: "'d \<Rightarrow> 'd \<Rightarrow> bool"
  assumes width: "valid x \<Longrightarrow> length (to_bytes x) = width"
    and round_trip: "valid x \<Longrightarrow> from_bytes (to_bytes x) = Ret x"
    and order: "valid x \<Longrightarrow> valid y \<Longrightarrow> to_bytes x < to_bytes y \<longleftrightarrow> less_value x y"
begin

lemma to_bytes_inj: "valid x \<Longrightarrow> valid y \<Longrightarrow> to_bytes x = to_bytes y \<longleftrightarrow> x = y"
  by (metis outcome.inject round_trip)

lemma no_prefixes: "prefix_free (to_bytes ` {x. valid x})"
proof -
  have "a = b" if "Sublist.prefix a b" "length a = length b" for a b :: bytes
    using that by (auto simp: prefix_def)
  then show ?thesis by (fastforce simp: prefix_free_def conflicts_def width)
qed

end

fun list_less :: "('d \<Rightarrow> 'd \<Rightarrow> bool) \<Rightarrow> 'd list \<Rightarrow> 'd list \<Rightarrow> bool" where
  "list_less lt xs [] \<longleftrightarrow> False"
| "list_less lt [] (y # ys) \<longleftrightarrow> True"
| "list_less lt (x # xs) (y # ys) \<longleftrightarrow> lt x y \<or> x = y \<and> list_less lt xs ys"

lemma append_less_iff:
  fixes a b :: "'a :: linorder list"
  shows "length a = length b \<Longrightarrow> a @ s < b @ t \<longleftrightarrow> a < b \<or> a = b \<and> s < t"
  by (induction a b rule: list_induct2) auto

lemma elements_to_bytes_concat: "elements_to_bytes enc xs = concat (map enc xs)"
proof -
  have "fold (\<lambda>v bs. bs @ enc v) xs acc = acc @ concat (map enc xs)" for acc
    by (induction xs arbitrary: acc) simp_all
  then show ?thesis by (simp add: elements_to_bytes_def)
qed

text \<open>Mappings that can be the elements of arrays and vectors.\<close>

locale element_mapping = byte_mapping +
  assumes width_pos: "0 < width"
begin

abbreviation all_valid :: "'a list \<Rightarrow> bool" where
  "all_valid xs \<equiv> \<forall>x\<in>set xs. valid x"

lemma elements_length: "all_valid xs \<Longrightarrow> length (elements_to_bytes to_bytes xs) = length xs * width"
  unfolding elements_to_bytes_concat by (induction xs) (simp_all add: width)

lemma elements_from_spec:
  "all_valid (ys @ xs) \<Longrightarrow> n = length ys \<Longrightarrow>
    elements_from_bytes from_bytes width (elements_to_bytes to_bytes (ys @ xs)) [n..<n + length xs] = Ret xs"
proof (induction xs arbitrary: ys n)
  case (Cons x xs)
  have len: "length (concat (map to_bytes ys)) = n * width"
    using elements_length [of ys] Cons.prems by (simp add: elements_to_bytes_concat)
  have upt: "[n..<n + length (x # xs)] = n # [Suc n..<Suc n + length xs]"
    by (subst upt_conv_Cons) simp_all
  have slice: "slice_range (elements_to_bytes to_bytes (ys @ x # xs)) (n * width) ((n + 1) * width) = Ret (to_bytes x)"
    using width [of x] len Cons.prems(1) by (simp add: slice_range_def elements_to_bytes_concat)
  have "elements_from_bytes from_bytes width (elements_to_bytes to_bytes ((ys @ [x]) @ xs)) [Suc n..<Suc n + length xs] = Ret xs"
    using Cons.prems by (intro Cons.IH) auto
  then show ?case
    unfolding upt elements_from_bytes.simps slice
    using width [of x] round_trip [of x] Cons.prems(1) by simp
qed simp

lemma array_round_trip:
  "all_valid xs \<Longrightarrow> array_from_bytes from_bytes width (length xs) (elements_to_bytes to_bytes xs) = Ret xs"
  using elements_from_spec [of "[]" xs 0] by (simp add: array_from_bytes_def)

lemma vec_round_trip: "all_valid xs \<Longrightarrow> vec_from_bytes from_bytes width (elements_to_bytes to_bytes xs) = Ret xs"
  using elements_from_spec [of "[]" xs 0] elements_length [of xs] width_pos
  by (simp add: vec_from_bytes_def)

lemma elements_order:
  "all_valid xs \<Longrightarrow> all_valid ys \<Longrightarrow>
    elements_to_bytes to_bytes xs < elements_to_bytes to_bytes ys \<longleftrightarrow> list_less less_value xs ys"
  unfolding elements_to_bytes_concat
proof (induction xs ys rule: list_induct2')
  case (3 y ys)
  then show ?case using width [of y] width_pos by (cases "to_bytes y") auto
next
  case (4 x xs y ys)
  then show ?case by (simp add: append_less_iff width order to_bytes_inj)
qed simp_all

end

sublocale element_mapping \<subseteq> array: byte_mapping "\<lambda>xs. length xs = N \<and> all_valid xs" "elements_to_bytes to_bytes"
    "array_from_bytes from_bytes width N" "N * width" "list_less less_value" for N
  by unfold_locales (auto simp: elements_length array_round_trip elements_order)

text \<open>Mappings side by side.\<close>

definition lawful :: "'e tuple_component \<Rightarrow> bool" where
  "lawful c \<longleftrightarrow> byte_mapping (comp_valid c) (comp_to_bytes c) (comp_from_bytes c) (comp_len c) (comp_less c)"

fun tuple_less :: "'e tuple_component list \<Rightarrow> 'e list \<Rightarrow> 'e list \<Rightarrow> bool" where
  "tuple_less (c # comps) (x # xs) (y # ys) \<longleftrightarrow> comp_less c x y \<or> x = y \<and> tuple_less comps xs ys"
| "tuple_less comps xs ys \<longleftrightarrow> False"

abbreviation tuple_valid :: "'e tuple_component list \<Rightarrow> 'e list \<Rightarrow> bool" where
  "tuple_valid \<equiv> list_all2 comp_valid"

lemma tuple_to_bytes_simps [simp]:
  fixes comps :: "'e tuple_component list"
  shows "tuple_to_bytes [] (elems :: 'e list) = []"
  and "tuple_to_bytes (c # comps) (x # xs) = comp_to_bytes c x @ tuple_to_bytes comps xs"
proof -
  have "fold (\<lambda>(c, elem) bytes. bytes @ comp_to_bytes c elem) ps acc
      = acc @ concat (map (\<lambda>(c, x). comp_to_bytes c x) ps)" for ps :: "('e tuple_component \<times> 'e) list" and acc
    by (induction ps arbitrary: acc) auto
  then show "tuple_to_bytes [] (elems :: 'e list) = []"
    "tuple_to_bytes (c # comps) (x # xs) = comp_to_bytes c x @ tuple_to_bytes comps xs"
    by (simp_all add: tuple_to_bytes_def mapped_new_def)
qed

locale tuple_mappings =
  fixes comps :: "'e tuple_component list"
  assumes lawful_components: "c \<in> set comps \<Longrightarrow> lawful c"

context tuple_mappings
begin

lemma is_byte_mapping:
  "byte_mapping (tuple_valid comps) (tuple_to_bytes comps) (tuple_from_bytes comps) (tuple_capacity comps) (tuple_less comps)"
proof -
  have component: "byte_mapping (comp_valid c) (comp_to_bytes c) (comp_from_bytes c) (comp_len c) (comp_less c)"
    if "c \<in> set comps" for c using lawful_components [OF that] by (simp add: lawful_def)
  have read: "length (tuple_to_bytes cs xs) = tuple_capacity cs
      \<and> (\<exists>chunks. split_chunks (map comp_len cs) (tuple_to_bytes cs xs) = Ret (chunks, []) \<and> get_chunks cs chunks = Ret xs)"
    if "tuple_valid cs xs" "set cs \<subseteq> set comps" for cs xs
    using that
  proof (induction rule: list_all2_induct)
    case (Cons c cs x xs)
    then obtain chunks where chunks: "length (tuple_to_bytes cs xs) = tuple_capacity cs"
      "split_chunks (map comp_len cs) (tuple_to_bytes cs xs) = Ret (chunks, [])" "get_chunks cs chunks = Ret xs"
      by auto
    have c: "byte_mapping (comp_valid c) (comp_to_bytes c) (comp_from_bytes c) (comp_len c) (comp_less c)"
      using Cons.prems by (intro component) simp
    show ?case
      using chunks byte_mapping.width [OF c Cons.hyps(1)] byte_mapping.round_trip [OF c Cons.hyps(1)]
      by (intro conjI exI [of _ "comp_to_bytes c x # chunks"])
        (simp_all add: tuple_capacity_def split_first_chunk_def mapped_get_def mapped_with_repr_def)
  qed (simp add: tuple_capacity_def)
  have order: "tuple_to_bytes cs xs < tuple_to_bytes cs ys \<longleftrightarrow> tuple_less cs xs ys"
    if "tuple_valid cs xs" "tuple_valid cs ys" "set cs \<subseteq> set comps" for cs xs ys
    using that
  proof (induction arbitrary: ys rule: list_all2_induct)
    case (Cons c cs x xs)
    obtain y ys' where ys: "ys = y # ys'" "comp_valid c y" "tuple_valid cs ys'"
      using Cons.prems(1) by (auto simp: list_all2_Cons1)
    have c: "byte_mapping (comp_valid c) (comp_to_bytes c) (comp_from_bytes c) (comp_len c) (comp_less c)"
      using Cons.prems by (intro component) simp
    show ?case
      using Cons.IH [of ys'] Cons.prems(2) ys Cons.hyps(1)
      by (simp add: append_less_iff byte_mapping.width [OF c] byte_mapping.order [OF c] byte_mapping.to_bytes_inj [OF c])
  qed simp
  show "byte_mapping (tuple_valid comps) (tuple_to_bytes comps) (tuple_from_bytes comps) (tuple_capacity comps) (tuple_less comps)"
  proof unfold_locales
    show "tuple_from_bytes comps (tuple_to_bytes comps xs) = Ret xs" if "tuple_valid comps xs" for xs
      using read [OF that] by (auto simp: tuple_from_bytes_def)
  qed (simp_all add: read order)
qed

end

sublocale tuple_mappings \<subseteq> tuple: byte_mapping "tuple_valid comps" "tuple_to_bytes comps" "tuple_from_bytes comps"
    "tuple_capacity comps" "tuple_less comps"
  by (rule is_byte_mapping)

text \<open>
  A mapping of a type that is embedded in \<open>'e\<close> by \<open>into\<close>, with \<open>project\<close> as its inverse, as a component.
\<close>

definition component_of ::
    "('d \<Rightarrow> 'e) \<Rightarrow> ('e \<Rightarrow> 'd) \<Rightarrow> ('d \<Rightarrow> bool) \<Rightarrow> ('d \<Rightarrow> bytes) \<Rightarrow> (bytes \<Rightarrow> 'd outcome) \<Rightarrow> nat \<Rightarrow> ('d \<Rightarrow> 'd \<Rightarrow> bool)
     \<Rightarrow> 'e tuple_component" where
  "component_of into project valid to_bytes from_bytes width lt =
     \<lparr> comp_valid = (\<lambda>e. into (project e) = e \<and> valid (project e)), comp_less = (\<lambda>e e'. lt (project e) (project e')),
       comp_to_bytes = to_bytes \<circ> project, comp_from_bytes = map_outcome into \<circ> from_bytes, comp_len = width \<rparr>"

context byte_mapping
begin

lemma lawful_component: "lawful (component_of into project valid to_bytes from_bytes width less_value)"
  unfolding lawful_def component_of_def by unfold_locales (auto simp: width round_trip order)

end

lemma split_chunks_spec:
  "if length bs < sum_list lens then split_chunks lens bs = Panic
   else \<exists>chunks. split_chunks lens bs = Ret (chunks, drop (sum_list lens) bs)"
proof (induction lens arbitrary: bs)
  case (Cons len lens)
  show ?case
  proof (cases "len \<le> length bs")
    case True
    then show ?thesis using Cons.IH [of "drop len bs"] by (auto simp: split_first_chunk_def add.commute split: if_splits)
  qed (simp add: split_first_chunk_def)
qed simp

lemma tuple_from_bytes_length: "length bs \<noteq> tuple_capacity comps \<Longrightarrow> tuple_from_bytes comps bs = Panic"
  using split_chunks_spec [of bs "map comp_len comps"]
  by (auto simp: tuple_from_bytes_def tuple_capacity_def split: if_splits)

section \<open>The mappings of the source\<close>

lemma uint_le_iff: "sint x < sint y \<longleftrightarrow> x XOR 2 ^ (LENGTH('w) - 1) < y XOR 2 ^ (LENGTH('w) - 1)"
  for x y :: "'w::len word"
  unfolding word_less_def uint_flip by simp

lemma ube_mapping:
  assumes "8 dvd LENGTH('w)"
  shows "element_mapping (\<lambda>x. True) (ube_to_bytes :: 'w::len word \<Rightarrow> bytes) ube_from_bytes (LENGTH('w) div 8) (<)"
proof unfold_locales
  have "8 \<le> LENGTH('w)" using assms by (simp add: dvd_imp_le)
  then show "0 < LENGTH('w) div 8" by (simp add: div_greater_zero_iff)
qed (use assms in \<open>simp_all add: ube_to_bytes_def ube_from_bytes_def from_to_be_bytes to_be_bytes_order\<close>)

lemma ibe_mapping:
  assumes "8 dvd LENGTH('w)"
  shows "element_mapping (\<lambda>x. True) (ibe_to_bytes :: 'w::len word \<Rightarrow> bytes) ibe_from_bytes (LENGTH('w) div 8)
    (\<lambda>x y. sint x < sint y)"
proof unfold_locales
  have "8 \<le> LENGTH('w)" using assms by (simp add: dvd_imp_le)
  then show "0 < LENGTH('w) div 8" by (simp add: div_greater_zero_iff)
  show "(ibe_to_bytes x < ibe_to_bytes y) = (sint x < sint y)" for x y :: "'w word"
    unfolding uint_le_iff by (simp add: ibe_to_bytes_def to_be_bytes_order [OF assms])
qed (use assms in \<open>simp_all add: ibe_to_bytes_def ibe_from_bytes_def from_to_be_bytes xor.assoc\<close>)

lemma nonzero_ube_mapping:
  assumes "8 dvd LENGTH('w)"
  shows "element_mapping (\<lambda>x. x \<noteq> 0) (nonzero_ube_to_bytes :: 'w::len word \<Rightarrow> bytes) nonzero_ube_from_bytes
    (LENGTH('w) div 8) (<)"
proof unfold_locales
  have "8 \<le> LENGTH('w)" using assms by (simp add: dvd_imp_le)
  then show "0 < LENGTH('w) div 8" by (simp add: div_greater_zero_iff)
qed (use assms in \<open>simp_all add: nonzero_ube_to_bytes_def nonzero_ube_from_bytes_def from_to_be_bytes to_be_bytes_order\<close>)

lemma nonzero_ibe_mapping:
  assumes "8 dvd LENGTH('w)"
  shows "element_mapping (\<lambda>x. x \<noteq> 0) (nonzero_ibe_to_bytes :: 'w::len word \<Rightarrow> bytes) nonzero_ibe_from_bytes
    (LENGTH('w) div 8) (\<lambda>x y. sint x < sint y)"
proof unfold_locales
  have "8 \<le> LENGTH('w)" using assms by (simp add: dvd_imp_le)
  then show "0 < LENGTH('w) div 8" by (simp add: div_greater_zero_iff)
  show "(nonzero_ibe_to_bytes x < nonzero_ibe_to_bytes y) = (sint x < sint y)" for x y :: "'w word"
    unfolding uint_le_iff by (simp add: nonzero_ibe_to_bytes_def to_be_bytes_order [OF assms])
qed (use assms in \<open>simp_all add: nonzero_ibe_to_bytes_def nonzero_ibe_from_bytes_def from_to_be_bytes xor.assoc\<close>)

interpretation u8: element_mapping "\<lambda>x :: 8 word. True" ube_to_bytes ube_from_bytes "LENGTH(8) div 8" "(<)"
  by (rule ube_mapping) simp
interpretation u16: element_mapping "\<lambda>x :: 16 word. True" ube_to_bytes ube_from_bytes "LENGTH(16) div 8" "(<)"
  by (rule ube_mapping) simp
interpretation u32: element_mapping "\<lambda>x :: 32 word. True" ube_to_bytes ube_from_bytes "LENGTH(32) div 8" "(<)"
  by (rule ube_mapping) simp
interpretation u64: element_mapping "\<lambda>x :: 64 word. True" ube_to_bytes ube_from_bytes "LENGTH(64) div 8" "(<)"
  by (rule ube_mapping) simp
interpretation u128: element_mapping "\<lambda>x :: 128 word. True" ube_to_bytes ube_from_bytes "LENGTH(128) div 8" "(<)"
  by (rule ube_mapping) simp

interpretation i8: element_mapping "\<lambda>x :: 8 word. True" ibe_to_bytes ibe_from_bytes "LENGTH(8) div 8" "\<lambda>x y. sint x < sint y"
  by (rule ibe_mapping) simp
interpretation i16: element_mapping "\<lambda>x :: 16 word. True" ibe_to_bytes ibe_from_bytes "LENGTH(16) div 8" "\<lambda>x y. sint x < sint y"
  by (rule ibe_mapping) simp
interpretation i32: element_mapping "\<lambda>x :: 32 word. True" ibe_to_bytes ibe_from_bytes "LENGTH(32) div 8" "\<lambda>x y. sint x < sint y"
  by (rule ibe_mapping) simp
interpretation i64: element_mapping "\<lambda>x :: 64 word. True" ibe_to_bytes ibe_from_bytes "LENGTH(64) div 8" "\<lambda>x y. sint x < sint y"
  by (rule ibe_mapping) simp
interpretation i128: element_mapping "\<lambda>x :: 128 word. True" ibe_to_bytes ibe_from_bytes "LENGTH(128) div 8" "\<lambda>x y. sint x < sint y"
  by (rule ibe_mapping) simp

interpretation nonzero_u16: element_mapping "\<lambda>x :: 16 word. x \<noteq> 0" nonzero_ube_to_bytes nonzero_ube_from_bytes "LENGTH(16) div 8" "(<)"
  by (rule nonzero_ube_mapping) simp
interpretation nonzero_i16: element_mapping "\<lambda>x :: 16 word. x \<noteq> 0" nonzero_ibe_to_bytes nonzero_ibe_from_bytes "LENGTH(16) div 8"
    "\<lambda>x y. sint x < sint y"
  by (rule nonzero_ibe_mapping) simp

interpretation ipv4: byte_mapping "\<lambda>a. length a = 4" octets_to_bytes octets_from_bytes 4 "(<)"
  by unfold_locales (simp_all add: octets_to_bytes_def octets_from_bytes_def)
interpretation ipv6: byte_mapping "\<lambda>a. length a = 16" octets_to_bytes octets_from_bytes 16 "(<)"
  by unfold_locales (simp_all add: octets_to_bytes_def octets_from_bytes_def)
interpretation identity: byte_mapping "\<lambda>a. length a = N" identity_to_bytes identity_from_bytes N "(<)" for N
  by unfold_locales (simp_all add: identity_to_bytes_def identity_from_bytes_def)

text \<open>The pair of a non-zero integer and an address of the documentation of \<open>ConcatTuple\<close>.\<close>

definition nonzero_i16_ipv4 :: "(16 word + bytes) tuple_component list" where
  "nonzero_i16_ipv4 =
    [component_of Inl projl (\<lambda>x. x \<noteq> 0) nonzero_ibe_to_bytes nonzero_ibe_from_bytes (LENGTH(16) div 8) (\<lambda>x y. sint x < sint y),
     component_of Inr projr (\<lambda>a. length a = 4) octets_to_bytes octets_from_bytes 4 (<)]"

interpretation nonzero_i16_ipv4: tuple_mappings nonzero_i16_ipv4
  using nonzero_i16.lawful_component [of Inl projl] ipv4.lawful_component [of Inr projr]
  by unfold_locales (auto simp: nonzero_i16_ipv4_def)

section \<open>Properties\<close>

lemma to_from_be_bytes:
  assumes "8 dvd LENGTH('w)" "length bs = LENGTH('w) div 8"
  shows "to_be_bytes (from_be_bytes bs :: 'w::len word) = bs"
proof -
  have "(256 :: nat) ^ length bs = 2 ^ (8 * (LENGTH('w) div 8))" by (simp add: power_mult assms(2))
  also have "8 * (LENGTH('w) div 8) = LENGTH('w)" using assms(1) by simp
  finally have "unat (from_be_bytes bs :: 'w word) = be_value bs"
    using be_value_less [of bs] by (simp add: from_be_bytes_def unat_of_nat)
  then have "be_value (to_be_bytes (from_be_bytes bs :: 'w word)) = be_value bs"
    by (simp add: to_be_bytes_value [OF assms(1)])
  moreover have "length (to_be_bytes (from_be_bytes bs :: 'w word)) = length bs" by (simp add: assms(2))
  ultimately show ?thesis using be_value_order by (metis less_irrefl linorder_neqE)
qed

lemma be_bytes_numeral:
  "be_bytes (numeral n) x = of_nat (x div 256 ^ pred_numeral n) # be_bytes (pred_numeral n) x"
  by (simp add: numeral_eq_Suc)

lemmas encode_simps = ube_to_bytes_def ibe_to_bytes_def nonzero_ube_to_bytes_def nonzero_ibe_to_bytes_def
  octets_to_bytes_def tuple_to_bytes_def mapped_new_def to_be_bytes_def be_bytes_numeral

lemma integer_mapping_order:
  fixes x y :: "'w::len word"
  assumes "8 dvd LENGTH('w)"
  shows "(mapped_less (mapped_new ube_to_bytes x) (mapped_new ube_to_bytes y) \<longleftrightarrow> x < y)
    \<and> (mapped_less (mapped_new ibe_to_bytes x) (mapped_new ibe_to_bytes y) \<longleftrightarrow> sint x < sint y)
    \<and> (mapped_eq (mapped_new ube_to_bytes x) (mapped_new ube_to_bytes y) \<longleftrightarrow> x = y)
    \<and> (mapped_eq (mapped_new ibe_to_bytes x) (mapped_new ibe_to_bytes y) \<longleftrightarrow> x = y)"
proof -
  note u = ube_mapping [OF assms, THEN element_mapping.axioms(1)]
  note i = ibe_mapping [OF assms, THEN element_mapping.axioms(1)]
  show ?thesis
    using byte_mapping.order [OF u, of x y] byte_mapping.order [OF i, of x y]
      byte_mapping.to_bytes_inj [OF u, of x y] byte_mapping.to_bytes_inj [OF i, of x y]
    by (simp add: mapped_less_def mapped_eq_def mapped_new_def)
qed

text \<open>
  C19. The mappings of unsigned and signed integers of every width are bijections with the byte
  strings of the size of the type: reading back what was written gives the value, and writing
  what was read gives the bytes.  Comparing the bytes of two mapped integers is comparing the
  integers, as unsigned numbers for \<open>ToUBE\<close> and as signed numbers for \<open>ToIBE\<close> (the promise of
  \<open>OrderedBytes\<close>).
\<close>

theorem integer_round_trip:
  fixes x :: "'w::len word"
  assumes "8 dvd LENGTH('w)"
  shows "mapped_get ube_from_bytes (mapped_new ube_to_bytes x) = Ret x
    \<and> mapped_get ibe_from_bytes (mapped_new ibe_to_bytes x) = Ret x
    \<and> length (mapped_new ube_to_bytes x) = LENGTH('w) div 8
    \<and> length (mapped_new ibe_to_bytes x) = LENGTH('w) div 8
    \<and> (\<forall>bs. length bs = LENGTH('w) div 8 \<longrightarrow>
        (\<exists>y :: 'w word. ube_from_bytes bs = Ret y \<and> mapped_new ube_to_bytes y = bs)
      \<and> (\<exists>y :: 'w word. ibe_from_bytes bs = Ret y \<and> mapped_new ibe_to_bytes y = bs))
    \<and> (mapped_less (mapped_new ube_to_bytes x) (mapped_new ube_to_bytes y) \<longleftrightarrow> x < y)
    \<and> (mapped_less (mapped_new ibe_to_bytes x) (mapped_new ibe_to_bytes y) \<longleftrightarrow> sint x < sint y)
    \<and> (mapped_eq (mapped_new ube_to_bytes x) (mapped_new ube_to_bytes y) \<longleftrightarrow> x = y)
    \<and> (mapped_eq (mapped_new ibe_to_bytes x) (mapped_new ibe_to_bytes y) \<longleftrightarrow> x = y)"
  using assms integer_mapping_order [OF assms, of x y]
  by (auto simp: mapped_get_def mapped_new_def ube_to_bytes_def ube_from_bytes_def ibe_to_bytes_def ibe_from_bytes_def
      from_to_be_bytes to_from_be_bytes xor.assoc)

theorem integer_round_trip_witness:
  "mapped_get ibe_from_bytes (mapped_new ibe_to_bytes (-2 :: 32 word)) = Ret (-2 :: 32 word)
    \<and> mapped_new ibe_to_bytes (-2 :: 16 word) = [127, 254]
    \<and> mapped_less (mapped_new ibe_to_bytes (-1 :: 16 word)) (mapped_new ibe_to_bytes (1 :: 16 word))
    \<and> \<not> mapped_less (mapped_new ube_to_bytes (-1 :: 16 word)) (mapped_new ube_to_bytes (1 :: 16 word))"
proof -
  have "sint (-1 :: 16 word) < sint (1 :: 16 word)" "\<not> (-1 :: 16 word) < 1" by code_simp+
  moreover have "mapped_new ibe_to_bytes (-2 :: 16 word) = [127, 254]" by (simp add: encode_simps)
  ultimately show ?thesis
    using integer_round_trip [of "-2 :: 32 word"] integer_round_trip [of "-1 :: 16 word" 1] by simp
qed

text \<open>
  The mappings of the non-zero integers panic on exactly one byte string of the right length,
  the encoding of zero; every other one they read as a non-zero value with exactly that encoding.
\<close>

theorem nonzero_from_bytes:
  assumes "8 dvd LENGTH('w)" "length bs = LENGTH('w::len) div 8"
  shows "(if bs = ube_to_bytes (0 :: 'w word) then nonzero_ube_from_bytes bs = (Panic :: 'w word outcome)
      else \<exists>x :: 'w word. x \<noteq> 0 \<and> nonzero_ube_from_bytes bs = Ret x \<and> nonzero_ube_to_bytes x = bs)
    \<and> (if bs = ibe_to_bytes (0 :: 'w word) then nonzero_ibe_from_bytes bs = (Panic :: 'w word outcome)
      else \<exists>x :: 'w word. x \<noteq> 0 \<and> nonzero_ibe_from_bytes bs = Ret x \<and> nonzero_ibe_to_bytes x = bs)"
proof -
  obtain x :: "'w word" where x: "bs = to_be_bytes x" "from_be_bytes bs = x"
    using to_from_be_bytes [OF assms] by metis
  have inj: "to_be_bytes y = to_be_bytes z \<longleftrightarrow> y = z" for y z :: "'w word"
    using from_to_be_bytes [OF assms(1)] by metis
  have flip: "x XOR t = 0 \<longleftrightarrow> x = t" "(x XOR t) XOR t = x" for t :: "'w word"
    by (metis xor.assoc xor_self_eq xor.right_neutral xor.left_neutral)+
  show ?thesis
    by (auto simp: nonzero_ube_from_bytes_def nonzero_ibe_from_bytes_def nonzero_ube_to_bytes_def nonzero_ibe_to_bytes_def
        ube_to_bytes_def ibe_to_bytes_def Let_def x(1) from_to_be_bytes [OF assms(1)] inj flip)
qed

theorem nonzero_from_bytes_witness:
  "nonzero_ibe_from_bytes [128, 0] = (Panic :: 16 word outcome)"
proof -
  have "ibe_to_bytes (0 :: 16 word) = [128, 0]"
    by (simp add: encode_simps)
  then show ?thesis using nonzero_from_bytes [where 'w = 16, of "[128, 0]"] by simp
qed

text \<open>
  C20. Arrays and vectors of integers of every width, unsigned with \<open>ToUBE\<close> and signed with \<open>ToIBE\<close>
  (the types that the source has these mappings for), are the concatenation of their elements: they
  are read back element by element, and their bytes are ordered like the lists of values.
\<close>

theorem collection_mapping:
  fixes xs ys :: "'w::len word list"
  assumes "8 dvd LENGTH('w)"
  shows "vec_from_bytes ibe_from_bytes (LENGTH('w) div 8) (elements_to_bytes ibe_to_bytes xs) = Ret xs
    \<and> vec_from_bytes ube_from_bytes (LENGTH('w) div 8) (elements_to_bytes ube_to_bytes xs) = Ret xs
    \<and> array_from_bytes ibe_from_bytes (LENGTH('w) div 8) (length xs) (elements_to_bytes ibe_to_bytes xs) = Ret xs
    \<and> array_from_bytes ube_from_bytes (LENGTH('w) div 8) (length xs) (elements_to_bytes ube_to_bytes xs) = Ret xs
    \<and> (mapped_less (elements_to_bytes ibe_to_bytes xs) (elements_to_bytes ibe_to_bytes ys)
        \<longleftrightarrow> list_less (\<lambda>x y. sint x < sint y) xs ys)
    \<and> (mapped_less (elements_to_bytes ube_to_bytes xs) (elements_to_bytes ube_to_bytes ys)
        \<longleftrightarrow> list_less (<) xs ys)"
  using element_mapping.vec_round_trip [OF ibe_mapping [OF assms], of xs]
    element_mapping.vec_round_trip [OF ube_mapping [OF assms], of xs]
    element_mapping.array_round_trip [OF ibe_mapping [OF assms], of xs]
    element_mapping.array_round_trip [OF ube_mapping [OF assms], of xs]
    element_mapping.elements_order [OF ibe_mapping [OF assms], of xs ys]
    element_mapping.elements_order [OF ube_mapping [OF assms], of xs ys]
  by (simp add: mapped_less_def)

theorem collection_mapping_witness:
  "vec_from_bytes ibe_from_bytes 2 (elements_to_bytes ibe_to_bytes [-3, 7 :: 16 word]) = Ret [-3, 7 :: 16 word]"
  using collection_mapping [of "[-3, 7 :: 16 word]"] by simp

text \<open>
  C21. A tuple of mapped values has the bytes of its components one after the other.  It is read
  back, its length is the sum of the lengths, tuples are ordered by their first components that
  differ, and no encoding is a prefix of another; this holds for any components that keep the contract of
  a byte mapping.  Reading bytes of any other length panics.
\<close>

theorem tuple_mapping:
  assumes "\<forall>c\<in>set comps. lawful c" "tuple_valid comps xs" "tuple_valid comps ys"
  shows "tuple_from_bytes comps (tuple_to_bytes comps xs) = Ret xs
    \<and> length (tuple_to_bytes comps xs) = tuple_capacity comps
    \<and> (mapped_less (tuple_to_bytes comps xs) (tuple_to_bytes comps ys) \<longleftrightarrow> tuple_less comps xs ys)
    \<and> (Sublist.prefix (tuple_to_bytes comps xs) (tuple_to_bytes comps ys) \<longleftrightarrow> xs = ys)
    \<and> (\<forall>bs. length bs \<noteq> tuple_capacity comps \<longrightarrow> tuple_from_bytes comps bs = Panic)"
proof -
  have "tuple_mappings comps" using assms(1) by unfold_locales blast
  note m = tuple_mappings.is_byte_mapping [OF this]
  have "Sublist.prefix (tuple_to_bytes comps xs) (tuple_to_bytes comps ys) \<longleftrightarrow> xs = ys"
    using byte_mapping.width [OF m assms(2)] byte_mapping.width [OF m assms(3)] byte_mapping.to_bytes_inj [OF m assms(2,3)]
    by (auto simp: prefix_def)
  then show ?thesis
    using byte_mapping.round_trip [OF m assms(2)] byte_mapping.width [OF m assms(2)] byte_mapping.order [OF m assms(2,3)]
    by (simp add: mapped_less_def tuple_from_bytes_length)
qed

theorem tuple_mapping_witness:
  "tuple_to_bytes nonzero_i16_ipv4 [Inl 256, Inr [127, 0, 0, 1]] = [129, 0, 127, 0, 0, 1]
    \<and> tuple_from_bytes nonzero_i16_ipv4 [129, 0, 127, 0, 0, 1] = Ret [Inl 256, Inr [127, 0, 0, 1]]
    \<and> tuple_from_bytes nonzero_i16_ipv4 [129, 0, 127, 0, 0] = Panic"
proof -
  have "tuple_to_bytes nonzero_i16_ipv4 [Inl 256, Inr [127, 0, 0, 1]] = [129, 0, 127, 0, 0, 1]"
    by (simp add: nonzero_i16_ipv4_def component_of_def encode_simps)
  then show ?thesis
    using tuple_mapping [of nonzero_i16_ipv4 "[Inl 256, Inr [127, 0, 0, 1]]" "[Inl 256, Inr [127, 0, 0, 1]]"]
      nonzero_i16_ipv4.lawful_components
    by (simp add: nonzero_i16_ipv4_def component_of_def tuple_capacity_def)
qed

end
