(* ===== verification/Key_Types.thy ===== *)
theory Key_Types
  imports Byte_Mapping
begin

text \<open>
  The key types and the markers they carry (\<open>src/src/bytes.rs\<close>): \<open>as_bytes\<close> of the integer types
  and their slices, of strings, paths and pointers, and the contracts of the unsafe traits
  \<open>NoPrefixesBytes\<close> and \<open>OrderedBytes\<close> as locales.

  A value of an integer-like type (also \<open>char\<close>, \<open>bool\<close> and the \<open>NonZero\<close> types) is the word of its
  bits, a string is the list of its bytes.  \<open>little\<close> says if the target is little endian.  The
  lemmas of the locales are what the map gains from a marker: inserting never reaches the
  unchecked unwrap, iterating follows the order of the keys.  The interpretations show the
  contract for the types that the source marks, except for paths, whose order is another one.
\<close>

section \<open>Keys as bytes\<close>

definition bytes_of :: "bool \<Rightarrow> 'w::len word \<Rightarrow> bytes" where
  \<comment> \<open>\<open>bytemuck::bytes_of\<close> of an integer\<close>
  "bytes_of little x = (if little then rev (to_be_bytes x) else to_be_bytes x)"

definition integer_as_bytes :: "bool \<Rightarrow> 'w::len word \<Rightarrow> bytes" where
  "integer_as_bytes little x = bytes_of little x"

definition integers_as_bytes :: "bool \<Rightarrow> 'w::len word list \<Rightarrow> bytes" where
  \<comment> \<open>\<open>bytemuck::cast_slice\<close>, for slices and vectors\<close>
  "integers_as_bytes little xs = concat (map (bytes_of little) xs)"

definition array_as_bytes :: "bool \<Rightarrow> 'w::len word list \<Rightarrow> bytes" where
  \<comment> \<open>\<open>bytemuck::bytes_of\<close> of an array\<close>
  "array_as_bytes little xs = concat (map (bytes_of little) xs)"

definition str_as_bytes :: "bytes \<Rightarrow> bytes" where
  "str_as_bytes s = s"

definition cstr_as_bytes :: "bytes \<Rightarrow> bytes" where
  \<comment> \<open>from the bytes before the terminator, none of which is zero\<close>
  "cstr_as_bytes s = s @ [0]"

definition os_str_as_bytes :: "bytes \<Rightarrow> bytes" where
  "os_str_as_bytes s = s"

definition path_as_bytes :: "bytes \<Rightarrow> bytes" where
  \<comment> \<open>a path is its \<open>OsStr\<close>\<close>
  "path_as_bytes p = os_str_as_bytes p"

datatype ('b, 'o) cow = Borrowed 'b | Owned 'o

definition cow_as_bytes :: "('b \<Rightarrow> bytes) \<Rightarrow> ('o \<Rightarrow> 'b) \<Rightarrow> ('b, 'o) cow \<Rightarrow> bytes" where
  "cow_as_bytes b_as_bytes borrow c =
     b_as_bytes (case c of Borrowed b \<Rightarrow> b | Owned o' \<Rightarrow> borrow o')"

definition pointer_as_bytes :: "('a \<Rightarrow> bytes) \<Rightarrow> ('p \<Rightarrow> 'a) \<Rightarrow> 'p \<Rightarrow> bytes" where
  \<comment> \<open>\<open>&T\<close>, \<open>&mut T\<close>, \<open>Rc\<close>, \<open>Arc\<close>, \<open>Box\<close>, \<open>ManuallyDrop\<close>\<close>
  "pointer_as_bytes t_as_bytes deref p = t_as_bytes (deref p)"

definition io_slice_as_bytes :: "bytes \<Rightarrow> bytes" where
  "io_slice_as_bytes s = s"

section \<open>The order of paths\<close>

text \<open>
  \<open>Ord\<close> of \<open>Path\<close> in the standard library compares the components of the paths, which on Unix are
  separated by slashes; empty components and dots, except for a leading dot, are left out.
\<close>

datatype path_component = RootDir | CurDir | ParentDir | Normal bytes

fun split_slash :: "bytes \<Rightarrow> bytes \<Rightarrow> bytes list" where
  "split_slash acc [] = [acc]"
| "split_slash acc (b # bs) = (if b = 0x2F then acc # split_slash [] bs else split_slash (acc @ [b]) bs)"

definition parse_component :: "bytes \<Rightarrow> path_component option" where
  "parse_component s =
     (if s = [] \<or> s = [0x2E] then None else if s = [0x2E, 0x2E] then Some ParentDir else Some (Normal s))"

definition path_components :: "bytes \<Rightarrow> path_component list" where
  "path_components p =
     (if p \<noteq> [] \<and> hd p = 0x2F then [RootDir] else if hd (split_slash [] p) = [0x2E] then [CurDir] else [])
     @ List.map_filter parse_component (split_slash [] p)"

fun component_less :: "path_component \<Rightarrow> path_component \<Rightarrow> bool" where
  "component_less RootDir c \<longleftrightarrow> c \<noteq> RootDir"
| "component_less CurDir c \<longleftrightarrow> c \<noteq> RootDir \<and> c \<noteq> CurDir"
| "component_less ParentDir c \<longleftrightarrow> (\<exists>s. c = Normal s)"
| "component_less (Normal s) c \<longleftrightarrow> (case c of Normal t \<Rightarrow> s < t | _ \<Rightarrow> False)"

instantiation path_component :: linorder
begin

definition less_path_component :: "path_component \<Rightarrow> path_component \<Rightarrow> bool" where
  "c < d \<longleftrightarrow> component_less c d"

definition less_eq_path_component :: "path_component \<Rightarrow> path_component \<Rightarrow> bool" where
  "c \<le> d \<longleftrightarrow> c = d \<or> component_less c d"

instance
proof
  fix c d e :: path_component
  show "c < d \<longleftrightarrow> c \<le> d \<and> \<not> d \<le> c"
    by (cases c; cases d) (auto simp: less_path_component_def less_eq_path_component_def)
  show "c \<le> d \<Longrightarrow> d \<le> e \<Longrightarrow> c \<le> e"
    by (cases c; cases d; cases e) (auto simp: less_eq_path_component_def)
  show "c \<le> d \<Longrightarrow> d \<le> c \<Longrightarrow> c = d" "c \<le> d \<or> d \<le> c"
    by (cases c; cases d; auto simp: less_eq_path_component_def)+
qed (simp add: less_eq_path_component_def)

end

definition path_less :: "bytes \<Rightarrow> bytes \<Rightarrow> bool" where
  "path_less p q \<longleftrightarrow> path_components p < path_components q"

section \<open>The contracts of the markers\<close>

definition typed_key :: "('a \<Rightarrow> bool) \<Rightarrow> ('a \<Rightarrow> bytes) \<Rightarrow> 'a key \<Rightarrow> bool" where
  \<comment> \<open>a key whose bytes are those of the value it was made from\<close>
  "typed_key valid to_bytes k \<longleftrightarrow> valid (key_data k) \<and> as_bytes k = to_bytes (key_data k)"

abbreviation typed_map :: "('a \<Rightarrow> bool) \<Rightarrow> ('a \<Rightarrow> bytes) \<Rightarrow> ('a, 'v) art option \<Rightarrow> bool" where
  "typed_map valid to_bytes T \<equiv> \<forall>e\<in>set (opt_entries T). typed_key valid to_bytes (fst e)"

locale no_prefixes_bytes =
  fixes valid :: "'a \<Rightarrow> bool"
    and to_bytes :: "'a \<Rightarrow> bytes"
  assumes no_conflict: "valid x \<Longrightarrow> valid y \<Longrightarrow> \<not> conflicts (to_bytes x) (to_bytes y)"
begin

lemma insert_returns:
  assumes m: "map_state N fr m hp T" and T: "typed_map valid to_bytes T"
    and k: "typed_key valid to_bytes k" "length (as_bytes k) < 2 ^ 32"
  shows "\<exists>m' hp' T'. insert_map N hp m k v = Ret (map_option snd (opt_map T (as_bytes k)), m', hp')
      \<and> map_state N fr m' hp' T' \<and> opt_map T' = (opt_map T)(as_bytes k \<mapsto> (k, v)) \<and> typed_map valid to_bytes T'"
proof -
  have "\<forall>e\<in>set (opt_entries T). \<not> conflicts (as_bytes k) (as_bytes (fst e))"
    using T k(1) no_conflict by (auto simp: typed_key_def)
  from insert_map_spec [OF m k(2) this, of v]
  obtain m' hp' T' where new: "insert_map N hp m k v = Ret (map_option snd (opt_map T (as_bytes k)), m', hp')"
      "map_state N fr m' hp' T'" "opt_map T' = (opt_map T)(as_bytes k \<mapsto> (k, v))"
    by blast
  have "typed_key valid to_bytes (fst e)" if "e \<in> set (opt_entries T')" for e
  proof -
    have "opt_map T' (as_bytes (fst e)) = Some e" using that by (simp add: opt_map_entries [OF new(2)])
    then have "e = (k, v) \<or> opt_map T (as_bytes (fst e)) = Some e" by (auto simp: new(3) split: if_splits)
    then show ?thesis using k(1) T by (auto simp: opt_map_entries [OF m])
  qed
  with new show ?thesis by blast
qed

lemma pointer: "no_prefixes_bytes (\<lambda>p. valid (deref p)) (pointer_as_bytes to_bytes deref)"
  by unfold_locales (simp add: pointer_as_bytes_def no_conflict)

lemma cow: "no_prefixes_bytes (\<lambda>c. valid (case c of Borrowed b \<Rightarrow> b | Owned w \<Rightarrow> borrow w)) (cow_as_bytes to_bytes borrow)"
  by unfold_locales (simp add: cow_as_bytes_def no_conflict)

end

locale ordered_bytes =
  fixes valid :: "'a \<Rightarrow> bool"
    and to_bytes :: "'a \<Rightarrow> bytes"
    and less_value :: "'a \<Rightarrow> 'a \<Rightarrow> bool"
  assumes bytes_order: "valid x \<Longrightarrow> valid y \<Longrightarrow> to_bytes x < to_bytes y \<longleftrightarrow> less_value x y"
begin

lemma entries_sorted:
  assumes m: "map_state N fr m hp T" and T: "typed_map valid to_bytes T"
  shows "sorted_wrt less_value (map (key_data \<circ> fst) (opt_entries T))"
proof -
  have "sorted_wrt (\<lambda>e e'. as_bytes (fst e) < as_bytes (fst e')) (opt_entries T)"
    using m key_bytes_strict [of "[]"] by (cases T) (auto simp: map_state_def sorted_wrt_map)
  then have "sorted_wrt (\<lambda>e e'. less_value (key_data (fst e)) (key_data (fst e'))) (opt_entries T)"
    by (rule sorted_wrt_mono_rel [rotated]) (use T bytes_order in \<open>auto simp: typed_key_def\<close>)
  then show ?thesis by (simp add: sorted_wrt_map)
qed

lemma pointer: "ordered_bytes (\<lambda>p. valid (deref p)) (pointer_as_bytes to_bytes deref) (\<lambda>p q. less_value (deref p) (deref q))"
  by unfold_locales (simp add: pointer_as_bytes_def bytes_order)

end

text \<open>The mapped types have both contracts.\<close>

sublocale byte_mapping \<subseteq> marked: no_prefixes_bytes valid to_bytes
  using no_prefixes by unfold_locales (auto simp: prefix_free_def)

sublocale byte_mapping \<subseteq> sorted: ordered_bytes valid to_bytes less_value
  by unfold_locales (rule order)

section \<open>The key types of the source\<close>

lemma same_length_no_conflict: "length a = length b \<Longrightarrow> \<not> conflicts a b"
  by (auto simp: conflicts_def prefix_def)

lemma bytes_of_length [simp]: "length (bytes_of little (x :: 'w::len word)) = LENGTH('w) div 8"
  by (simp add: bytes_of_def)

lemma array_as_bytes_length:
  "length (array_as_bytes little (xs :: 'w::len word list)) = length xs * (LENGTH('w) div 8)"
  by (induction xs) (simp_all add: array_as_bytes_def)

interpretation integer_key: no_prefixes_bytes "\<lambda>_. True" "integer_as_bytes little :: 'w::len word \<Rightarrow> bytes" for little
  by unfold_locales (simp add: integer_as_bytes_def same_length_no_conflict)

interpretation array_key: no_prefixes_bytes "\<lambda>xs. length xs = n" "array_as_bytes little :: 'w::len word list \<Rightarrow> bytes" for n little
  by unfold_locales (simp add: array_as_bytes_length same_length_no_conflict)

lemma cstr_bytes:
  assumes "0 \<notin> set s" "0 \<notin> set t"
  shows "\<not> conflicts (cstr_as_bytes s) (cstr_as_bytes t) \<and> (cstr_as_bytes s < cstr_as_bytes t \<longleftrightarrow> s < t)"
  using assms
proof (induction s t rule: list_induct2')
  case (2 x xs)
  then have "0 < x" by (simp add: word_neq_0_conv)
  then show ?case by (auto simp: cstr_as_bytes_def conflicts_def)
next
  case (3 y ys)
  then have "0 < y" by (simp add: word_neq_0_conv)
  then show ?case by (auto simp: cstr_as_bytes_def conflicts_def)
qed (auto simp: cstr_as_bytes_def conflicts_def)

interpretation cstr_key: no_prefixes_bytes "\<lambda>s. 0 \<notin> set s" cstr_as_bytes
  by unfold_locales (simp add: cstr_bytes)

interpretation cstr_order: ordered_bytes "\<lambda>s. 0 \<notin> set s" cstr_as_bytes "(<)"
  by unfold_locales (simp add: cstr_bytes)

lemma bytes_of_u8: "bytes_of little (x :: byte) = [x]"
  by (simp add: bytes_of_def to_be_bytes_def)

lemma integers_as_bytes_u8: "integers_as_bytes little (xs :: bytes) = xs"
  by (induction xs) (simp_all add: integers_as_bytes_def bytes_of_u8)

interpretation u8_order: ordered_bytes "\<lambda>_. True" "integer_as_bytes little :: byte \<Rightarrow> bytes" "(<)" for little
  by unfold_locales (simp add: integer_as_bytes_def bytes_of_u8)

interpretation u8_slice_order: ordered_bytes "\<lambda>_. True" "integers_as_bytes little :: bytes \<Rightarrow> bytes" "(<)" for little
  by unfold_locales (simp add: integers_as_bytes_u8)

interpretation u8_array_order: ordered_bytes "\<lambda>xs. length xs = n" "array_as_bytes little :: bytes \<Rightarrow> bytes" "(<)" for n little
  by unfold_locales (simp add: array_as_bytes_def integers_as_bytes_u8 [unfolded integers_as_bytes_def])

interpretation str_order: ordered_bytes "\<lambda>_. True" str_as_bytes "(<)"
  by unfold_locales (simp add: str_as_bytes_def)

interpretation os_str_order: ordered_bytes "\<lambda>_. True" os_str_as_bytes "(<)"
  by unfold_locales (simp add: os_str_as_bytes_def)

section \<open>Properties\<close>

text \<open>
  C22. The types marked \<open>NoPrefixesBytes\<close> keep the promise: no integer, array of integers of one
  length or C string has bytes that are a proper prefix of those of another, and pointers to a
  marked type are as good as the type.  Inserting such a key into a map of such keys returns (the
  unchecked unwrap in \<open>insert\<close> is never reached) and is the update of the abstract map.
\<close>

theorem no_prefixes_marks:
  "no_prefixes_bytes (\<lambda>_. True) (integer_as_bytes little :: 'w::len word \<Rightarrow> bytes)
    \<and> no_prefixes_bytes (\<lambda>xs. length xs = n) (array_as_bytes little :: 'w word list \<Rightarrow> bytes)
    \<and> no_prefixes_bytes (\<lambda>s. 0 \<notin> set s) cstr_as_bytes
    \<and> (no_prefixes_bytes valid to_bytes \<longrightarrow>
        no_prefixes_bytes (\<lambda>p. valid (deref p)) (pointer_as_bytes to_bytes deref)
        \<and> no_prefixes_bytes (\<lambda>c. valid (case c of Borrowed b \<Rightarrow> b | Owned w \<Rightarrow> borrow w)) (cow_as_bytes to_bytes borrow)
        \<and> (map_state N fr m hp T \<and> typed_map valid to_bytes T \<and> typed_key valid to_bytes k \<and> length (as_bytes k) < 2 ^ 32 \<longrightarrow>
            (\<exists>m' hp' T'. insert_map N hp m k v = Ret (map_option snd (opt_map T (as_bytes k)), m', hp')
              \<and> map_state N fr m' hp' T' \<and> opt_map T' = (opt_map T)(as_bytes k \<mapsto> (k, v)) \<and> typed_map valid to_bytes T')))"
proof (intro conjI impI)
  assume marked: "no_prefixes_bytes valid to_bytes"
  show "no_prefixes_bytes (\<lambda>p. valid (deref p)) (pointer_as_bytes to_bytes deref)"
    by (rule no_prefixes_bytes.pointer [OF marked])
  show "no_prefixes_bytes (\<lambda>c. valid (case c of Borrowed b \<Rightarrow> b | Owned w \<Rightarrow> borrow w)) (cow_as_bytes to_bytes borrow)"
    by (rule no_prefixes_bytes.cow [OF marked])
  assume "map_state N fr m hp T \<and> typed_map valid to_bytes T \<and> typed_key valid to_bytes k \<and> length (as_bytes k) < 2 ^ 32"
  then show "\<exists>m' hp' T'. insert_map N hp m k v = Ret (map_option snd (opt_map T (as_bytes k)), m', hp')
      \<and> map_state N fr m' hp' T' \<and> opt_map T' = (opt_map T)(as_bytes k \<mapsto> (k, v)) \<and> typed_map valid to_bytes T'"
    by (intro no_prefixes_bytes.insert_returns [OF marked]) simp_all
qed (rule integer_key.no_prefixes_bytes_axioms array_key.no_prefixes_bytes_axioms cstr_key.no_prefixes_bytes_axioms)+

theorem no_prefixes_marks_witness:
  "\<exists>m' hp'. insert_map 2 empty_heap with_prefix_len (Key (cstr_as_bytes [97]) [97 :: byte]) True = Ret (None, m', hp')"
proof -
  have m: "map_state 2 (\<lambda>_. None) with_prefix_len (empty_heap :: (bytes, bool) heap) None"
    by (rule map_state_new)
  have "no_prefixes_bytes (\<lambda>s. 0 \<notin> set s) cstr_as_bytes" by (rule cstr_key.no_prefixes_bytes_axioms)
  then show ?thesis
    using no_prefixes_marks [where N = 2 and fr = "\<lambda>_. None" and m = with_prefix_len and hp = empty_heap and T = None
        and valid = "\<lambda>s. 0 \<notin> set s" and to_bytes = cstr_as_bytes and k = "Key (cstr_as_bytes [97]) [97]" and v = True
        and deref = "\<lambda>p :: bytes. p" and borrow = "\<lambda>w :: bytes. w" and n = 0 and little = True] m
    by (auto simp: typed_key_def cstr_as_bytes_def)
qed

text \<open>
  C23. The types marked \<open>OrderedBytes\<close> compare as their bytes do, except for paths: \<open>Path\<close> compares
  components, so \<open>a/b\<close> comes before \<open>a.b\<close> while its bytes come after, and \<open>a/b\<close> equals \<open>a//b\<close> with
  other bytes.  An integer of two bytes in little-endian order is rightly not marked.
\<close>

theorem ordered_marks:
  "ordered_bytes (\<lambda>_. True) (integer_as_bytes little :: byte \<Rightarrow> bytes) (<)
    \<and> ordered_bytes (\<lambda>_. True) (integers_as_bytes little :: bytes \<Rightarrow> bytes) (<)
    \<and> ordered_bytes (\<lambda>xs. length xs = n) (array_as_bytes little :: bytes \<Rightarrow> bytes) (<)
    \<and> ordered_bytes (\<lambda>_. True) str_as_bytes (<)
    \<and> ordered_bytes (\<lambda>s. 0 \<notin> set s) cstr_as_bytes (<)
    \<and> ordered_bytes (\<lambda>_. True) os_str_as_bytes (<)
    \<and> \<not> ordered_bytes (\<lambda>_. True) path_as_bytes path_less
    \<and> \<not> ordered_bytes (\<lambda>_. True) (integer_as_bytes True :: 16 word \<Rightarrow> bytes) (<)
    \<and> (let p = [0x61, 0x2F, 0x62]; q = [0x61, 0x2E, 0x62]; p' = [0x61, 0x2F, 0x2F, 0x62] in
        path_less p q \<and> path_as_bytes q < path_as_bytes p
        \<and> path_components p = path_components p' \<and> path_as_bytes p \<noteq> path_as_bytes p')"
proof -
  let ?p = "[0x61, 0x2F, 0x62] :: bytes" and ?q = "[0x61, 0x2E, 0x62] :: bytes"
    and ?p' = "[0x61, 0x2F, 0x2F, 0x62] :: bytes"
  have less: "path_less ?p ?q" "path_as_bytes ?q < path_as_bytes ?p" "path_components ?p = path_components ?p'"
      "path_as_bytes ?p \<noteq> path_as_bytes ?p'"
    by (simp_all add: path_less_def path_components_def parse_component_def map_filter_simps path_as_bytes_def
        os_str_as_bytes_def less_path_component_def)
  have path: "\<not> ordered_bytes (\<lambda>_. True) path_as_bytes path_less"
  proof
    assume "ordered_bytes (\<lambda>_. True) path_as_bytes path_less"
    from ordered_bytes.bytes_order [OF this] less(1) have "path_as_bytes ?p < path_as_bytes ?q" by blast
    with less(2) show False by (rule order_less_asym)
  qed
  have "integer_as_bytes True (0x0100 :: 16 word) < integer_as_bytes True (0x0001 :: 16 word)"
    by (simp add: integer_as_bytes_def bytes_of_def encode_simps)
  then have word: "\<not> ordered_bytes (\<lambda>_. True) (integer_as_bytes True :: 16 word \<Rightarrow> bytes) (<)"
    using ordered_bytes.bytes_order [of "\<lambda>_. True" "integer_as_bytes True :: 16 word \<Rightarrow> bytes" "(<)" "0x0100" "0x0001"] by auto
  show ?thesis
    unfolding Let_def using less path word u8_order.ordered_bytes_axioms u8_slice_order.ordered_bytes_axioms u8_array_order.ordered_bytes_axioms
      str_order.ordered_bytes_axioms cstr_order.ordered_bytes_axioms os_str_order.ordered_bytes_axioms
    by (intro conjI)
qed

end
