(* ===== verification/Tagged_Pointer.thy ===== *)
theory Tagged_Pointer
  imports Node_Type
begin

text \<open>
  Tagged pointers (\<open>src/src/tagged_pointer.rs\<close>) and the node pointers built on them
  (\<open>OpaqueNodePtr\<close> in \<open>src/src/nodes/representation.rs\<close>): the kind of a node is stored in the
  low bits of its address, which are zero because of the alignment.  The other theories use
  the pair of a kind and an address; this one shows that the encoding loses nothing.

  Addresses are words of 64 bits; a pointer type is given by the number of its data bits, the
  trailing zeros of its alignment.
\<close>

section \<open>Operations\<close>

type_synonym address = "64 word"

fun trailing_zeros :: "nat \<Rightarrow> nat" where
  "trailing_zeros n = (if n = 0 \<or> odd n then 0 else Suc (trailing_zeros (n div 2)))"

declare trailing_zeros.simps [simp del]

definition num_bits :: "nat \<Rightarrow> nat \<Rightarrow> nat outcome" where
  \<comment> \<open>\<open>NUM_BITS\<close>; the assertion is evaluated at compile time\<close>
  "num_bits alignment MIN_BITS =
     (let n = trailing_zeros alignment in and_then (assert_that (MIN_BITS \<le> n)) (\<lambda>_. Ret n))"

definition pointer_mask :: "nat \<Rightarrow> address" where
  "pointer_mask nb = push_bit nb (-1)"

definition data_mask :: "nat \<Rightarrow> address" where
  "data_mask nb = NOT (pointer_mask nb)"

definition tagged_new_unchecked :: "nat \<Rightarrow> address \<Rightarrow> address outcome" where
  "tagged_new_unchecked nb pointer =
     and_then (assume_that (pointer \<noteq> 0)) (\<lambda>_.
     and_then (assert_that (pointer AND data_mask nb = 0)) (\<lambda>_. Ret pointer))"

definition tagged_new :: "nat \<Rightarrow> address \<Rightarrow> address option outcome" where
  "tagged_new nb pointer =
     (if pointer = 0 then Ret None
      else and_then (tagged_new_unchecked nb pointer) (\<lambda>t. Ret (Some t)))"

definition to_ptr :: "nat \<Rightarrow> address \<Rightarrow> address" where
  "to_ptr nb t = t AND pointer_mask nb"

definition to_data :: "nat \<Rightarrow> address \<Rightarrow> address" where
  "to_data nb t = t AND data_mask nb"

definition set_data :: "nat \<Rightarrow> address \<Rightarrow> address \<Rightarrow> address outcome" where
  "set_data nb t data =
     and_then (assert_that (data AND pointer_mask nb = 0)) (\<lambda>_.
     let data = data AND data_mask nb;
         ptr_with_new_data = (t AND pointer_mask nb) OR data in
     and_then (assume_that (ptr_with_new_data \<noteq> 0)) (\<lambda>_. Ret ptr_with_new_data))"

definition new_with_data :: "nat \<Rightarrow> address \<Rightarrow> address \<Rightarrow> address option outcome" where
  "new_with_data nb pointer data =
     and_then (tagged_new nb pointer) (\<lambda>tagged_ptr.
     case tagged_ptr of None \<Rightarrow> Ret None
     | Some tagged_ptr \<Rightarrow> and_then (set_data nb tagged_ptr data) (\<lambda>t. Ret (Some t)))"

definition cast_tagged :: "nat \<Rightarrow> nat \<Rightarrow> address \<Rightarrow> address outcome" where
  \<comment> \<open>\<open>cast\<close> from a type with \<open>nb\<close> data bits to one with \<open>nb'\<close>\<close>
  "cast_tagged nb nb' t =
     (let data = to_data nb t; raw_ptr = to_ptr nb t in
      and_then (tagged_new_unchecked nb' raw_ptr) (\<lambda>new_tagged. set_data nb' new_tagged data))"

definition tagged_from :: "nat \<Rightarrow> address \<Rightarrow> address outcome" where
  \<comment> \<open>\<open>From<NonNull<P>>\<close> and \<open>From<&mut P>\<close>\<close>
  "tagged_from nb pointer = tagged_new_unchecked nb pointer"

definition into_non_null :: "nat \<Rightarrow> address \<Rightarrow> address outcome" where
  \<comment> \<open>\<open>From<TaggedPointer<P>> for NonNull<P>\<close>\<close>
  "into_non_null nb t = and_then (assume_that (to_ptr nb t \<noteq> 0)) (\<lambda>_. Ret (to_ptr nb t))"

text \<open>\<open>OpaqueValue\<close> has alignment 8, so an \<open>OpaqueNodePtr\<close> has three data bits.\<close>

definition opaque_new :: "nat \<Rightarrow> node_type \<Rightarrow> address \<Rightarrow> address outcome" where
  "opaque_new nb ty pointer =
     and_then (tagged_from nb pointer) (\<lambda>t.
     and_then (cast_tagged nb 3 t) (\<lambda>tagged_ptr.
     set_data 3 tagged_ptr (ucast (node_type_as_u8 ty))))"

definition opaque_is :: "node_type \<Rightarrow> address \<Rightarrow> bool" where
  "opaque_is ty p \<longleftrightarrow> to_data 3 p = ucast (node_type_as_u8 ty)"

definition opaque_cast :: "nat \<Rightarrow> node_type \<Rightarrow> address \<Rightarrow> address option outcome" where
  "opaque_cast nb ty p =
     (if opaque_is ty p then
        and_then (cast_tagged 3 nb p) (\<lambda>t. and_then (into_non_null nb t) (\<lambda>ptr. Ret (Some ptr)))
      else Ret None)"

definition opaque_node_type :: "address \<Rightarrow> node_type outcome" where
  "opaque_node_type p = from_u8 (ucast (to_data 3 p))"

definition to_node_ptr :: "(node_type \<Rightarrow> nat) \<Rightarrow> address \<Rightarrow> (node_type \<times> address) outcome" where
  \<comment> \<open>\<open>nb\<close> gives the data bits of the struct of each kind\<close>
  "to_node_ptr nb p =
     and_then (opaque_node_type p) (\<lambda>ty.
     and_then (cast_tagged 3 (nb ty) p) (\<lambda>t.
     and_then (into_non_null (nb ty) t) (\<lambda>ptr. Ret (ty, ptr))))"

section \<open>Masks\<close>

lemma bit_masks [simp]:
  "bit (pointer_mask nb) i \<longleftrightarrow> nb \<le> i \<and> i < 64"
  "bit (data_mask nb) i \<longleftrightarrow> i < nb \<and> i < 64"
  by (auto simp: pointer_mask_def data_mask_def bit_simps)

lemma mask_split: "(t AND pointer_mask nb) OR (t AND data_mask nb) = t"
  by (rule bit_word_eqI) (auto simp: bit_simps)

lemma masked_pointer: "(p AND pointer_mask nb) AND data_mask nb = 0" "(p AND data_mask nb) AND pointer_mask nb = 0"
  by (rule bit_word_eqI; auto simp: bit_simps)+

lemma aligned_iff: "p AND data_mask nb = 0 \<longleftrightarrow> p AND pointer_mask nb = p"
  using mask_split [of p nb] by (metis masked_pointer(1) or.right_neutral)

lemma small_data_iff: "d AND pointer_mask nb = 0 \<longleftrightarrow> d AND data_mask nb = d"
  using mask_split [of d nb] by (metis masked_pointer(2) or.left_neutral)

lemma combine:
  assumes "p AND data_mask nb = 0" "d AND pointer_mask nb = 0"
  shows "to_ptr nb (p OR d) = p" "to_data nb (p OR d) = d"
  using assms by (simp_all add: to_ptr_def to_data_def and.left_commute and.commute bit.conj_disj_distrib2 bit.conj_disj_distrib
      flip: aligned_iff small_data_iff)

lemma or_nonzero: "p \<noteq> 0 \<Longrightarrow> p OR d \<noteq> (0 :: address)"
  by (metis or.assoc or.left_neutral or.right_neutral or_eq_0_iff)

text \<open>A well-formed tagged pointer: the address without the data is not null.\<close>

definition tagged :: "nat \<Rightarrow> address \<Rightarrow> address \<Rightarrow> address \<Rightarrow> bool" where
  "tagged nb p d t \<longleftrightarrow> p \<noteq> 0 \<and> p AND data_mask nb = 0 \<and> d AND pointer_mask nb = 0 \<and> t = p OR d"

lemma tagged_parts: "tagged nb p d t \<Longrightarrow> to_ptr nb t = p \<and> to_data nb t = d"
  using combine by (auto simp: tagged_def)

lemma tagged_new_spec: "p \<noteq> 0 \<Longrightarrow> p AND data_mask nb = 0 \<Longrightarrow> tagged_new_unchecked nb p = Ret p \<and> tagged nb p 0 p"
  by (simp add: tagged_new_unchecked_def tagged_def)

lemma set_data_spec:
  assumes "tagged nb p d t" "d' AND pointer_mask nb = 0"
  shows "set_data nb t d' = Ret (p OR d') \<and> tagged nb p d' (p OR d')"
proof -
  have "t AND pointer_mask nb = p" using tagged_parts [OF assms(1)] by (simp add: to_ptr_def)
  moreover have "d' AND data_mask nb = d'" using assms(2) small_data_iff by blast
  ultimately show ?thesis using assms by (simp add: set_data_def Let_def tagged_def or_nonzero)
qed

lemma cast_tagged_spec:
  assumes "tagged nb p d t" "p AND data_mask nb' = 0" "d AND pointer_mask nb' = 0"
  shows "cast_tagged nb nb' t = Ret t \<and> tagged nb' p d t"
proof -
  have p: "p \<noteq> 0" "t = p OR d" using assms(1) by (auto simp: tagged_def)
  have "tagged_new_unchecked nb' p = Ret p" "tagged nb' p 0 p" using tagged_new_spec [OF p(1) assms(2)] by auto
  moreover have "set_data nb' p d = Ret (p OR d)" "tagged nb' p d (p OR d)"
    using set_data_spec [OF calculation(2) assms(3)] by auto
  ultimately show ?thesis using tagged_parts [OF assms(1)] p(2) by (simp add: cast_tagged_def Let_def)
qed

lemma and_zero_iff: "x AND y = (0 :: address) \<longleftrightarrow> (\<forall>i. bit x i \<longrightarrow> \<not> bit y i)"
proof
  assume "x AND y = 0"
  then have "bit (x AND y) i \<longleftrightarrow> bit (0 :: address) i" for i by simp
  then show "\<forall>i. bit x i \<longrightarrow> \<not> bit y i" by (simp add: bit_and_iff)
next
  assume "\<forall>i. bit x i \<longrightarrow> \<not> bit y i"
  then show "x AND y = 0" by (intro bit_word_eqI) (simp add: bit_and_iff)
qed

lemma small_mask: "nb' \<le> nb \<Longrightarrow> d AND pointer_mask nb' = 0 \<Longrightarrow> d AND pointer_mask nb = 0"
  by (auto simp: and_zero_iff)

lemma aligned_mask: "nb' \<le> nb \<Longrightarrow> p AND data_mask nb = 0 \<Longrightarrow> p AND data_mask nb' = 0"
  by (auto simp: and_zero_iff)

lemma masks_3: "pointer_mask 3 = NOT 7" "data_mask 3 = 7"
  by (simp_all add: pointer_mask_def data_mask_def mask_eq_exp_minus_1)

lemma node_type_data: "ucast (node_type_as_u8 ty) AND pointer_mask 3 = 0"
  "ucast (ucast (node_type_as_u8 ty) :: address) = node_type_as_u8 ty"
  by (cases ty; simp add: node_type_as_u8_def node_type_code_def masks_3)+

section \<open>Properties\<close>

text \<open>
  C24. An opaque node pointer made from the address of a node of any kind gives back the kind and
  the address, whatever the alignment of the struct, as long as the address is aligned: no
  conversion panics, \<open>is\<close> and \<open>cast\<close> accept exactly the kind it was made with, and the pointer
  inside is never null.
\<close>

theorem node_ptr_round_trip:
  assumes "3 \<le> nb ty" "pointer \<noteq> 0" "pointer AND data_mask (nb ty) = 0"
  shows "\<exists>p. opaque_new (nb ty) ty pointer = Ret p \<and> opaque_node_type p = Ret ty
    \<and> to_node_ptr nb p = Ret (ty, pointer) \<and> p \<noteq> 0
    \<and> (\<forall>ty'. opaque_is ty' p \<longleftrightarrow> ty' = ty)
    \<and> (\<forall>ty'. opaque_cast (nb ty') ty' p = Ret (if ty' = ty then Some pointer else None))"
proof -
  let ?d = "ucast (node_type_as_u8 ty) :: address"
  have a3: "pointer AND data_mask 3 = 0" using aligned_mask assms(1,3) by blast
  have "tagged_from (nb ty) pointer = Ret pointer" "tagged (nb ty) pointer 0 pointer"
    using tagged_new_spec [OF assms(2,3)] by (auto simp: tagged_from_def)
  moreover have "cast_tagged (nb ty) 3 pointer = Ret pointer" "tagged 3 pointer 0 pointer"
    using cast_tagged_spec [OF calculation(2) a3] by auto
  moreover have set: "set_data 3 pointer ?d = Ret (pointer OR ?d)" "tagged 3 pointer ?d (pointer OR ?d)"
    using set_data_spec [OF calculation(4) node_type_data(1)] by auto
  ultimately have new: "opaque_new (nb ty) ty pointer = Ret (pointer OR ?d)" by (simp add: opaque_new_def)
  have data: "to_data 3 (pointer OR ?d) = ?d" using tagged_parts [OF set(2)] by simp
  have type: "opaque_node_type (pointer OR ?d) = Ret ty"
    by (simp add: opaque_node_type_def data node_type_data(2))
  have is_type: "opaque_is ty' (pointer OR ?d) \<longleftrightarrow> ty' = ty" for ty'
    unfolding opaque_is_def data
    by (cases ty; cases ty'; simp add: node_type_as_u8_def node_type_code_def)
  have again: "cast_tagged 3 (nb ty) (pointer OR ?d) = Ret (pointer OR ?d)" "tagged (nb ty) pointer ?d (pointer OR ?d)"
    using cast_tagged_spec [OF set(2) assms(3) small_mask [OF assms(1) node_type_data(1)]] by auto
  have non_null: "into_non_null (nb ty) (pointer OR ?d) = Ret pointer"
    using tagged_parts [OF again(2)] assms(2) by (simp add: into_non_null_def)
  have "to_node_ptr nb (pointer OR ?d) = Ret (ty, pointer)"
    by (simp add: to_node_ptr_def type again(1) non_null)
  moreover have "opaque_cast (nb ty') ty' (pointer OR ?d) = Ret (if ty' = ty then Some pointer else None)" for ty'
    by (cases "ty' = ty") (simp_all add: opaque_cast_def is_type again(1) non_null)
  ultimately show ?thesis using new type is_type or_nonzero [OF assms(2)] by blast
qed

theorem node_ptr_round_trip_witness:
  "\<exists>p. opaque_new 3 Node48 4096 = Ret p \<and> to_node_ptr (\<lambda>_. 3) p = Ret (Node48, 4096)"
  using node_ptr_round_trip [of "\<lambda>_. 3" Node48 4096] by (auto simp: masks_3)

lemma set_data_eq:
  "set_data nb t data =
    (if data AND pointer_mask nb \<noteq> 0 then Panic
     else if to_ptr nb t = 0 \<and> data = 0 then UB else Ret (to_ptr nb t OR data))"
proof (cases "data AND pointer_mask nb = 0")
  case True
  then have "data AND data_mask nb = data" using small_data_iff by blast
  moreover have "to_ptr nb t OR data = 0 \<longleftrightarrow> to_ptr nb t = 0 \<and> data = 0" by (rule or_eq_0_iff)
  ultimately show ?thesis using True by (auto simp: set_data_def Let_def to_ptr_def assume_that_def)
qed (simp add: set_data_def assert_that_def)

text \<open>
  C25. Tagging fails only in the documented ways: a null pointer gives \<open>None\<close>, an unaligned pointer
  or data beyond the free bits is a panic; otherwise pointer and data are both read back.
  \<open>set_data\<close> replaces the data of a pointer, whatever data it holds, and keeps the address: on a
  pointer that was tagged before it is as if it had been tagged with the new data at once.  On
  any word it panics exactly for data beyond the free bits, and its result is null, which is
  undefined behaviour, only if the address is null and the data zero.
\<close>

theorem tagged_pointer_data:
  shows "new_with_data nb pointer data =
      (if pointer = 0 then Ret None
       else if pointer AND data_mask nb \<noteq> 0 \<or> data AND pointer_mask nb \<noteq> 0 then Panic
       else Ret (Some (pointer OR data)))
    \<and> (new_with_data nb pointer data = Ret (Some t) \<longrightarrow> to_ptr nb t = pointer \<and> to_data nb t = data
        \<and> (\<forall>data'. new_with_data nb pointer data' = and_then (set_data nb t data') (\<lambda>t'. Ret (Some t'))))
    \<and> (\<forall>u data'. set_data nb u data' =
        (if data' AND pointer_mask nb \<noteq> 0 then Panic
         else if to_ptr nb u = 0 \<and> data' = 0 then UB else Ret (to_ptr nb u OR data')))
    \<and> (\<forall>u data' u'. set_data nb u data' = Ret u' \<longrightarrow> to_ptr nb u' = to_ptr nb u \<and> to_data nb u' = data')"
proof -
  have new: "new_with_data nb pointer data =
      (if pointer = 0 then Ret None
       else if pointer AND data_mask nb \<noteq> 0 \<or> data AND pointer_mask nb \<noteq> 0 then Panic
       else Ret (Some (pointer OR data)))" for data
  proof (cases "pointer = 0 \<or> pointer AND data_mask nb \<noteq> 0 \<or> data AND pointer_mask nb \<noteq> 0")
    case True
    then show ?thesis
      by (auto simp: new_with_data_def tagged_new_def tagged_new_unchecked_def set_data_def assert_that_def)
  next
    case False
    then show ?thesis
      using tagged_new_spec [of pointer nb] set_data_spec [of nb pointer 0 pointer data]
      by (simp add: new_with_data_def tagged_new_def)
  qed
  have "to_ptr nb u' = to_ptr nb u \<and> to_data nb u' = data'" if "set_data nb u data' = Ret u'" for u data' u'
    using that combine [of "to_ptr nb u" nb data'] masked_pointer(1)
    by (auto simp: set_data_eq to_ptr_def split: if_splits)
  moreover have "to_ptr nb t = pointer \<and> to_data nb t = data
      \<and> new_with_data nb pointer data' = and_then (set_data nb t data') (\<lambda>t'. Ret (Some t'))"
    if "new_with_data nb pointer data = Ret (Some t)" for data'
    using that combine [of pointer nb data] by (auto simp: new set_data_eq split: if_splits)
  ultimately show ?thesis using new set_data_eq by blast
qed

theorem tagged_pointer_data_witness:
  "new_with_data 3 4096 5 = Ret (Some 4101) \<and> to_data 3 4101 = 5 \<and> new_with_data 3 4096 8 = Panic
    \<and> set_data 3 4101 2 = Ret 4098 \<and> to_data 3 4098 = 2"
proof -
  note new = tagged_pointer_data [THEN conjunct1] and set = tagged_pointer_data [THEN conjunct2, THEN conjunct2]
  have 1: "new_with_data 3 4096 5 = Ret (Some 4101)" "new_with_data 3 4096 8 = Panic"
    using new [of 3 4096 5] new [of 3 4096 8] by (simp_all add: masks_3)
  have 2: "to_data 3 4101 = 5"
    using tagged_pointer_data [of 3 4096 5 4101, THEN conjunct2, THEN conjunct1] 1(1) by blast
  have 3: "set_data 3 4101 2 = Ret 4098"
    using set [of 3, THEN conjunct1, rule_format, of 4101 2] by (simp add: masks_3 to_ptr_def)
  have "to_data 3 4098 = 2" using set [of 3, THEN conjunct2, rule_format, OF 3] by blast
  with 1 2 3 show ?thesis by blast
qed

end
