(* ===== verification/Visitors.thy ===== *)
theory Visitors
  imports Tree_Map
begin

text \<open>
  Visiting the nodes of a tree (\<open>src/src/nodes/visitor.rs\<close>) and the two visitors that collect
  numbers (\<open>src/src/nodes/visitor/tree_stats.rs\<close>): \<open>TreeStatsCollector\<close> and \<open>LeafNodeCounter\<close>.

  A visitor is a function from its state and a node pointer to its output and the new state;
  \<open>visit_with\<close> on a pointer dispatches on the kind of the node, the children are visited with
  \<open>combine_inner_node_child_output\<close>.  The fuel bounds the depth.  \<open>size_of\<close> is the size in
  bytes of a node of each kind (\<open>std::mem::size_of_val\<close>), a parameter.  The functions of
  \<open>TreeStats\<close> that compute ratios in floating point are not modelled.

  The locale \<open>visitor\<close> is the contract of a visitor whose output and effect at a node depend
  on the subtree only; its lemma says that a visit of the root computes them.
\<close>

section \<open>Visiting the children\<close>

fun combine_rest ::
    "('s \<Rightarrow> node_ptr \<Rightarrow> ('o \<times> 's) outcome) \<Rightarrow> ('o \<Rightarrow> 'o \<Rightarrow> 'o) \<Rightarrow> 'o \<Rightarrow> 's
      \<Rightarrow> (byte \<times> node_ptr) list \<Rightarrow> ('o \<times> 's) outcome" where
  "combine_rest visit_with combine accum s [] = Ret (accum, s)"
| "combine_rest visit_with combine accum s ((_, child) # rest) =
     and_then (visit_with s child) (\<lambda>(output, s). combine_rest visit_with combine (combine accum output) s rest)"

definition combine_inner_node_child_output ::
    "('s \<Rightarrow> node_ptr \<Rightarrow> ('o \<times> 's) outcome) \<Rightarrow> ('o \<Rightarrow> 'o \<Rightarrow> 'o) \<Rightarrow> 'o \<Rightarrow> 's
      \<Rightarrow> (byte \<times> node_ptr) list \<Rightarrow> ('o \<times> 's) outcome" where
  "combine_inner_node_child_output visit_with combine default_output s iter =
     (case iter of
        (_, first) # rest \<Rightarrow>
          and_then (visit_with s first) (\<lambda>(accum, s). combine_rest visit_with combine accum s rest)
      | [] \<Rightarrow> Ret (default_output, s))"

section \<open>The statistics\<close>

record inner_node_stats =
  stats_count :: nat
  total_slots :: nat
  sum_slots :: nat
  total_header_bytes :: nat
  sum_prefix_len_bytes :: nat
  sum_capped_prefix_len_bytes :: nat
  max_prefix_len_bytes :: nat
  stats_mem_usage :: nat

record leaf_stats =
  leaf_count :: nat
  sum_key_bytes :: nat
  leaf_mem_usage :: nat

record tree_stats =
  stats_node4 :: inner_node_stats
  stats_node16 :: inner_node_stats
  stats_node48 :: inner_node_stats
  stats_node256 :: inner_node_stats
  stats_tree :: inner_node_stats
  stats_leaf :: leaf_stats

definition inner_stats_default :: inner_node_stats where
  "inner_stats_default = \<lparr>stats_count = 0, total_slots = 0, sum_slots = 0, total_header_bytes = 0,
     sum_prefix_len_bytes = 0, sum_capped_prefix_len_bytes = 0, max_prefix_len_bytes = 0, stats_mem_usage = 0\<rparr>"

definition tree_stats_default :: tree_stats where
  "tree_stats_default = \<lparr>stats_node4 = inner_stats_default, stats_node16 = inner_stats_default,
     stats_node48 = inner_stats_default, stats_node256 = inner_stats_default, stats_tree = inner_stats_default,
     stats_leaf = \<lparr>leaf_count = 0, sum_key_bytes = 0, leaf_mem_usage = 0\<rparr>\<rparr>"

definition aggregate_data ::
    "(node_type \<Rightarrow> nat) \<Rightarrow> nat \<Rightarrow> inner_node_stats \<Rightarrow> node_ptr inner \<Rightarrow> inner_node_stats" where
  "aggregate_data size_of PREFIX_LEN s t =
     \<lparr>stats_count = stats_count s + 1,
      total_slots = total_slots s + upper_capacity (inner_type t),
      sum_slots = sum_slots s + num_children (inner_header t),
      total_header_bytes = total_header_bytes s + PREFIX_LEN,
      sum_prefix_len_bytes = sum_prefix_len_bytes s + prefix_len (inner_header t),
      sum_capped_prefix_len_bytes = sum_capped_prefix_len_bytes s + capped_prefix_len (inner_header t),
      max_prefix_len_bytes = max (max_prefix_len_bytes s) (prefix_len (inner_header t)),
      stats_mem_usage = stats_mem_usage s + size_of (inner_type t)\<rparr>"

definition free_slots :: "inner_node_stats \<Rightarrow> nat outcome" where
  "free_slots s = (if sum_slots s \<le> total_slots s then Ret (total_slots s - sum_slots s) else Panic)"

definition free_header_bytes :: "inner_node_stats \<Rightarrow> nat outcome" where
  "free_header_bytes s =
     (if sum_capped_prefix_len_bytes s \<le> total_header_bytes s
      then Ret (total_header_bytes s - sum_capped_prefix_len_bytes s) else Panic)"

definition node_size :: "inner_node_stats \<Rightarrow> nat option" where
  "node_size s = (if stats_count s = 0 then None else Some (stats_mem_usage s div stats_count s))"

definition inner_stats_add :: "inner_node_stats \<Rightarrow> inner_node_stats \<Rightarrow> inner_node_stats" where
  "inner_stats_add a b =
     \<lparr>stats_count = stats_count a + stats_count b,
      total_slots = total_slots a + total_slots b,
      sum_slots = sum_slots a + sum_slots b,
      total_header_bytes = total_header_bytes a + total_header_bytes b,
      sum_prefix_len_bytes = sum_prefix_len_bytes a + sum_prefix_len_bytes b,
      sum_capped_prefix_len_bytes = sum_capped_prefix_len_bytes a + sum_capped_prefix_len_bytes b,
      max_prefix_len_bytes = max (max_prefix_len_bytes a) (max_prefix_len_bytes b),
      stats_mem_usage = stats_mem_usage a + stats_mem_usage b\<rparr>"

definition total_memory_usage :: "tree_stats \<Rightarrow> nat" where
  "total_memory_usage s = stats_mem_usage (stats_tree s) + leaf_mem_usage (stats_leaf s)"

definition stats_visit_inner ::
    "(node_type \<Rightarrow> nat) \<Rightarrow> nat \<Rightarrow> tree_stats \<Rightarrow> node_ptr inner \<Rightarrow> tree_stats" where
  \<comment> \<open>\<open>visit_node4\<close> to \<open>visit_node256\<close>, after the children\<close>
  "stats_visit_inner size_of PREFIX_LEN s t =
     (let agg = \<lambda>x. aggregate_data size_of PREFIX_LEN x t;
          s = (case inner_type t of
                 Node4 \<Rightarrow> s\<lparr>stats_node4 := agg (stats_node4 s)\<rparr>
               | Node16 \<Rightarrow> s\<lparr>stats_node16 := agg (stats_node16 s)\<rparr>
               | Node48 \<Rightarrow> s\<lparr>stats_node48 := agg (stats_node48 s)\<rparr>
               | Node256 \<Rightarrow> s\<lparr>stats_node256 := agg (stats_node256 s)\<rparr>
               | LeafKind \<Rightarrow> s) in
      s\<lparr>stats_tree := agg (stats_tree s)\<rparr>)"

definition stats_visit_leaf :: "(node_type \<Rightarrow> nat) \<Rightarrow> tree_stats \<Rightarrow> ('k, 'v) leaf \<Rightarrow> tree_stats" where
  "stats_visit_leaf size_of s t =
     s\<lparr>stats_leaf := \<lparr>leaf_count = leaf_count (stats_leaf s) + 1,
        sum_key_bytes = sum_key_bytes (stats_leaf s) + length (as_bytes (leaf_key t)),
        leaf_mem_usage = leaf_mem_usage (stats_leaf s) + size_of LeafKind\<rparr>\<rparr>"

fun stats_visit_with ::
    "(node_type \<Rightarrow> nat) \<Rightarrow> nat \<Rightarrow> nat \<Rightarrow> ('k, 'v) heap \<Rightarrow> tree_stats \<Rightarrow> node_ptr \<Rightarrow> (unit \<times> tree_stats) outcome" where
  "stats_visit_with size_of PREFIX_LEN 0 hp s p = NoFuel"
| "stats_visit_with size_of PREFIX_LEN (Suc fuel) hp s p =
     (if ptr_type p = LeafKind then and_then (read_leaf hp p) (\<lambda>t. Ret ((), stats_visit_leaf size_of s t))
      else
        and_then (read_inner hp p) (\<lambda>t.
        and_then (inner_iter t) (\<lambda>iter.
        and_then (combine_inner_node_child_output (stats_visit_with size_of PREFIX_LEN fuel hp) (\<lambda>_ _. ()) () s iter)
          (\<lambda>(_, s). Ret ((), stats_visit_inner size_of PREFIX_LEN s t)))))"

definition collect ::
    "(node_type \<Rightarrow> nat) \<Rightarrow> nat \<Rightarrow> ('k, 'v) heap \<Rightarrow> treemap \<Rightarrow> tree_stats option outcome" where
  "collect size_of PREFIX_LEN hp m =
     (case map_root m of
        Some root \<Rightarrow>
          and_then (stats_visit_with size_of PREFIX_LEN (Suc (next_addr hp)) hp tree_stats_default root)
            (\<lambda>(_, current). Ret (Some current))
      | None \<Rightarrow> Ret None)"

fun count_visit_with :: "nat \<Rightarrow> ('k, 'v) heap \<Rightarrow> unit \<Rightarrow> node_ptr \<Rightarrow> (nat \<times> unit) outcome" where
  \<comment> \<open>\<open>LeafNodeCounter\<close>, which has no state\<close>
  "count_visit_with 0 hp s p = NoFuel"
| "count_visit_with (Suc fuel) hp s p =
     (if ptr_type p = LeafKind then and_then (read_leaf hp p) (\<lambda>_. Ret (1, s))
      else
        and_then (read_inner hp p) (\<lambda>t.
        and_then (inner_iter t) (\<lambda>iter.
        combine_inner_node_child_output (count_visit_with fuel hp) (+) 0 s iter)))"

definition count_leaf_nodes :: "('k, 'v) heap \<Rightarrow> treemap \<Rightarrow> nat outcome" where
  "count_leaf_nodes hp m =
     (case map_root m of
        Some root \<Rightarrow> and_then (count_visit_with (Suc (next_addr hp)) hp () root) (\<lambda>(n, _). Ret n)
      | None \<Rightarrow> Ret 0)"

section \<open>Visitors in general\<close>

lemma combine_rest_spec:
  assumes "\<And>b t s. (b, t) \<in> set ch \<Longrightarrow> visit s (root_ptr t) = Ret (out t, upd t s)"
  shows "combine_rest visit combine acc s (child_ptrs ch)
    = Ret (foldl combine acc (map (out \<circ> snd) ch), fold upd (map snd ch) s)"
  using assms
proof (induction ch arbitrary: acc s)
  case (Cons x ch)
  obtain b t where x: "x = (b, t)" by (cases x)
  have "visit s (root_ptr t) = Ret (out t, upd t s)" using Cons.prems [of b t] x by simp
  moreover have "combine_rest visit combine acc s (child_ptrs ch)
    = Ret (foldl combine acc (map (out \<circ> snd) ch), fold upd (map snd ch) s)" for acc s
    by (rule Cons.IH) (use Cons.prems in auto)
  ultimately show ?case by (simp add: x child_ptrs_def comp_def)
qed (simp add: child_ptrs_def)

lemma combine_children_spec:
  assumes "\<And>b t s. (b, t) \<in> set ch \<Longrightarrow> visit s (root_ptr t) = Ret (out t, upd t s)" "ch \<noteq> []"
  shows "combine_inner_node_child_output visit combine d s (child_ptrs ch)
    = Ret (foldl combine (out (snd (hd ch))) (map (out \<circ> snd) (tl ch)), fold upd (map snd ch) s)"
proof -
  obtain b t ch' where ch: "ch = (b, t) # ch'" using assms(2) by (cases ch) auto
  have "visit s (root_ptr t) = Ret (out t, upd t s)" using assms(1) [of b t] ch by simp
  moreover have "combine_rest visit combine acc s (child_ptrs ch')
    = Ret (foldl combine acc (map (out \<circ> snd) ch'), fold upd (map snd ch') s)" for acc s
    using assms(1) ch by (intro combine_rest_spec) auto
  ultimately show ?thesis
    by (simp add: ch combine_inner_node_child_output_def child_ptrs_def)
qed

text \<open>\<open>out t\<close> is the output of a visit of the tree \<open>t\<close> and \<open>upd t\<close> its effect on the state.\<close>

locale visitor =
  fixes visit_with :: "nat \<Rightarrow> ('k, 'v) heap \<Rightarrow> 's \<Rightarrow> node_ptr \<Rightarrow> ('o \<times> 's) outcome"
    and combine :: "'o \<Rightarrow> 'o \<Rightarrow> 'o"
    and default_output :: 'o
    and on_leaf :: "('k, 'v) leaf \<Rightarrow> 's \<Rightarrow> 'o \<times> 's"
    and on_inner :: "node_ptr inner \<Rightarrow> 'o \<Rightarrow> 's \<Rightarrow> 'o \<times> 's"
    and N :: nat
    and out :: "('k, 'v) art \<Rightarrow> 'o"
    and upd :: "('k, 'v) art \<Rightarrow> 's \<Rightarrow> 's"
  assumes visit_leaf: "read_leaf hp (Ptr LeafKind a) = Ret l \<Longrightarrow>
      visit_with (Suc fuel) hp s (Ptr LeafKind a) = Ret (on_leaf l s)"
    and visit_inner: "ty \<noteq> LeafKind \<Longrightarrow> read_inner hp (Ptr ty a) = Ret n \<Longrightarrow> inner_iter n = Ret cs \<Longrightarrow>
      visit_with (Suc fuel) hp s (Ptr ty a) =
        and_then (combine_inner_node_child_output (visit_with fuel hp) combine default_output s cs)
          (\<lambda>(o1, s). Ret (on_inner n o1 s))"
    and on_leaf: "on_leaf \<lparr>leaf_key = k, leaf_value = v\<rparr> s = (out (ALeaf a k v), upd (ALeaf a k v) s)"
    and on_inner: "node_ok N n ty pf (child_ptrs ch) \<Longrightarrow> ch \<noteq> [] \<Longrightarrow>
      on_inner n (foldl combine (out (snd (hd ch))) (map (out \<circ> snd) (tl ch))) (fold upd (map snd ch) s)
        = (out (AInner a ty pf ch), upd (AInner a ty pf ch) s)"
begin

lemma visit_spec:
  assumes "represents N hp t" "wf_art path t" "height t < fuel"
  shows "visit_with fuel hp s (root_ptr t) = Ret (out t, upd t s)"
  using assms
proof (induction t arbitrary: path fuel s)
  case (ALeaf a k v)
  then show ?case
    using visit_leaf [OF read_leaf_Ret [OF ALeaf.prems(1)]] on_leaf by (cases fuel) auto
next
  case (AInner a ty pf ch)
  obtain f where f: "fuel = Suc f" using AInner.prems(3) by (cases fuel) auto
  have ne: "ch \<noteq> []" using wf_inner_ge2 [OF AInner.prems(2)] by auto
  obtain n where n: "read_inner hp (Ptr ty a) = Ret n" "node_ok N n ty pf (child_ptrs ch)"
    using read_inner_Ret [OF AInner.prems(1)] by metis
  have "visit_with f hp s (root_ptr t) = Ret (out t, upd t s)" if "(b, t) \<in> set ch" for b t s
    using AInner.IH [OF that _ wf_child [OF AInner.prems(2) that], of f s] that
      height_child [OF that, of a ty pf] AInner.prems(1,3) f by auto
  note children = combine_children_spec [where visit = "visit_with f hp", OF this ne]
  show ?case
    using visit_inner [OF _ n(1) node_okD(8) [OF n(2)], of f s] AInner.prems(2)
    by (simp add: f children on_inner [OF n(2) ne])
qed

lemma visit_map:
  assumes "map_state N fr m hp (Some t)"
  shows "visit_with (Suc (next_addr hp)) hp s (root_ptr t) = Ret (out t, upd t s)"
  using assms holds_height [of N hp t]
  by (intro visit_spec [where path = "[]"]) (auto simp: map_state_def holds_def less_SucI)

end

section \<open>Counting leaves\<close>

lemma foldl_plus: "foldl (+) x xs = x + sum_list (xs :: nat list)"
  by (induction xs arbitrary: x) auto

lemma length_leaves_Inner: "length (leaves (AInner a ty pf ch)) = sum_list (map ((length \<circ> leaves) \<circ> snd) ch)"
  by (simp add: length_concat comp_def split_def)

interpretation counter: visitor count_visit_with "(+)" "0 :: nat" "\<lambda>_ s. (1, s)" "\<lambda>_ n s. (n, s)" N
    "length \<circ> leaves :: ('k, 'v) art \<Rightarrow> nat" "\<lambda>_ s. s"
proof unfold_locales
  fix ch :: "(byte \<times> ('k, 'v) art) list" and ty and a and pf :: bytes and s :: unit and n :: "node_ptr inner"
  assume "ch \<noteq> []"
  then show "(foldl (+) ((length \<circ> leaves) (snd (hd ch))) (map ((length \<circ> leaves) \<circ> snd) (tl ch)),
      fold (\<lambda>_ s. s) (map snd ch) s) = ((length \<circ> leaves) (AInner a ty pf ch), s)"
    by (cases ch) (simp_all add: foldl_plus o_apply [of length leaves "AInner a ty pf ch"] length_leaves_Inner comp_def
        del: leaves.simps)
next
  fix ty a n fuel and hp :: "('k, 'v) heap" and s :: unit and cs
  assume "ty \<noteq> LeafKind" "read_inner hp (Ptr ty a) = Ret n" "inner_iter n = Ret cs"
  moreover have "and_then x (\<lambda>(o1 :: nat, s :: unit). Ret (o1, s)) = x" for x by (cases x) auto
  ultimately show "count_visit_with (Suc fuel) hp s (Ptr ty a)
      = and_then (combine_inner_node_child_output (count_visit_with fuel hp) (+) 0 s cs) (\<lambda>(o1, s). Ret (o1, s))"
    by simp
qed simp_all

lemma count_leaf_nodes_spec: "map_state N fr m hp T \<Longrightarrow> count_leaf_nodes hp m = Ret (len_map m)"
  using counter.visit_map [of N fr m hp _ "()"]
  by (cases T) (auto simp: count_leaf_nodes_def map_state_def len_map_def entries_def simp del: count_visit_with.simps)

section \<open>Collecting the statistics\<close>

text \<open>The effect of a node on the statistics, from its kind, path and number of children.\<close>

definition stats_node :: "(node_type \<Rightarrow> nat) \<Rightarrow> nat \<Rightarrow> node_type \<Rightarrow> bytes \<Rightarrow> nat \<Rightarrow> inner_node_stats \<Rightarrow> inner_node_stats" where
  "stats_node size_of N ty pf n s = inner_stats_add s
     \<lparr>stats_count = 1, total_slots = upper_capacity ty, sum_slots = n, total_header_bytes = N,
      sum_prefix_len_bytes = length pf, sum_capped_prefix_len_bytes = min (length pf) N,
      max_prefix_len_bytes = length pf, stats_mem_usage = size_of ty\<rparr>"

definition stats_effect :: "(node_type \<Rightarrow> nat) \<Rightarrow> nat \<Rightarrow> node_type \<Rightarrow> bytes \<Rightarrow> nat \<Rightarrow> tree_stats \<Rightarrow> tree_stats" where
  "stats_effect size_of N ty pf n s =
     (let agg = stats_node size_of N ty pf n;
          s = (case ty of
                 Node4 \<Rightarrow> s\<lparr>stats_node4 := agg (stats_node4 s)\<rparr>
               | Node16 \<Rightarrow> s\<lparr>stats_node16 := agg (stats_node16 s)\<rparr>
               | Node48 \<Rightarrow> s\<lparr>stats_node48 := agg (stats_node48 s)\<rparr>
               | Node256 \<Rightarrow> s\<lparr>stats_node256 := agg (stats_node256 s)\<rparr>
               | LeafKind \<Rightarrow> s) in
      s\<lparr>stats_tree := agg (stats_tree s)\<rparr>)"

fun stats_of :: "(node_type \<Rightarrow> nat) \<Rightarrow> nat \<Rightarrow> ('k, 'v) art \<Rightarrow> tree_stats \<Rightarrow> tree_stats" where
  "stats_of size_of N (ALeaf a k v) s = stats_visit_leaf size_of s \<lparr>leaf_key = k, leaf_value = v\<rparr>"
| "stats_of size_of N (AInner a ty pf ch) s =
     stats_effect size_of N ty pf (length ch) (fold (\<lambda>(b, t) s. stats_of size_of N t s) ch s)"

lemma aggregate_data_node:
  "node_ok N n ty pf (child_ptrs ch) \<Longrightarrow> aggregate_data size_of N s n = stats_node size_of N ty pf (length ch) s"
  using node_okD [of N n ty pf ch] header_repr_lengths [of "inner_header n" pf]
  by (simp add: aggregate_data_def stats_node_def inner_stats_add_def)

interpretation stats: visitor "stats_visit_with size_of N" "\<lambda>_ _. ()" "()"
    "\<lambda>l s. ((), stats_visit_leaf size_of s l)" "\<lambda>n _ s. ((), stats_visit_inner size_of N s n)" N
    "\<lambda>_. ()" "stats_of size_of N :: ('k, 'v) art \<Rightarrow> tree_stats \<Rightarrow> tree_stats"
proof unfold_locales
  fix n :: "node_ptr inner" and ty pf and ch :: "(byte \<times> ('k, 'v) art) list" and s a
  assume n: "node_ok N n ty pf (child_ptrs ch)"
  have "fold (stats_of size_of N) (map snd ch) s = fold (\<lambda>(b, t) s. stats_of size_of N t s) ch s"
    by (simp add: fold_map comp_def split_def)
  then show "((), stats_visit_inner size_of N (fold (stats_of size_of N) (map snd ch) s) n)
      = ((), stats_of size_of N (AInner a ty pf ch) s)"
    using node_okD(1) [OF n] by (simp add: stats_visit_inner_def stats_effect_def aggregate_data_node [OF n] Let_def)
qed simp_all

text \<open>What the statistics should be: a summary of the list of inner nodes, children first.\<close>

fun inner_nodes :: "('k, 'v) art \<Rightarrow> (node_type \<times> bytes \<times> nat) list" where
  "inner_nodes (ALeaf a k v) = []"
| "inner_nodes (AInner a ty pf ch) = concat (map (\<lambda>(b, t). inner_nodes t) ch) @ [(ty, pf, length ch)]"

definition of_kind :: "node_type \<Rightarrow> (node_type \<times> bytes \<times> nat) list \<Rightarrow> (node_type \<times> bytes \<times> nat) list" where
  "of_kind ty xs = filter (\<lambda>(ty', _). ty' = ty) xs"

definition stats_summary :: "(node_type \<Rightarrow> nat) \<Rightarrow> nat \<Rightarrow> (node_type \<times> bytes \<times> nat) list \<Rightarrow> inner_node_stats" where
  "stats_summary size_of N xs =
     \<lparr>stats_count = length xs,
      total_slots = 4 * length (of_kind Node4 xs) + 16 * length (of_kind Node16 xs)
        + 48 * length (of_kind Node48 xs) + 256 * length (of_kind Node256 xs),
      sum_slots = sum_list (map (\<lambda>(ty, pf, n). n) xs),
      total_header_bytes = N * length xs,
      sum_prefix_len_bytes = sum_list (map (\<lambda>(ty, pf, n). length pf) xs),
      sum_capped_prefix_len_bytes = sum_list (map (\<lambda>(ty, pf, n). min (length pf) N) xs),
      max_prefix_len_bytes = Max (insert 0 ((\<lambda>(ty, pf, n). length pf) ` set xs)),
      stats_mem_usage = sum_list (map (\<lambda>(ty, pf, n). size_of ty) xs)\<rparr>"

lemma stats_summary_Cons:
  "inner_stats_add s (stats_summary size_of N ((ty, pf, n) # xs))
    = inner_stats_add (stats_node size_of N ty pf n s) (stats_summary size_of N xs)"
proof -
  let ?A = "(\<lambda>(ty, pf, n). length pf) ` set xs"
  have "Max (insert 0 (insert (length pf) ?A)) = max (length pf) (Max (insert 0 ?A))"
    by (subst insert_commute) (rule Max_insert; simp)
  then show ?thesis
    by (cases ty) (simp_all add: stats_summary_def of_kind_def inner_stats_add_def stats_node_def max.assoc)
qed

lemma fold_stats_node:
  "fold (\<lambda>(ty, pf, n). stats_node size_of N ty pf n) xs s = inner_stats_add s (stats_summary size_of N xs)"
proof (induction xs arbitrary: s)
  case Nil
  then show ?case by (simp add: stats_summary_def of_kind_def inner_stats_add_def)
qed (auto simp: stats_summary_Cons)

lemma stats_of_fold:
  fixes f :: "tree_stats \<Rightarrow> inner_node_stats" and t :: "('k, 'v) art"
  assumes leaf: "\<And>a k v s. f (stats_of size_of N (ALeaf a k v :: ('k, 'v) art) s) = f s"
    and node: "\<And>ty pf n s. f (stats_effect size_of N ty pf n s) = (if P ty then stats_node size_of N ty pf n (f s) else f s)"
  shows "f (stats_of size_of N t s)
    = fold (\<lambda>(ty, pf, n). stats_node size_of N ty pf n) (filter (\<lambda>(ty, _). P ty) (inner_nodes t)) (f s)"
proof (induction t arbitrary: s)
  case (AInner a ty pf ch)
  let ?F = "fold (\<lambda>(ty, pf, n). stats_node size_of N ty pf n)"
  have "\<forall>(b, t)\<in>set ch. \<forall>s. f (stats_of size_of N t s) = ?F (filter (\<lambda>(ty, _). P ty) (inner_nodes t)) (f s)"
    using AInner.IH by blast
  then have "f (fold (\<lambda>(b, t) s. stats_of size_of N t s) ch s)
      = ?F (filter (\<lambda>(ty, _). P ty) (concat (map (\<lambda>(b, t). inner_nodes t) ch))) (f s)"
    by (induction ch arbitrary: s) (auto simp: split_def)
  then show ?case by (simp add: node)
qed (simp only: leaf inner_nodes.simps filter.simps fold_simps)

lemma stats_of_summary:
  fixes t :: "('k, 'v) art" and size_of N
  defines "s \<equiv> stats_of size_of N t tree_stats_default"
  shows "stats_tree s = stats_summary size_of N (inner_nodes t)"
    "stats_node4 s = stats_summary size_of N (of_kind Node4 (inner_nodes t))"
    "stats_node16 s = stats_summary size_of N (of_kind Node16 (inner_nodes t))"
    "stats_node48 s = stats_summary size_of N (of_kind Node48 (inner_nodes t))"
    "stats_node256 s = stats_summary size_of N (of_kind Node256 (inner_nodes t))"
proof -
  have zero: "inner_stats_add inner_stats_default x = x" for x
    by (cases x) (simp add: inner_stats_add_def inner_stats_default_def)
  have read: "f s = stats_summary size_of N (filter (\<lambda>(ty, _). P ty) (inner_nodes t))"
    if "f tree_stats_default = inner_stats_default"
      and "\<And>a k v s. f (stats_of size_of N (ALeaf a k v :: ('k, 'v) art) s) = f s"
      and "\<And>ty pf n s. f (stats_effect size_of N ty pf n s) = (if P ty then stats_node size_of N ty pf n (f s) else f s)"
    for f P
    using stats_of_fold [of f size_of N P t, OF that(2,3)] by (simp add: s_def that(1) fold_stats_node zero)
  note defs = tree_stats_default_def stats_visit_leaf_def stats_effect_def Let_def
  show "stats_tree s = stats_summary size_of N (inner_nodes t)"
    using read [of stats_tree "\<lambda>_. True"] by (simp add: defs split: node_type.split)
  show "stats_node4 s = stats_summary size_of N (of_kind Node4 (inner_nodes t))"
    unfolding of_kind_def by (rule read) (simp_all add: defs split: node_type.split)
  show "stats_node16 s = stats_summary size_of N (of_kind Node16 (inner_nodes t))"
    unfolding of_kind_def by (rule read) (simp_all add: defs split: node_type.split)
  show "stats_node48 s = stats_summary size_of N (of_kind Node48 (inner_nodes t))"
    unfolding of_kind_def by (rule read) (simp_all add: defs split: node_type.split)
  show "stats_node256 s = stats_summary size_of N (of_kind Node256 (inner_nodes t))"
    unfolding of_kind_def by (rule read) (simp_all add: defs split: node_type.split)
qed

lemma node_size_of_kind:
  "node_size (stats_summary size_of N (of_kind ty xs)) = (if of_kind ty xs = [] then None else Some (size_of ty))"
proof -
  have "sum_list (map (\<lambda>(ty, pf, n). size_of ty) (of_kind ty xs)) = size_of ty * length (of_kind ty xs)"
    by (induction xs) (auto simp: of_kind_def)
  then show ?thesis by (simp add: node_size_def stats_summary_def)
qed

text \<open>A quantity of the statistics that every node adds to, and an invariant of them.\<close>

lemma stats_of_sum:
  fixes f :: "tree_stats \<Rightarrow> nat"
  assumes "\<And>a k v s. f (stats_of size_of N (ALeaf a k v) s) = f s + g (ALeaf a k v)"
    and "\<And>ty pf n s. f (stats_effect size_of N ty pf n s) = f s + c ty pf n"
    and "\<And>a ty pf ch. g (AInner a ty pf ch) = c ty pf (length ch) + sum_list (map (g \<circ> snd) ch)"
  shows "f (stats_of size_of N t s) = f s + g t"
proof (induction t arbitrary: s)
  case (AInner a ty pf ch)
  have "\<forall>(b, t)\<in>set ch. \<forall>s. f (stats_of size_of N t s) = f s + g t" using AInner.IH by blast
  then have "f (fold (\<lambda>(b, t) s. stats_of size_of N t s) ch s) = f s + sum_list (map (g \<circ> snd) ch)"
    by (induction ch arbitrary: s) (auto simp: split_def)
  then show ?case by (simp add: assms(2,3))
qed (rule assms(1))

lemma stats_of_inv:
  fixes t :: "('k, 'v) art"
  assumes "\<And>a k v s. P s \<Longrightarrow> P (stats_of size_of N (ALeaf a k v :: ('k, 'v) art) s)"
    and "\<And>ty pf n s. P s \<Longrightarrow> ty \<noteq> LeafKind \<Longrightarrow> n \<le> upper_capacity ty \<Longrightarrow> P (stats_effect size_of N ty pf n s)"
  shows "wf_art path t \<Longrightarrow> P s \<Longrightarrow> P (stats_of size_of N t s)"
proof (induction t arbitrary: path s)
  case (AInner a ty pf ch)
  have "P (stats_of size_of N t s)" if "(b, t) \<in> set ch" "P s" for b t s
    using AInner.IH [OF that(1) wf_child [OF AInner.prems(1) that(1)] that(2)] .
  then have "\<forall>(b, t)\<in>set ch. \<forall>s. P s \<longrightarrow> P (stats_of size_of N t s)" by blast
  then have "P (fold (\<lambda>(b, t) s. stats_of size_of N t s) ch s)"
    using AInner.prems(2) by (induction ch arbitrary: s) auto
  then show ?case using AInner.prems(1) by (simp add: assms(2) in_range_def)
qed (rule assms(1))

lemma sum_list_map_concat: "sum_list (map f (concat xss)) = sum_list (map (\<lambda>xs. sum_list (map f xs)) xss)"
  for f :: "'a \<Rightarrow> nat"
  by (induction xss) auto

lemmas stats_defs = stats_effect_def stats_node_def inner_stats_add_def stats_visit_leaf_def

lemma stats_of_numbers:
  fixes t :: "('k, 'v) art" and size_of N
  assumes "wf_art path t"
  defines "s \<equiv> stats_of size_of N t tree_stats_default"
  shows "leaf_count (stats_leaf s) = length (leaves t)"
    "sum_key_bytes (stats_leaf s) = sum_list (map (length \<circ> as_bytes \<circ> fst) (entries t))"
    "stats_count (stats_tree s) + leaf_count (stats_leaf s) = length (addrs t)"
    "sum_slots (stats_tree s) + 1 = length (addrs t)"
    "sum_slots (stats_tree s) \<le> total_slots (stats_tree s)"
    "sum_capped_prefix_len_bytes (stats_tree s) \<le> total_header_bytes (stats_tree s)"
    "stats_tree s = inner_stats_add (inner_stats_add (stats_node4 s) (stats_node16 s))
       (inner_stats_add (stats_node48 s) (stats_node256 s))"
proof -
  have L: "leaf_count (stats_leaf (stats_of size_of N t s)) = leaf_count (stats_leaf s) + length (leaves t)" for t :: "('k, 'v) art" and s
    by (rule stats_of_sum [where c = "\<lambda>_ _ _. 0"])
      (simp_all add: stats_defs Let_def length_concat comp_def split_def split: node_type.split)
  show "leaf_count (stats_leaf s) = length (leaves t)" by (simp add: s_def L tree_stats_default_def)
  have "sum_key_bytes (stats_leaf (stats_of size_of N t s)) = sum_key_bytes (stats_leaf s)
      + sum_list (map (length \<circ> as_bytes \<circ> fst) (entries t))" for s
    by (rule stats_of_sum [where c = "\<lambda>_ _ _. 0"])
      (simp_all add: stats_defs Let_def entries_def sum_list_map_concat comp_def split_def split: node_type.split)
  then show "sum_key_bytes (stats_leaf s) = sum_list (map (length \<circ> as_bytes \<circ> fst) (entries t))"
    by (simp add: s_def tree_stats_default_def)
  have "stats_count (stats_tree (stats_of size_of N t s)) + leaf_count (stats_leaf (stats_of size_of N t s))
      = stats_count (stats_tree s) + leaf_count (stats_leaf s) + length (addrs t)" for s
    by (rule stats_of_sum [where c = "\<lambda>_ _ _. 1" and f = "\<lambda>s. stats_count (stats_tree s) + leaf_count (stats_leaf s)"])
      (simp_all add: stats_defs Let_def length_concat comp_def split_def split: node_type.split)
  from this [of tree_stats_default] show "stats_count (stats_tree s) + leaf_count (stats_leaf s) = length (addrs t)"
    by (simp add: s_def tree_stats_default_def inner_stats_default_def)
  have "sum_slots (stats_tree (stats_of size_of N t s)) = sum_slots (stats_tree s) + (length (addrs t) - 1)" for s
  proof (rule stats_of_sum [where c = "\<lambda>_ _ n. n"])
    fix a ty pf and ch :: "(byte \<times> ('k, 'v) art) list"
    have "0 < length (addrs t)" for t :: "('k, 'v) art" by (cases t) auto
    then have "sum_list (map (\<lambda>(b, t). length (addrs t)) ch) = length ch + sum_list (map (\<lambda>(b, t). length (addrs t) - 1) ch)"
      by (induction ch) auto
    then show "length (addrs (AInner a ty pf ch)) - 1
        = length ch + sum_list (map ((\<lambda>t. length (addrs t) - 1) \<circ> snd) ch)"
      by (simp add: length_concat comp_def split_def)
  qed (simp_all add: stats_defs Let_def split: node_type.split)
  moreover have "0 < length (addrs t)" by (cases t) auto
  ultimately show "sum_slots (stats_tree s) + 1 = length (addrs t)"
    by (simp add: s_def tree_stats_default_def inner_stats_default_def)
  have "sum_slots (stats_tree s) \<le> total_slots (stats_tree s)
      \<and> sum_capped_prefix_len_bytes (stats_tree s) \<le> total_header_bytes (stats_tree s)"
    unfolding s_def
    by (rule stats_of_inv [OF _ _ assms(1)])
      (auto simp: stats_defs Let_def tree_stats_default_def inner_stats_default_def intro!: add_mono
        split: node_type.split)
  then show "sum_slots (stats_tree s) \<le> total_slots (stats_tree s)"
    "sum_capped_prefix_len_bytes (stats_tree s) \<le> total_header_bytes (stats_tree s)" by auto
  show "stats_tree s = inner_stats_add (inner_stats_add (stats_node4 s) (stats_node16 s))
       (inner_stats_add (stats_node48 s) (stats_node256 s))"
    unfolding s_def
    by (rule stats_of_inv [OF _ _ assms(1)])
      (auto simp: stats_defs Let_def tree_stats_default_def inner_stats_default_def split: node_type.split)
qed

lemma stats_of_leaves:
  fixes t :: "('k, 'v) art" and size_of N
  assumes "wf_art path t"
  defines "s \<equiv> stats_of size_of N t tree_stats_default"
  shows "stats_leaf s = \<lparr>leaf_count = length (leaves t),
    sum_key_bytes = sum_list (map (length \<circ> as_bytes \<circ> fst) (entries t)), leaf_mem_usage = length (leaves t) * size_of LeafKind\<rparr>"
proof -
  have "leaf_mem_usage (stats_leaf (stats_of size_of N t s)) = leaf_mem_usage (stats_leaf s) + length (leaves t) * size_of LeafKind"
    for t :: "('k, 'v) art" and s
    by (rule stats_of_sum [where c = "\<lambda>_ _ _. 0"])
      (simp_all add: stats_defs Let_def length_concat comp_def split_def sum_list_mult_const split: node_type.split)
  then have "leaf_mem_usage (stats_leaf s) = length (leaves t) * size_of LeafKind"
    by (simp add: s_def tree_stats_default_def)
  then show ?thesis
    using stats_of_numbers(1,2) [OF assms(1), of size_of N] by (simp add: s_def)
qed

section \<open>Properties of the visitors\<close>

text \<open>
  C31. The collected statistics are right, each number of them: those of the whole tree and those
  of each of the four kinds summarise the inner nodes of the tree, of that kind (\<open>stats_summary\<close>:
  how many there are, their slots and children, the stored and the full lengths of their paths,
  their size), and those of the leaves are the numbers of entries and of key bytes and the size of
  the leaves.  So inner nodes and leaves together are all nodes, the used slots are
  all nodes but the root, the numbers for the whole tree are the sum of those of the four kinds,
  \<open>free_slots\<close> and \<open>free_header_bytes\<close> do not underflow, and \<open>node_size\<close> of a kind is the size of
  its struct.  An empty map has no statistics and no leaf.
\<close>

theorem tree_statistics:
  assumes "map_state N fr m hp T"
  shows "case T of None \<Rightarrow> collect size_of N hp m = Ret None \<and> count_leaf_nodes hp m = Ret 0
    | Some t \<Rightarrow> (\<exists>s. collect size_of N hp m = Ret (Some s)
    \<and> stats_tree s = stats_summary size_of N (inner_nodes t)
    \<and> stats_node4 s = stats_summary size_of N (of_kind Node4 (inner_nodes t))
    \<and> stats_node16 s = stats_summary size_of N (of_kind Node16 (inner_nodes t))
    \<and> stats_node48 s = stats_summary size_of N (of_kind Node48 (inner_nodes t))
    \<and> stats_node256 s = stats_summary size_of N (of_kind Node256 (inner_nodes t))
    \<and> stats_leaf s = \<lparr>leaf_count = len_map m, sum_key_bytes = sum_list (map (length \<circ> as_bytes \<circ> fst) (entries t)),
        leaf_mem_usage = len_map m * size_of LeafKind\<rparr>
    \<and> stats_count (stats_tree s) + leaf_count (stats_leaf s) = card (set (addrs t))
    \<and> sum_slots (stats_tree s) + 1 = card (set (addrs t))
    \<and> stats_tree s = inner_stats_add (inner_stats_add (stats_node4 s) (stats_node16 s))
        (inner_stats_add (stats_node48 s) (stats_node256 s))
    \<and> total_memory_usage s
        = sum_list (map (\<lambda>(ty, pf, n). size_of ty) (inner_nodes t)) + len_map m * size_of LeafKind
    \<and> (\<forall>ty. node_size (stats_summary size_of N (of_kind ty (inner_nodes t)))
        = (if of_kind ty (inner_nodes t) = [] then None else Some (size_of ty)))
    \<and> free_slots (stats_tree s) = Ret (total_slots (stats_tree s) - sum_slots (stats_tree s))
    \<and> free_header_bytes (stats_tree s)
        = Ret (total_header_bytes (stats_tree s) - sum_capped_prefix_len_bytes (stats_tree s))
    \<and> count_leaf_nodes hp m = Ret (len_map m))"
proof (cases T)
  case None
  then show ?thesis using assms by (simp add: map_state_def collect_def count_leaf_nodes_def)
next
  case (Some t)
  have m: "map_state N fr m hp (Some t)" using assms Some by simp
  then have h: "wf_art [] t" "map_root m = Some (root_ptr t)" "distinct (addrs t)" "len_map m = length (leaves t)"
    by (simp_all add: map_state_def holds_def len_map_def entries_def)
  define s where "s = stats_of size_of N t tree_stats_default"
  have "collect size_of N hp m = Ret (Some s)"
    by (simp add: collect_def h(2) stats.visit_map [OF m] s_def del: stats_visit_with.simps)
  moreover have "total_memory_usage s
      = sum_list (map (\<lambda>(ty, pf, n). size_of ty) (inner_nodes t)) + len_map m * size_of LeafKind"
    using stats_of_summary(1) [of size_of N t] stats_of_leaves [OF h(1), of size_of N] h(4)
    by (simp add: total_memory_usage_def s_def stats_summary_def)
  ultimately have "collect size_of N hp m = Ret (Some s)
    \<and> total_memory_usage s
      = sum_list (map (\<lambda>(ty, pf, n). size_of ty) (inner_nodes t)) + len_map m * size_of LeafKind" by blast
  moreover note stats_of_summary [of size_of N t, folded s_def] stats_of_leaves [OF h(1), of size_of N, folded s_def]
    stats_of_numbers [OF h(1), of size_of N, folded s_def]
  ultimately show ?thesis
    unfolding Some option.case
    using distinct_card [OF h(3)] h(4) count_leaf_nodes_spec [OF m] node_size_of_kind
    by (intro exI [of _ s]) (simp add: free_slots_def free_header_bytes_def)
qed

theorem tree_statistics_witness:
  "\<exists>s. collect (\<lambda>ty. if ty = Node4 then 64 else 32) 2 sample_heap sample_map = Ret (Some s)
    \<and> stats_node4 s = \<lparr>stats_count = 1, total_slots = 4, sum_slots = 2, total_header_bytes = 2,
        sum_prefix_len_bytes = 1, sum_capped_prefix_len_bytes = 1, max_prefix_len_bytes = 1, stats_mem_usage = 64\<rparr>
    \<and> stats_tree s = stats_node4 s \<and> stats_node16 s = inner_stats_default
    \<and> stats_leaf s = \<lparr>leaf_count = 2, sum_key_bytes = 4, leaf_mem_usage = 64\<rparr> \<and> free_slots (stats_tree s) = Ret 2"
  using tree_statistics [OF sample_state, of "\<lambda>ty. if ty = Node4 then 64 else 32"]
  by (auto simp: len_map_def sample_map_def sample_tree_def stats_summary_def of_kind_def inner_stats_default_def
      entries_def)

end
