(* ===== verification/Dot_Printer.thy ===== *)
theory Dot_Printer
  imports Tree_Map
begin

text \<open>
  The visitor that prints a tree as a graph in the dot language
  (\<open>src/src/nodes/visitor/pretty_printer.rs\<close>).

  The writer is the parameter \<open>wr\<close>: \<open>wr out s\<close> is the writer after \<open>s\<close> has been written to it,
  or \<open>None\<close> if that is an I/O error, which the printer passes on at once.  \<open>show_key\<close> and
  \<open>show_value\<close> are the user's \<open>Display\<close> implementations.  \<open>local_address\<close> stands for what
  \<open>{:p}\<close> prints, which is the address of a copy of the node on the stack.

  The lemmas show that the text is the one of a graph that has one vertex for each node of the
  tree, numbered in the order of the visit, and one edge for each node but the root.
\<close>

section \<open>Numbers and bytes as text\<close>

definition digit :: "nat \<Rightarrow> char" where
  "digit d = char_of (48 + d)"

fun show_nat :: "nat \<Rightarrow> string" where
  "show_nat n = (if n < 10 then [digit n] else show_nat (n div 10) @ [digit (n mod 10)])"

declare show_nat.simps [simp del]

fun show_elements :: "bytes \<Rightarrow> string" where
  "show_elements [] = ''''"
| "show_elements [b] = show_nat (unat b)"
| "show_elements (b # bs) = show_nat (unat b) @ '', '' @ show_elements bs"

definition show_bytes :: "bytes \<Rightarrow> string" where
  \<comment> \<open>\<open>{:?}\<close> of a byte slice\<close>
  "show_bytes bs = ''['' @ show_elements bs @ '']''"

fun show_node_type :: "node_type \<Rightarrow> string" where
  "show_node_type Node4 = ''Node4''"
| "show_node_type Node16 = ''Node16''"
| "show_node_type Node48 = ''Node48''"
| "show_node_type Node256 = ''Node256''"
| "show_node_type LeafKind = ''Leaf''"

abbreviation quote :: string where "quote \<equiv> [CHR 0x22]"
abbreviation newline :: string where "newline \<equiv> [CHR 0x0A]"

section \<open>The printer\<close>

record 'o dot_printer =
  dot_output :: 'o
  next_id :: nat
  display_node_address :: bool

definition io_then :: "'a option outcome \<Rightarrow> ('a \<Rightarrow> 'b option outcome) \<Rightarrow> 'b option outcome" where
  \<comment> \<open>the operator \<open>?\<close>\<close>
  "io_then m f = and_then m (\<lambda>r. case r of None \<Rightarrow> Ret None | Some x \<Rightarrow> f x)"

definition write_text ::
    "('o \<Rightarrow> string \<Rightarrow> 'o option) \<Rightarrow> 'o dot_printer \<Rightarrow> string \<Rightarrow> 'o dot_printer option outcome" where
  "write_text wr s chars = Ret (map_option (\<lambda>out. s\<lparr>dot_output := out\<rparr>) (wr (dot_output s) chars))"

definition output_prelude :: "('o \<Rightarrow> string \<Rightarrow> 'o option) \<Rightarrow> 'o dot_printer \<Rightarrow> 'o dot_printer option outcome" where
  "output_prelude wr s =
     io_then (write_text wr s (''strict digraph G {'' @ newline)) (\<lambda>s.
     write_text wr s (''node [shape=record]'' @ newline))"

definition output_epilogue :: "('o \<Rightarrow> string \<Rightarrow> 'o option) \<Rightarrow> 'o dot_printer \<Rightarrow> 'o dot_printer option outcome" where
  "output_epilogue wr s = write_text wr s (''}'' @ newline)"

definition get_id :: "'o dot_printer \<Rightarrow> nat \<times> 'o dot_printer" where
  "get_id s = (next_id s, s\<lparr>next_id := next_id s + 1\<rparr>)"

fun write_cells ::
    "('o \<Rightarrow> string \<Rightarrow> 'o option) \<Rightarrow> 'o dot_printer \<Rightarrow> nat \<Rightarrow> (byte \<times> node_ptr) list \<Rightarrow> 'o dot_printer option outcome" where
  \<comment> \<open>the first loop of \<open>write_inner_node\<close>\<close>
  "write_cells wr s idx [] = Ret (Some s)"
| "write_cells wr s idx ((key_fragment, _) # rest) =
     io_then (write_text wr s
       ((if idx = 0 then ''<c'' else ''| <c'') @ show_nat idx @ ''> '' @ show_nat (unat key_fragment))) (\<lambda>s.
     write_cells wr s (Suc idx) rest)"

fun write_edges ::
    "('o \<Rightarrow> string \<Rightarrow> 'o option) \<Rightarrow> ('o dot_printer \<Rightarrow> node_ptr \<Rightarrow> (nat \<times> 'o dot_printer) option outcome)
      \<Rightarrow> 'o dot_printer \<Rightarrow> nat \<Rightarrow> nat \<Rightarrow> (byte \<times> node_ptr) list \<Rightarrow> 'o dot_printer option outcome" where
  \<comment> \<open>the second loop of \<open>write_inner_node\<close>\<close>
  "write_edges wr visit_with s node_id key_frag_id [] = Ret (Some s)"
| "write_edges wr visit_with s node_id key_frag_id ((_, child) # rest) =
     io_then (visit_with s child) (\<lambda>(child_id, s).
     io_then (write_text wr s (''n'' @ show_nat node_id @ '':c'' @ show_nat key_frag_id
       @ '' -> n'' @ show_nat child_id @ '':h0'' @ newline)) (\<lambda>s.
     write_edges wr visit_with s node_id (Suc key_frag_id) rest))"

definition write_inner_node ::
    "('o \<Rightarrow> string \<Rightarrow> 'o option) \<Rightarrow> (nat \<Rightarrow> string)
      \<Rightarrow> ('o dot_printer \<Rightarrow> node_ptr \<Rightarrow> (nat \<times> 'o dot_printer) option outcome)
      \<Rightarrow> 'o dot_printer \<Rightarrow> node_ptr inner \<Rightarrow> (nat \<times> 'o dot_printer) option outcome" where
  "write_inner_node wr local_address visit_with s node =
     (let header = inner_header node; (node_id, s) = get_id s in
      io_then (write_text wr s (''n'' @ show_nat node_id @ '' '')) (\<lambda>s.
      io_then (write_text wr s (''[label='' @ quote @ ''{'')) (\<lambda>s.
      io_then (write_text wr s
        (if display_node_address s
         then ''{<h0> '' @ local_address node_id @ ''}  | {'' @ show_node_type (inner_type node) @ '' | ''
           @ show_nat (prefix_len header) @ '' | '' @ show_bytes (read_prefix header) @ ''} | {''
         else ''{<h0> '' @ show_node_type (inner_type node) @ '' | ''
           @ show_nat (prefix_len header) @ '' | '' @ show_bytes (read_prefix header) @ ''} | {'')) (\<lambda>s.
      and_then (inner_iter node) (\<lambda>child_it.
      io_then (write_cells wr s 0 child_it) (\<lambda>s.
      io_then (write_text wr s (''}}'' @ quote @ '']'' @ newline)) (\<lambda>s.
      and_then (inner_iter node) (\<lambda>child_it.
      io_then (write_edges wr visit_with s node_id 0 child_it) (\<lambda>s.
      Ret (Some (node_id, s)))))))))))"

definition dot_visit_leaf ::
    "('o \<Rightarrow> string \<Rightarrow> 'o option) \<Rightarrow> (nat \<Rightarrow> string) \<Rightarrow> ('k key \<Rightarrow> string) \<Rightarrow> ('v \<Rightarrow> string)
      \<Rightarrow> 'o dot_printer \<Rightarrow> ('k, 'v) leaf \<Rightarrow> (nat \<times> 'o dot_printer) option outcome" where
  "dot_visit_leaf wr local_address show_key show_value s t =
     (let (node_id, s) = get_id s in
      io_then (write_text wr s (''n'' @ show_nat node_id @ '' '')) (\<lambda>s.
      io_then (write_text wr s (''[label='' @ quote @ ''{'')) (\<lambda>s.
      io_then (write_text wr s
        (if display_node_address s
         then ''{<h0> '' @ local_address node_id @ ''} | {'' @ show_node_type LeafKind @ ''} | {''
           @ show_key (leaf_key t) @ ''} | {'' @ show_value (leaf_value t) @ ''}}'' @ quote @ '']'' @ newline
         else ''{<h0> '' @ show_node_type LeafKind @ ''} | {''
           @ show_key (leaf_key t) @ ''} | {'' @ show_value (leaf_value t) @ ''}}'' @ quote @ '']'' @ newline)) (\<lambda>s.
      Ret (Some (node_id, s))))))"

fun dot_visit_with ::
    "('o \<Rightarrow> string \<Rightarrow> 'o option) \<Rightarrow> (nat \<Rightarrow> string) \<Rightarrow> ('k key \<Rightarrow> string) \<Rightarrow> ('v \<Rightarrow> string)
      \<Rightarrow> nat \<Rightarrow> ('k, 'v) heap \<Rightarrow> 'o dot_printer \<Rightarrow> node_ptr \<Rightarrow> (nat \<times> 'o dot_printer) option outcome" where
  "dot_visit_with wr local_address show_key show_value 0 hp s p = NoFuel"
| "dot_visit_with wr local_address show_key show_value (Suc fuel) hp s p =
     (if ptr_type p = LeafKind
      then and_then (read_leaf hp p) (\<lambda>t. dot_visit_leaf wr local_address show_key show_value s t)
      else
        and_then (read_inner hp p) (\<lambda>t.
        write_inner_node wr local_address
          (\<lambda>s p. dot_visit_with wr local_address show_key show_value fuel hp s p) s t))"

definition print_tree ::
    "('o \<Rightarrow> string \<Rightarrow> 'o option) \<Rightarrow> (nat \<Rightarrow> string) \<Rightarrow> ('k key \<Rightarrow> string) \<Rightarrow> ('v \<Rightarrow> string)
      \<Rightarrow> ('k, 'v) heap \<Rightarrow> 'o \<Rightarrow> node_ptr \<Rightarrow> bool \<Rightarrow> 'o dot_printer option outcome" where
  "print_tree wr local_address show_key show_value hp out tree with_address =
     io_then (output_prelude wr \<lparr>dot_output = out, next_id = 0, display_node_address = with_address\<rparr>) (\<lambda>visitor.
     io_then (dot_visit_with wr local_address show_key show_value (Suc (next_addr hp)) hp visitor tree) (\<lambda>(_, visitor).
     output_epilogue wr visitor))"

definition dot_print ::
    "('o \<Rightarrow> string \<Rightarrow> 'o option) \<Rightarrow> (nat \<Rightarrow> string) \<Rightarrow> ('k key \<Rightarrow> string) \<Rightarrow> ('v \<Rightarrow> string)
      \<Rightarrow> ('k, 'v) heap \<Rightarrow> 'o \<Rightarrow> treemap \<Rightarrow> bool \<Rightarrow> 'o dot_printer option option outcome" where
  \<comment> \<open>\<open>DotPrinter::print\<close>\<close>
  "dot_print wr local_address show_key show_value hp out m with_address =
     (case map_root m of None \<Rightarrow> Ret None
      | Some root \<Rightarrow>
          and_then (print_tree wr local_address show_key show_value hp out root with_address) (\<lambda>r. Ret (Some r)))"

section \<open>The graph of a tree\<close>

datatype dot_stmt = Vertex nat string | Edge nat nat nat

fun render :: "dot_stmt \<Rightarrow> string" where
  "render (Vertex i label) = ''n'' @ show_nat i @ '' [label='' @ quote @ label @ quote @ '']'' @ newline"
| "render (Edge i c j) = ''n'' @ show_nat i @ '':c'' @ show_nat c @ '' -> n'' @ show_nat j @ '':h0'' @ newline"

fun cells_label :: "nat \<Rightarrow> bytes \<Rightarrow> string" where
  "cells_label i [] = ''''"
| "cells_label i (b # bs) =
     (if i = 0 then ''<c'' else ''| <c'') @ show_nat i @ ''> '' @ show_nat (unat b) @ cells_label (Suc i) bs"

text \<open>With \<open>display_node_address\<close> the labels begin with an address; \<open>ad\<close> is how addresses are printed, if they are.\<close>

definition address_cell :: "(nat \<Rightarrow> string) option \<Rightarrow> nat \<Rightarrow> string \<Rightarrow> string" where
  "address_cell ad i separator = (case ad of None \<Rightarrow> '''' | Some address \<Rightarrow> address i @ separator)"

definition inner_label :: "(nat \<Rightarrow> string) option \<Rightarrow> nat \<Rightarrow> nat \<Rightarrow> node_type \<Rightarrow> bytes \<Rightarrow> bytes \<Rightarrow> string" where
  "inner_label ad i N ty pf ks =
     ''{{<h0> '' @ address_cell ad i ''}  | {'' @ show_node_type ty @ '' | '' @ show_nat (length pf) @ '' | '' @ show_bytes (take N pf)
       @ ''} | {'' @ cells_label 0 ks @ ''}}''"

definition leaf_label :: "(nat \<Rightarrow> string) option \<Rightarrow> nat \<Rightarrow> ('k key \<Rightarrow> string) \<Rightarrow> ('v \<Rightarrow> string) \<Rightarrow> 'k key \<Rightarrow> 'v \<Rightarrow> string" where
  "leaf_label ad i show_key show_value k v =
     ''{{<h0> '' @ address_cell ad i ''} | {'' @ ''Leaf} | {'' @ show_key k @ ''} | {'' @ show_value v @ ''}}''"

fun graph :: "(nat \<Rightarrow> string) option \<Rightarrow> nat \<Rightarrow> ('k key \<Rightarrow> string) \<Rightarrow> ('v \<Rightarrow> string) \<Rightarrow> nat \<Rightarrow> ('k, 'v) art \<Rightarrow> dot_stmt list"
  and graph_children ::
    "(nat \<Rightarrow> string) option \<Rightarrow> nat \<Rightarrow> ('k key \<Rightarrow> string) \<Rightarrow> ('v \<Rightarrow> string) \<Rightarrow> nat \<Rightarrow> nat \<Rightarrow> nat
      \<Rightarrow> (byte \<times> ('k, 'v) art) list \<Rightarrow> dot_stmt list" where
  "graph ad N sk sv i (ALeaf a k v) = [Vertex i (leaf_label ad i sk sv k v)]"
| "graph ad N sk sv i (AInner a ty pf ch) =
     Vertex i (inner_label ad i N ty pf (map fst ch)) # graph_children ad N sk sv i 0 (Suc i) ch"
| "graph_children ad N sk sv i c j [] = []"
| "graph_children ad N sk sv i c j ((b, t) # ch) =
     graph ad N sk sv j t @ Edge i c j # graph_children ad N sk sv i (Suc c) (j + length (addrs t)) ch"

definition dot_text :: "(nat \<Rightarrow> string) option \<Rightarrow> nat \<Rightarrow> ('k key \<Rightarrow> string) \<Rightarrow> ('v \<Rightarrow> string) \<Rightarrow> ('k, 'v) art \<Rightarrow> string" where
  "dot_text ad N sk sv t =
     ''strict digraph G {'' @ newline @ ''node [shape=record]'' @ newline
     @ concat (map render (graph ad N sk sv 0 t)) @ ''}'' @ newline"

fun vertices :: "dot_stmt list \<Rightarrow> nat list" where
  "vertices [] = []"
| "vertices (Vertex i label # g) = i # vertices g"
| "vertices (Edge i c j # g) = vertices g"

fun edges :: "dot_stmt list \<Rightarrow> (nat \<times> nat \<times> nat) list" where
  "edges [] = []"
| "edges (Vertex i label # g) = edges g"
| "edges (Edge i c j # g) = (i, c, j) # edges g"

lemma vertices_append [simp]: "vertices (g @ g') = vertices g @ vertices g'"
  by (induction g rule: vertices.induct) auto

lemma edges_append [simp]: "edges (g @ g') = edges g @ edges g'"
  by (induction g rule: edges.induct) auto

abbreviation tree_size :: "('k, 'v) art \<Rightarrow> nat" where
  "tree_size t \<equiv> length (addrs t)"

abbreviation children_size :: "(byte \<times> ('k, 'v) art) list \<Rightarrow> nat" where
  "children_size ch \<equiv> length (concat (map (\<lambda>(b, t). addrs t) ch))"

lemma tree_size_pos: "0 < tree_size t"
  by (cases t) auto

lemma graph_vertices:
  "vertices (graph ad N sk sv i t) = [i..<i + tree_size t]"
  "vertices (graph_children ad N sk sv i c j ch) = [j..<j + children_size ch]"
proof (induction ad N sk sv i t and ad N sk sv i c j ch rule: graph_graph_children.induct)
  case (4 ad N sk sv i c j b t ch)
  then show ?case
    using upt_add_eq_append [of j "j + tree_size t" "children_size ch"] by (simp add: add.assoc)
qed (simp_all add: upt_conv_Cons del: upt_Suc)

definition edge_targets :: "dot_stmt list \<Rightarrow> nat list" where
  "edge_targets g = map (\<lambda>(i, c, j). j) (edges g)"

lemma edge_targets_simps [simp]:
  "edge_targets [] = []" "edge_targets (Vertex i label # g) = edge_targets g"
  "edge_targets (Edge i c j # g) = j # edge_targets g" "edge_targets (g @ g') = edge_targets g @ edge_targets g'"
  by (simp_all add: edge_targets_def)

lemma graph_targets:
  "distinct (edge_targets (graph ad N sk sv i t))
    \<and> set (edge_targets (graph ad N sk sv i t)) = {i<..<i + tree_size t}"
  "distinct (edge_targets (graph_children ad N sk sv i c j ch))
    \<and> set (edge_targets (graph_children ad N sk sv i c j ch)) = {j..<j + children_size ch}"
proof (induction ad N sk sv i t and ad N sk sv i c j ch rule: graph_graph_children.induct)
  case (2 ad N sk sv i a ty pf ch)
  then show ?case by (simp add: atLeastSucLessThan_greaterThanLessThan)
next
  case (4 ad N sk sv i c j b t ch)
  have "{j..<j + (tree_size t + children_size ch)}
      = {j<..<j + tree_size t} \<union> {j} \<union> {j + tree_size t..<j + tree_size t + children_size ch}"
    using tree_size_pos [of t] by (auto simp del: length_greater_0_conv)
  then show ?case using 4 tree_size_pos [of t] by (simp add: add.assoc Int_commute) auto
qed auto

lemma graph_edges:
  "(a, c', b) \<in> set (edges (graph ad N sk sv i t)) \<Longrightarrow> i \<le> a \<and> a < b"
  "(a, c', b) \<in> set (edges (graph_children ad N sk sv i c j ch)) \<Longrightarrow> i < j \<Longrightarrow> i \<le> a \<and> a < b"
  by (induction ad N sk sv i t and ad N sk sv i c j ch rule: graph_graph_children.induct) fastforce+

section \<open>The printer writes the graph\<close>

definition lawful_writer :: "('o \<Rightarrow> string \<Rightarrow> 'o option) \<Rightarrow> bool" where
  "lawful_writer wr \<longleftrightarrow>
     (\<forall>out. wr out '''' = Some out)
     \<and> (\<forall>out a b. wr out (a @ b) = Option.bind (wr out a) (\<lambda>out. wr out b))"

lemma lawful_writerD:
  "lawful_writer wr \<Longrightarrow> wr out '''' = Some out"
  "lawful_writer wr \<Longrightarrow> wr out (a @ b) = Option.bind (wr out a) (\<lambda>out. wr out b)"
  by (auto simp: lawful_writer_def)

definition writes ::
    "('o \<Rightarrow> string \<Rightarrow> 'o option) \<Rightarrow> 'o \<Rightarrow> string \<Rightarrow> ('o \<Rightarrow> 'a) \<Rightarrow> 'a option outcome" where
  \<comment> \<open>what a step that writes the text and then returns \<open>g\<close> of the writer does\<close>
  "writes wr out chars g = Ret (map_option g (wr out chars))"

lemma io_then_writes:
  assumes "lawful_writer wr" "m = writes wr out a g" "\<And>out. f (g out) = writes wr out b h"
  shows "io_then m f = writes wr out (a @ b) h"
  by (cases "wr out a") (simp_all add: io_then_def assms(2,3) lawful_writerD(2) [OF assms(1)] writes_def)

lemma write_text_writes: "write_text wr s chars = writes wr (dot_output s) chars (\<lambda>out. s\<lparr>dot_output := out\<rparr>)"
  by (simp add: write_text_def writes_def)

lemma Ret_writes: "lawful_writer wr \<Longrightarrow> Ret (Some (g out)) = writes wr out '''' g"
  by (simp add: writes_def lawful_writerD(1))

lemma write_text_then:
  assumes "lawful_writer wr" "\<And>out. f (s\<lparr>dot_output := out\<rparr>) = writes wr out b h"
  shows "io_then (write_text wr s chars) f = writes wr (dot_output s) (chars @ b) h"
  by (rule io_then_writes [OF assms(1) write_text_writes assms(2)])

lemma write_cells_writes:
  assumes "lawful_writer wr"
  shows "write_cells wr s idx cs
    = writes wr (dot_output s) (cells_label idx (map fst cs)) (\<lambda>out. s\<lparr>dot_output := out\<rparr>)"
proof (induction cs arbitrary: s idx)
  case Nil
  then show ?case
    using Ret_writes [OF assms, of "\<lambda>out. s\<lparr>dot_output := out\<rparr>" "dot_output s"] by simp
next
  case (Cons x cs)
  obtain b p where x: "x = (b, p)" by (cases x)
  note step = write_text_then [OF assms, where f = "\<lambda>s. write_cells wr s (Suc idx) cs"
      and b = "cells_label (Suc idx) (map fst cs)" and h = "\<lambda>out. s\<lparr>dot_output := out\<rparr>" and s = s]
  show ?case
    by (simp only: x write_cells.simps, subst step) (simp_all add: Cons.IH)
qed

definition prints_tree ::
    "('o \<Rightarrow> string \<Rightarrow> 'o option) \<Rightarrow> (nat \<Rightarrow> string) option \<Rightarrow> nat \<Rightarrow> ('k key \<Rightarrow> string) \<Rightarrow> ('v \<Rightarrow> string)
      \<Rightarrow> ('o dot_printer \<Rightarrow> node_ptr \<Rightarrow> (nat \<times> 'o dot_printer) option outcome) \<Rightarrow> ('k, 'v) art \<Rightarrow> bool" where
  \<comment> \<open>a visit of the tree writes its graph and returns the number of its root\<close>
  "prints_tree wr ad N sk sv visit t \<longleftrightarrow>
     (\<forall>s. display_node_address s = (ad \<noteq> None) \<longrightarrow>
        visit s (root_ptr t) = writes wr (dot_output s) (concat (map render (graph ad N sk sv (next_id s) t)))
          (\<lambda>out. (next_id s, s\<lparr>next_id := next_id s + tree_size t, dot_output := out\<rparr>)))"

lemma write_edges_writes:
  assumes "lawful_writer wr"
    and "\<forall>(b, t)\<in>set ch. prints_tree wr ad N sk sv visit t"
    and "display_node_address s = (ad \<noteq> None)"
  shows "write_edges wr visit s i c (child_ptrs ch)
    = writes wr (dot_output s) (concat (map render (graph_children ad N sk sv i c (next_id s) ch)))
        (\<lambda>out. s\<lparr>next_id := next_id s + children_size ch, dot_output := out\<rparr>)"
  using assms(2,3)
proof (induction ch arbitrary: s c)
  case Nil
  then show ?case
    using Ret_writes [OF assms(1), of "\<lambda>out. s\<lparr>dot_output := out\<rparr>" "dot_output s"]
    by (simp add: child_ptrs_def)
next
  case (Cons x ch)
  obtain b t where x: "x = (b, t)" by (cases x)
  let ?s = "\<lambda>out. s\<lparr>next_id := next_id s + tree_size t, dot_output := out\<rparr>"
  let ?g = "\<lambda>out. s\<lparr>next_id := next_id s + children_size (x # ch), dot_output := out\<rparr>"
  have rest: "write_edges wr visit (?s out) i (Suc c) (child_ptrs ch)
      = writes wr out (concat (map render (graph_children ad N sk sv i (Suc c) (next_id s + tree_size t) ch))) ?g" for out
    using Cons.IH [of "?s out" "Suc c"] Cons.prems by (simp add: x add.assoc)
  have edge: "io_then (write_text wr (?s out) (render (Edge i c (next_id s)))) (\<lambda>s. write_edges wr visit s i (Suc c) (child_ptrs ch))
      = writes wr out (render (Edge i c (next_id s))
          @ concat (map render (graph_children ad N sk sv i (Suc c) (next_id s + tree_size t) ch))) ?g" for out
    using write_text_then [OF assms(1), of "\<lambda>s. write_edges wr visit s i (Suc c) (child_ptrs ch)" "?s out"
      "concat (map render (graph_children ad N sk sv i (Suc c) (next_id s + tree_size t) ch))" ?g] rest
    by (simp del: render.simps)
  have child: "visit s (root_ptr t) = writes wr (dot_output s) (concat (map render (graph ad N sk sv (next_id s) t)))
      (\<lambda>out. (next_id s, ?s out))"
    using Cons.prems x by (simp add: prints_tree_def)
  show ?case
    using io_then_writes [OF assms(1) child, of "\<lambda>(child_id, s). io_then (write_text wr s (render (Edge i c child_id)))
      (\<lambda>s. write_edges wr visit s i (Suc c) (child_ptrs ch))"] edge
    by (simp add: x child_ptrs_def)
qed

lemma write_inner_node_writes:
  assumes wr: "lawful_writer wr" and n: "node_ok N n ty pf (child_ptrs ch)"
    and visit: "\<forall>(b, t)\<in>set ch. prints_tree wr ad N sk sv visit t"
    and s: "ad = (if display_node_address s then Some la else None)"
  shows "write_inner_node wr la visit s n
    = writes wr (dot_output s) (concat (map render (graph ad N sk sv (next_id s) (AInner a ty pf ch))))
        (\<lambda>out. (next_id s, s\<lparr>next_id := next_id s + tree_size (AInner a ty pf ch), dot_output := out\<rparr>))"
proof -
  note thn = write_text_then [OF wr] and n = node_okD [OF n]
  define i where "i = next_id s"
  let ?s = "\<lambda>out. s\<lparr>next_id := Suc i, dot_output := out\<rparr>"
  let ?g = "\<lambda>out. (i, s\<lparr>next_id := i + tree_size (AInner a ty pf ch), dot_output := out\<rparr>)"
  let ?edges = "concat (map render (graph_children ad N sk sv i 0 (Suc i) ch))"
  have header: "prefix_len (inner_header n) = length pf" "read_prefix (inner_header n) = take N pf"
    using n(3,4) header_repr_lengths(1) read_prefix_repr by metis+
  have 1: "io_then (write_edges wr visit (?s out) i 0 (child_ptrs ch)) (\<lambda>s. Ret (Some (i, s))) = writes wr out ?edges ?g" for out
    using io_then_writes [OF wr write_edges_writes [OF wr visit, of "?s out" i 0], of "\<lambda>s. Ret (Some (i, s))" "''''" ?g]
      Ret_writes [OF wr, of ?g] s by simp
  have cells: "map fst (child_ptrs ch) = map fst ch" by (simp add: child_ptrs_def comp_def split_def)
  have W: "io_then (write_text wr (?s out) chars) f = writes wr out (chars @ b) ?g"
    if "\<And>out. f (?s out) = writes wr out b ?g" for chars f b out
    using thn [of f "?s out" b ?g chars] that by simp
  let ?close = "''}}'' @ quote @ '']'' @ newline" and ?cells = "cells_label 0 (map fst ch)"
  have 2: "io_then (write_text wr (?s out) ?close) (\<lambda>s.
      io_then (write_edges wr visit s i 0 (child_ptrs ch)) (\<lambda>s. Ret (Some (i, s))))
    = writes wr out (?close @ ?edges) ?g" for out
    by (rule W) (rule 1)
  have 3: "io_then (write_cells wr (?s out) 0 (child_ptrs ch)) (\<lambda>s. io_then (write_text wr s ?close) (\<lambda>s.
      io_then (write_edges wr visit s i 0 (child_ptrs ch)) (\<lambda>s. Ret (Some (i, s)))))
    = writes wr out (?cells @ ?close @ ?edges) ?g" for out
    using io_then_writes [OF wr write_cells_writes [OF wr, of "?s out" 0 "child_ptrs ch"], of _ "?close @ ?edges" ?g] 2
    by (simp add: cells)
  let ?label = "''{<h0> '' @ address_cell ad i ''}  | {'' @ show_node_type ty @ '' | '' @ show_nat (length pf) @ '' | '' @ show_bytes (take N pf)
       @ ''} | {''"
  let ?rest = "\<lambda>s. io_then (write_cells wr s 0 (child_ptrs ch)) (\<lambda>s. io_then (write_text wr s ?close) (\<lambda>s.
      io_then (write_edges wr visit s i 0 (child_ptrs ch)) (\<lambda>s. Ret (Some (i, s)))))"
    and ?open = "''[label='' @ quote @ ''{''"
    and ?head = "\<lambda>s. if display_node_address s
         then ''{<h0> '' @ la i @ ''}  | {'' @ show_node_type ty @ '' | ''
           @ show_nat (length pf) @ '' | '' @ show_bytes (take N pf) @ ''} | {''
         else ''{<h0> '' @ show_node_type ty @ '' | '' @ show_nat (length pf) @ '' | '' @ show_bytes (take N pf) @ ''} | {''"
  have 4: "io_then (write_text wr (?s out) (?head (?s out))) ?rest
      = writes wr out (?label @ ?cells @ ?close @ ?edges) ?g" for out
    using W [of ?rest, OF 3] by (simp add: s address_cell_def)
  have 5: "io_then (write_text wr (?s out) ?open) (\<lambda>s. io_then (write_text wr s (?head s)) ?rest)
      = writes wr out (?open @ ?label @ ?cells @ ?close @ ?edges) ?g" for out
    by (rule W) (rule 4)
  have 6: "io_then (write_text wr (?s (dot_output s)) (''n'' @ show_nat i @ '' ''))
        (\<lambda>s. io_then (write_text wr s ?open) (\<lambda>s. io_then (write_text wr s (?head s)) ?rest))
      = writes wr (dot_output s) ((''n'' @ show_nat i @ '' '') @ ?open @ ?label @ ?cells @ ?close @ ?edges) ?g"
    by (rule W) (rule 5)
  have "write_inner_node wr la visit s n
      = io_then (write_text wr (?s (dot_output s)) (''n'' @ show_nat i @ '' ''))
        (\<lambda>s. io_then (write_text wr s ?open) (\<lambda>s. io_then (write_text wr s (?head s)) ?rest))"
    by (simp only: write_inner_node_def get_id_def i_def header n(1,8) Let_def prod.case and_then.simps)
      simp
  then show ?thesis unfolding 6 by (simp add: i_def inner_label_def)
qed

lemma dot_visit_leaf_writes:
  assumes wr: "lawful_writer wr" and s: "ad = (if display_node_address s then Some la else None)"
  shows "dot_visit_leaf wr la sk sv s \<lparr>leaf_key = k, leaf_value = v\<rparr>
    = writes wr (dot_output s) (concat (map render (graph ad N sk sv (next_id s) (ALeaf a k v))))
        (\<lambda>out. (next_id s, s\<lparr>next_id := next_id s + tree_size (ALeaf a k v), dot_output := out\<rparr>))"
proof -
  define i where "i = next_id s"
  let ?s = "\<lambda>out. s\<lparr>next_id := Suc i, dot_output := out\<rparr>" and ?g = "\<lambda>out. (i, s\<lparr>next_id := Suc i, dot_output := out\<rparr>)"
  let ?open = "''[label='' @ quote @ ''{''" and ?rest = "\<lambda>s. Ret (Some (i, s))"
    and ?tail = "''} | {'' @ sk k @ ''} | {'' @ sv v @ ''}}'' @ quote @ '']'' @ newline"
  let ?body = "\<lambda>s. if display_node_address s then ''{<h0> '' @ la i @ ''} | {'' @ show_node_type LeafKind @ ?tail
      else ''{<h0> '' @ show_node_type LeafKind @ ?tail"
  have W: "io_then (write_text wr (?s out) chars) f = writes wr out (chars @ b) ?g"
    if "\<And>out. f (?s out) = writes wr out b ?g" for chars f b out
    using write_text_then [OF wr, of f "?s out" b ?g chars] that by simp
  have 1: "io_then (write_text wr (?s out) (?body (?s out))) ?rest = writes wr out (?body s @ '''') ?g" for out
    using W [of ?rest "''''"] Ret_writes [OF wr, of ?g] s by simp
  have 2: "io_then (write_text wr (?s out) ?open) (\<lambda>s. io_then (write_text wr s (?body s)) ?rest)
      = writes wr out (?open @ ?body s @ '''') ?g" for out
    by (rule W) (rule 1)
  have 3: "io_then (write_text wr (?s (dot_output s)) (''n'' @ show_nat i @ '' ''))
        (\<lambda>s. io_then (write_text wr s ?open) (\<lambda>s. io_then (write_text wr s (?body s)) ?rest))
      = writes wr (dot_output s) ((''n'' @ show_nat i @ '' '') @ ?open @ ?body s @ '''') ?g"
    by (rule W) (rule 2)
  have "dot_visit_leaf wr la sk sv s \<lparr>leaf_key = k, leaf_value = v\<rparr>
      = io_then (write_text wr (?s (dot_output s)) (''n'' @ show_nat i @ '' ''))
        (\<lambda>s. io_then (write_text wr s ?open) (\<lambda>s. io_then (write_text wr s (?body s)) ?rest))"
    by (simp add: dot_visit_leaf_def get_id_def i_def Let_def cong: if_cong)
  then show ?thesis
    unfolding 3 using s by (cases "display_node_address s") (simp_all add: i_def leaf_label_def address_cell_def)
qed

lemma dot_visit_writes:
  assumes "lawful_writer wr" "represents N hp t" "wf_art path t" "height t < fuel"
  and ad: "ad = None \<or> ad = Some la"
  shows "prints_tree wr ad N sk sv (dot_visit_with wr la sk sv fuel hp) t"
  using assms(2-4)
proof (induction t arbitrary: path fuel)
  case (ALeaf a k v)
  then show ?case
    using read_leaf_Ret [OF ALeaf.prems(1)] ad
    by (cases fuel) (auto simp: prints_tree_def dot_visit_leaf_writes [OF assms(1), where N = N and a = a] simp del: graph.simps addrs.simps)
next
  case (AInner a ty pf ch)
  obtain f where f: "fuel = Suc f" using AInner.prems(3) by (cases fuel) auto
  obtain n where n: "read_inner hp (Ptr ty a) = Ret n" "node_ok N n ty pf (child_ptrs ch)" "ty \<noteq> LeafKind"
    using read_inner_Ret [OF AInner.prems(1)] by metis
  have "\<forall>(b, t)\<in>set ch. prints_tree wr ad N sk sv (dot_visit_with wr la sk sv f hp) t"
  proof clarify
    fix b t assume t: "(b, t) \<in> set ch"
    show "prints_tree wr ad N sk sv (dot_visit_with wr la sk sv f hp) t"
      using AInner.IH [OF t _ wf_child [OF AInner.prems(2) t], of f] t height_child [OF t, of a ty pf]
        AInner.prems(1,3) f by auto
  qed
  note inner = write_inner_node_writes [OF assms(1) n(2) this, of _ la a]
  have "ad = (if display_node_address s then Some la else None)" if "display_node_address s = (ad \<noteq> None)" for s :: "'a dot_printer"
    using ad that by auto
  then show ?case using n(1,3) inner by (simp add: f prints_tree_def del: graph.simps addrs.simps)
qed

lemma print_tree_writes:
  assumes wr: "lawful_writer wr" and m: "map_state N fr m hp (Some t)"
  shows "print_tree wr la sk sv hp out (root_ptr t) da
    = writes wr out (dot_text (if da then Some la else None) N sk sv t)
        (\<lambda>out. \<lparr>dot_output = out, next_id = tree_size t, display_node_address = da\<rparr>)"
proof -
  let ?s = "\<lambda>n out. \<lparr>dot_output = out, next_id = n, display_node_address = da\<rparr>"
    and ?ad = "if da then Some la else None"
  let ?graph = "concat (map render (graph ?ad N sk sv 0 t))"
  have prelude: "output_prelude wr (?s 0 out)
      = writes wr out ((''strict digraph G {'' @ newline) @ ''node [shape=record]'' @ newline) (?s 0)"
    unfolding output_prelude_def
    using write_text_then [OF wr, where s = "?s 0 out" and chars = "''strict digraph G {'' @ newline" and h = "?s 0"
        and b = "''node [shape=record]'' @ newline" and f = "\<lambda>s. write_text wr s (''node [shape=record]'' @ newline)"]
    by (simp add: write_text_writes)
  have "prints_tree wr ?ad N sk sv (dot_visit_with wr la sk sv (Suc (next_addr hp)) hp) t"
    using m holds_height [of N hp t]
    by (intro dot_visit_writes [OF wr, where path = "[]"]) (auto simp: map_state_def holds_def less_SucI)
  then have visit: "dot_visit_with wr la sk sv (Suc (next_addr hp)) hp (?s 0 out) (root_ptr t)
      = writes wr out ?graph (\<lambda>out. (0, ?s (tree_size t) out))" for out
    by (simp add: prints_tree_def del: dot_visit_with.simps)
  have epilogue: "output_epilogue wr (?s (tree_size t) out) = writes wr out (''}'' @ newline) (?s (tree_size t))" for out
    by (simp add: output_epilogue_def write_text_writes)
  have "io_then (dot_visit_with wr la sk sv (Suc (next_addr hp)) hp (?s 0 out) (root_ptr t))
      (\<lambda>(_, visitor). output_epilogue wr visitor) = writes wr out (?graph @ ''}'' @ newline) (?s (tree_size t))" for out
    by (rule io_then_writes [OF wr visit]) (simp add: epilogue del: append.simps)
  from io_then_writes [OF wr prelude this]
  show ?thesis by (simp add: print_tree_def dot_text_def del: dot_visit_with.simps)
qed

section \<open>Properties\<close>

text \<open>
  C32.  Printing a map writes the text of the graph of its tree to the writer and fails exactly if
  the writer refuses that text; an empty map prints nothing.  The vertices of the graph are
  numbered from 0 without a gap, and their labels begin with addresses if \<open>display_node_address\<close> is set; every vertex but the root is the target of exactly one edge,
  and edges lead from smaller to larger numbers.
\<close>

theorem dot_print_graph:
  assumes "lawful_writer wr" "map_state N fr m hp T"
  shows "case T of
      None \<Rightarrow> dot_print wr la sk sv hp out m da = Ret None
    | Some t \<Rightarrow>
        dot_print wr la sk sv hp out m da
          = Ret (Some (map_option (\<lambda>out. \<lparr>dot_output = out, next_id = length (addrs t), display_node_address = da\<rparr>)
              (wr out (dot_text (if da then Some la else None) N sk sv t))))
        \<and> vertices (graph (if da then Some la else None) N sk sv 0 t) = [0..<length (addrs t)]
        \<and> distinct (edge_targets (graph (if da then Some la else None) N sk sv 0 t))
        \<and> set (edge_targets (graph (if da then Some la else None) N sk sv 0 t)) = {1..<length (addrs t)}
        \<and> (\<forall>(a, c, b)\<in>set (edges (graph (if da then Some la else None) N sk sv 0 t)). a < b)"
proof (cases T)
  case None
  then show ?thesis using assms(2) by (simp add: map_state_def dot_print_def)
next
  case (Some t)
  have "map_root m = Some (root_ptr t)" using assms(2) Some by (simp add: map_state_def)
  moreover have "print_tree wr la sk sv hp out (root_ptr t) da
    = writes wr out (dot_text (if da then Some la else None) N sk sv t)
        (\<lambda>out. \<lparr>dot_output = out, next_id = tree_size t, display_node_address = da\<rparr>)"
    using print_tree_writes [OF assms(1), of N fr m hp t la sk sv out da] assms(2) Some by simp
  moreover have "{0<..<tree_size t} = {1..<tree_size t}" by auto
  ultimately show ?thesis
    using graph_vertices(1) [of "if da then Some la else None" N sk sv 0 t] graph_targets(1) [of "if da then Some la else None" N sk sv 0 t] graph_edges(1) [of _ _ _ "if da then Some la else None" N sk sv 0 t]
    by (auto simp: Some dot_print_def writes_def)
qed

theorem dot_print_graph_witness:
  "dot_print (\<lambda>out chars. Some (out @ chars)) (\<lambda>_. '''') (\<lambda>_. ''k'') (\<lambda>_. ''v'') sample_heap ''// '' sample_map False
    = Ret (Some (Some \<lparr>dot_output = ''// '' @ dot_text None 2 (\<lambda>_. ''k'') (\<lambda>_. ''v'') sample_tree,
        next_id = 3, display_node_address = False\<rparr>))"
  using dot_print_graph [OF _ sample_state, of "\<lambda>out chars. Some (out @ chars)" "\<lambda>_. ''''" "\<lambda>_. ''k''" "\<lambda>_. ''v''" "''// ''" False]
  by (simp add: lawful_writer_def) (simp add: sample_tree_def)

text \<open>The text for a node with two leaves, to compare with the one in the tests of the source.\<close>

lemma dot_text_sample:
  "dot_text None 2 (\<lambda>k. show_bytes (as_bytes k)) (\<lambda>v. show_nat v) sample_tree =
     ''strict digraph G {'' @ newline @ ''node [shape=record]'' @ newline
     @ ''n0 [label='' @ quote @ ''{{<h0> Node4 | 1 | [1]} | {<c0> 2| <c1> 3}}'' @ quote @ '']'' @ newline
     @ ''n1 [label='' @ quote @ ''{{<h0> Leaf} | {[1, 2]} | {20}}'' @ quote @ '']'' @ newline @ ''n0:c0 -> n1:h0'' @ newline
     @ ''n2 [label='' @ quote @ ''{{<h0> Leaf} | {[1, 3]} | {30}}'' @ quote @ '']'' @ newline @ ''n0:c1 -> n2:h0'' @ newline
     @ ''}'' @ newline"
  by (simp add: dot_text_def sample_tree_def inner_label_def leaf_label_def address_cell_def show_bytes_def show_nat.simps digit_def char_of_eq_iff)

end
