(* ===== verification/Well_Formed.thy ===== *)
theory Well_Formed
  imports Tree_Map
begin

text \<open>
  The checker for trees (\<open>src/src/nodes/visitor/well_formed.rs\<close>): a visitor that walks over the
  whole tree with the key bytes of the path and the set of nodes it has seen, and reports the
  first of four defects.

  The first half of the lemmas is completeness: what the checker answers on a tree that the
  library built.  The second half is soundness: on any heap, an answer \<open>Ok\<close> means that the
  nodes reachable from the root form a tree, with the number of nodes that was returned.
\<close>

section \<open>The checker\<close>

type_synonym key_prefix = bytes

datatype 'k malformed_tree_error =
    LoopFound node_ptr (first_observed: key_prefix) (later_observed: key_prefix)
  | WrongChildrenCount key_prefix node_type nat
  | PrefixMismatch (expected_prefix: key_prefix) (entire_key: "'k key")
  | EmptyTreeWithLen

record well_formed_checker =
  current_key_prefix :: bytes
  seen_nodes :: "node_ptr \<Rightarrow> key_prefix option"

definition in_capacity_range :: "node_type \<Rightarrow> nat \<Rightarrow> bool" where
  \<comment> \<open>\<open>Range::contains\<close>\<close>
  "in_capacity_range ty n \<longleftrightarrow> fst (capacity_range ty) \<le> n \<and> n < snd (capacity_range ty)"

function (sequential) check_visit_with ::
    "nat \<Rightarrow> ('k, 'v) heap \<Rightarrow> well_formed_checker \<Rightarrow> node_ptr
      \<Rightarrow> (('k malformed_tree_error + nat) \<times> well_formed_checker) outcome"
  and check_children ::
    "nat \<Rightarrow> ('k, 'v) heap \<Rightarrow> well_formed_checker \<Rightarrow> (byte \<times> node_ptr) list \<Rightarrow> nat \<Rightarrow> nat
      \<Rightarrow> (('k malformed_tree_error + nat \<times> nat) \<times> well_formed_checker) outcome" where
  "check_visit_with 0 hp c p = NoFuel"
| "check_visit_with (Suc fuel) hp c p =
     (if ptr_type p = LeafKind then
        and_then (read_leaf hp p) (\<lambda>t.
        Ret (if Sublist.prefix (current_key_prefix c) (as_bytes (leaf_key t)) then Inr 1
             else Inl (PrefixMismatch (current_key_prefix c) (leaf_key t)), c))
      else
        and_then (read_inner hp p) (\<lambda>inner_node.
        let original_key_prefix_len = length (current_key_prefix c) in
        and_then (inner_read_full_prefix fuel hp inner_node original_key_prefix_len) (\<lambda>(pfx, _).
        and_then (inner_iter inner_node) (\<lambda>child_it.
        and_then (check_children fuel hp (c\<lparr>current_key_prefix := current_key_prefix c @ pfx\<rparr>) child_it 0 0) (\<lambda>(r, c).
        case r of Inl e \<Rightarrow> Ret (Inl e, c)
        | Inr (running_node_count, num) \<Rightarrow>
            let c = c\<lparr>current_key_prefix := take original_key_prefix_len (current_key_prefix c)\<rparr> in
            if in_capacity_range (inner_type inner_node) num then Ret (Inr (running_node_count + 1), c)
            else Ret (Inl (WrongChildrenCount (current_key_prefix c) (inner_type inner_node) num), c))))))"
| "check_children fuel hp c [] running_node_count num = Ret (Inr (running_node_count, num), c)"
| "check_children fuel hp c ((key_byte, child_pointer) # child_it) running_node_count num =
     (let c = c\<lparr>current_key_prefix := current_key_prefix c @ [key_byte]\<rparr>; pfx = current_key_prefix c in
      case seen_nodes c child_pointer of
        Some first \<Rightarrow> Ret (Inl (LoopFound child_pointer first pfx), c)
      | None \<Rightarrow>
          and_then (check_visit_with fuel hp (c\<lparr>seen_nodes := (seen_nodes c)(child_pointer \<mapsto> pfx)\<rparr>) child_pointer) (\<lambda>(r, c).
          case r of Inl e \<Rightarrow> Ret (Inl e, c)
          | Inr n \<Rightarrow>
              and_then (assert_that (current_key_prefix c \<noteq> [])) (\<lambda>_.
              and_then (assert_that (last (current_key_prefix c) = key_byte)) (\<lambda>_.
              check_children fuel hp (c\<lparr>current_key_prefix := butlast (current_key_prefix c)\<rparr>) child_it
                (running_node_count + n) (num + 1)))))"
  by pat_completeness auto
termination
  by (relation "inv_image (less_than <*lex*> less_than)
      (\<lambda>x. case x of Inl (fuel, _, _, _) \<Rightarrow> (fuel, 0) | Inr (fuel, _, _, cs, _, _) \<Rightarrow> (fuel, Suc (length cs)))") auto

definition check_tree :: "('k, 'v) heap \<Rightarrow> node_ptr \<Rightarrow> ('k malformed_tree_error + nat) outcome" where
  "check_tree hp tree =
     and_then (check_visit_with (Suc (next_addr hp)) hp \<lparr>current_key_prefix = [], seen_nodes = [tree \<mapsto> []]\<rparr> tree)
       (\<lambda>(r, _). Ret r)"

definition check :: "('k, 'v) heap \<Rightarrow> treemap \<Rightarrow> ('k malformed_tree_error + nat) outcome" where
  "check hp tree =
     (case map_root tree of
        Some root \<Rightarrow> check_tree hp root
      | None \<Rightarrow> Ret (if is_empty tree then Inr 0 else Inl EmptyTreeWithLen))"

section \<open>Trees the library builds\<close>

text \<open>A node with 256 children is a legal state of the widest kind, and outside of its range.\<close>

fun has_full_node256 :: "('k, 'v) art \<Rightarrow> bool" where
  "has_full_node256 (ALeaf a k v) \<longleftrightarrow> False"
| "has_full_node256 (AInner a ty pf ch) \<longleftrightarrow> (ty = Node256 \<and> length ch = 256) \<or> (\<exists>(b, t)\<in>set ch. has_full_node256 t)"

lemma in_capacity_range_iff:
  "in_range ty n \<Longrightarrow> ty \<noteq> LeafKind \<Longrightarrow> in_capacity_range ty n \<longleftrightarrow> \<not> (ty = Node256 \<and> n = 256)"
  by (cases ty) (auto simp: in_range_def in_capacity_range_def)

definition below :: "('k, 'v) art \<Rightarrow> nat set" where
  "below t = set (addrs t) - {ptr_addr (root_ptr t)}"

text \<open>No node below \<open>t\<close> was seen before; then the nodes below are seen.\<close>

definition unseen :: "well_formed_checker \<Rightarrow> ('k, 'v) art \<Rightarrow> bool" where
  "unseen c t \<longleftrightarrow> (\<forall>q\<in>dom (seen_nodes c). ptr_addr q \<notin> below t)"

definition visited_to :: "well_formed_checker \<Rightarrow> nat set \<Rightarrow> well_formed_checker \<Rightarrow> bool" where
  "visited_to c A c' \<longleftrightarrow> current_key_prefix c' = current_key_prefix c
     \<and> (\<forall>q\<in>dom (seen_nodes c'). q \<in> dom (seen_nodes c) \<or> ptr_addr q \<in> A)"

definition answer :: "bool \<Rightarrow> nat \<Rightarrow> well_formed_checker \<Rightarrow> nat set
    \<Rightarrow> (('k malformed_tree_error + nat) \<times> well_formed_checker) outcome \<Rightarrow> bool" where
  "answer full n c A res \<longleftrightarrow> (\<exists>c'. if full then (\<exists>pfx. res = Ret (Inl (WrongChildrenCount pfx Node256 256), c'))
     else res = Ret (Inr n, c') \<and> visited_to c A c')"

lemma child_ptrs_Cons: "child_ptrs ((b, t) # cs) = (b, root_ptr t) # child_ptrs cs"
  by (simp add: child_ptrs_def)

lemma root_in_addrs: "ptr_addr (root_ptr t) \<in> set (addrs t)"
  by (cases t) auto

lemma below_subset: "below t \<subseteq> set (addrs t)"
  by (auto simp: below_def)

lemma check_children_spec:
  fixes cs :: "(byte \<times> ('k, 'v) art) list"
  assumes "\<forall>(b, t)\<in>set cs. \<forall>c. current_key_prefix c = path @ [b] \<longrightarrow> unseen c t \<longrightarrow>
      answer (has_full_node256 t) (length (addrs t)) c (below t) (check_visit_with fuel hp c (root_ptr t))"
    and "distinct (concat (map (\<lambda>(b, t). addrs t) cs))"
    and "\<forall>q\<in>dom (seen_nodes c). ptr_addr q \<notin> set (concat (map (\<lambda>(b, t). addrs t) cs))"
    and "current_key_prefix c = path"
  shows "\<exists>c'. if \<exists>(b, t)\<in>set cs. has_full_node256 t
    then \<exists>pfx. check_children fuel hp c (child_ptrs cs) r m = Ret (Inl (WrongChildrenCount pfx Node256 256), c')
    else check_children fuel hp c (child_ptrs cs) r m
        = Ret (Inr (r + length (concat (map (\<lambda>(b, t). addrs t) cs)), m + length cs), c')
      \<and> visited_to c (set (concat (map (\<lambda>(b, t). addrs t) cs))) c'"
  using assms
proof (induction cs arbitrary: c r m)
  case (Cons x cs)
  obtain b t where x: "x = (b, t)" by (cases x)
  let ?A = "set (concat (map (\<lambda>(b, t). addrs t) cs))"
  let ?c1 = "c\<lparr>current_key_prefix := path @ [b], seen_nodes := (seen_nodes c)(root_ptr t \<mapsto> path @ [b])\<rparr>"
  have new: "seen_nodes c (root_ptr t) = None"
    using Cons.prems(3) root_in_addrs [of t] by (auto simp: x dom_def)
  have "unseen ?c1 t"
    using Cons.prems(3) below_subset [of t] by (auto simp: unseen_def x below_def)
  then have "answer (has_full_node256 t) (length (addrs t)) ?c1 (below t) (check_visit_with fuel hp ?c1 (root_ptr t))"
    using Cons.prems(1) by (simp add: x)
  then obtain c2 where c2: "if has_full_node256 t
      then \<exists>pfx. check_visit_with fuel hp ?c1 (root_ptr t) = Ret (Inl (WrongChildrenCount pfx Node256 256), c2)
      else check_visit_with fuel hp ?c1 (root_ptr t) = Ret (Inr (length (addrs t)), c2) \<and> visited_to ?c1 (below t) c2"
    by (auto simp: answer_def)
  have step: "check_children fuel hp c (child_ptrs (x # cs)) r m
      = and_then (check_visit_with fuel hp ?c1 (root_ptr t)) (\<lambda>(r', c).
          case r' of Inl e \<Rightarrow> Ret (Inl e, c)
          | Inr n \<Rightarrow>
              and_then (assert_that (current_key_prefix c \<noteq> [])) (\<lambda>_.
              and_then (assert_that (last (current_key_prefix c) = b)) (\<lambda>_.
              check_children fuel hp (c\<lparr>current_key_prefix := butlast (current_key_prefix c)\<rparr>) (child_ptrs cs)
                (r + n) (m + 1))))"
    using new Cons.prems(4) by (simp add: x child_ptrs_Cons del: check_visit_with.simps)
  show ?case
  proof (cases "has_full_node256 t")
    case True
    then show ?thesis using c2 unfolding step by (auto simp: x)
  next
    case False
    let ?c3 = "c2\<lparr>current_key_prefix := path\<rparr>"
    have v: "visited_to ?c1 (below t) c2" and r: "check_visit_with fuel hp ?c1 (root_ptr t) = Ret (Inr (length (addrs t)), c2)"
      using c2 False by auto
    have seen: "q \<in> dom (seen_nodes c) \<or> ptr_addr q \<in> set (addrs t)" if "q \<in> dom (seen_nodes c2)" for q
    proof -
      have "q = root_ptr t \<or> q \<in> dom (seen_nodes c) \<or> ptr_addr q \<in> below t"
        using v that by (auto simp: visited_to_def)
      then show ?thesis using below_subset [of t] root_in_addrs [of t] by blast
    qed
    have step': "check_children fuel hp c (child_ptrs (x # cs)) r m
        = check_children fuel hp ?c3 (child_ptrs cs) (r + length (addrs t)) (m + 1)"
      unfolding step r using v by (simp add: visited_to_def assert_that_def)
    have "\<forall>q\<in>dom (seen_nodes ?c3). ptr_addr q \<notin> ?A"
      using seen Cons.prems(2,3) by (fastforce simp: x)
    then obtain c' where c': "if \<exists>(b, t)\<in>set cs. has_full_node256 t
      then \<exists>pfx. check_children fuel hp ?c3 (child_ptrs cs) (r + length (addrs t)) (m + 1)
        = Ret (Inl (WrongChildrenCount pfx Node256 256), c')
      else check_children fuel hp ?c3 (child_ptrs cs) (r + length (addrs t)) (m + 1)
          = Ret (Inr (r + length (addrs t) + length (concat (map (\<lambda>(b, t). addrs t) cs)), m + 1 + length cs), c')
        \<and> visited_to ?c3 ?A c'"
      using Cons.IH [of ?c3 "r + length (addrs t)" "m + 1"] Cons.prems(1,2) by (fastforce simp: x)
    have "visited_to c (set (addrs t) \<union> ?A) c'" if v3: "visited_to ?c3 ?A c'"
    proof -
      have "q \<in> dom (seen_nodes c2) \<or> ptr_addr q \<in> ?A" if "q \<in> dom (seen_nodes c')" for q
        using v3 that unfolding visited_to_def by simp
      then show ?thesis using v3 seen Cons.prems(4) unfolding visited_to_def by simp blast
    qed
    then show ?thesis
      using c' False unfolding step' by (intro exI [of _ c']) (auto simp: x split: if_splits)
  qed
qed (auto simp: child_ptrs_def visited_to_def)

lemma check_visit_spec:
  assumes "represents N hp t" "wf_art path t" "distinct (addrs t)" "height t < fuel"
    and "current_key_prefix c = path" "unseen c t"
  shows "answer (has_full_node256 t) (length (addrs t)) c (below t) (check_visit_with fuel hp c (root_ptr t))"
  using assms
proof (induction t arbitrary: path fuel c)
  case (ALeaf a k v)
  then show ?case
    using read_leaf_Ret [OF ALeaf.prems(1)] by (cases fuel) (auto simp: answer_def visited_to_def)
next
  case (AInner a ty pf ch)
  let ?t = "AInner a ty pf ch"
  obtain f where f: "fuel = Suc f" using AInner.prems(4) by (cases fuel) auto
  obtain n where n: "read_inner hp (Ptr ty a) = Ret n" "node_ok N n ty pf (child_ptrs ch)" and ty: "ty \<noteq> LeafKind"
    using read_inner_Ret [OF AInner.prems(1)] by metis
  have "height ?t \<le> f" using AInner.prems(4) f by simp
  then obtain lp where rp: "inner_read_full_prefix f hp n (length path) = Ret (pf, lp)"
    using read_full_prefix_spec [OF AInner.prems(1,2) _ n(1)] by blast
  let ?c = "c\<lparr>current_key_prefix := path @ pf\<rparr>" and ?A = "set (concat (map (\<lambda>(b, t). addrs t) ch))"
  have A: "below ?t = ?A" using AInner.prems(3) by (auto simp: below_def)
  have "answer (has_full_node256 t) (length (addrs t)) c (below t) (check_visit_with f hp c (root_ptr t))"
    if "(b, t) \<in> set ch" "current_key_prefix c = (path @ pf) @ [b]" "unseen c t" for b t c
    using that AInner.IH [OF that(1), of "path @ pf @ [b]" f c] AInner.prems(1,2,4) f
      height_child [OF that(1), of a ty pf] distinct_child [OF AInner.prems(3) that(1)] by auto
  then have kids: "\<forall>(b, t)\<in>set ch. \<forall>c. current_key_prefix c = (path @ pf) @ [b] \<longrightarrow> unseen c t \<longrightarrow>
      answer (has_full_node256 t) (length (addrs t)) c (below t) (check_visit_with f hp c (root_ptr t))" by blast
  have dist: "distinct (concat (map (\<lambda>(b, t). addrs t) ch))" using AInner.prems(3) by simp
  have new: "\<forall>q\<in>dom (seen_nodes ?c). ptr_addr q \<notin> ?A" using AInner.prems(6) by (simp add: unseen_def A)
  obtain c' where c': "if \<exists>(b, t)\<in>set ch. has_full_node256 t
    then \<exists>pfx. check_children f hp ?c (child_ptrs ch) 0 0 = Ret (Inl (WrongChildrenCount pfx Node256 256), c')
    else check_children f hp ?c (child_ptrs ch) 0 0 = Ret (Inr (length (concat (map (\<lambda>(b, t). addrs t) ch)), length ch), c')
      \<and> visited_to ?c ?A c'"
    using check_children_spec [of ch "path @ pf" f hp ?c 0 0, OF kids dist new] AInner.prems(5) by (simp only: add_0) auto
  have res: "check_visit_with fuel hp c (root_ptr ?t) = and_then (check_children f hp ?c (child_ptrs ch) 0 0) (\<lambda>(r, c).
        case r of Inl e \<Rightarrow> Ret (Inl e, c)
        | Inr (running_node_count, num) \<Rightarrow>
            let c = c\<lparr>current_key_prefix := take (length path) (current_key_prefix c)\<rparr> in
            if in_capacity_range (inner_type n) num then Ret (Inr (running_node_count + 1), c)
            else Ret (Inl (WrongChildrenCount (current_key_prefix c) (inner_type n) num), c))"
    using ty AInner.prems(5) by (simp add: f n(1) rp node_okD(8) [OF n(2)] Let_def)
  have rng: "in_capacity_range ty (length ch) \<longleftrightarrow> \<not> (ty = Node256 \<and> length ch = 256)"
    using AInner.prems(2) by (intro in_capacity_range_iff) auto
  show ?case
  proof (cases "\<exists>(b, t)\<in>set ch. has_full_node256 t")
    case True
    then show ?thesis using c' unfolding res answer_def by auto
  next
    case False
    then have r: "check_children f hp ?c (child_ptrs ch) 0 0 = Ret (Inr (length (concat (map (\<lambda>(b, t). addrs t) ch)), length ch), c')"
      "visited_to ?c ?A c'" using c' by auto
    have "visited_to c ?A (c'\<lparr>current_key_prefix := take (length path) (current_key_prefix c')\<rparr>)"
      using r(2) AInner.prems(5) by (simp add: visited_to_def)
    then show ?thesis
      using False rng unfolding res r answer_def A node_okD(1) [OF n(2)] by (auto simp: Let_def)
  qed
qed

lemma check_spec:
  assumes m: "map_state N fr m hp T"
  shows "case T of None \<Rightarrow> check hp m = Ret (Inr 0)
    | Some t \<Rightarrow> if has_full_node256 t then \<exists>pfx. check hp m = Ret (Inl (WrongChildrenCount pfx Node256 256))
        else check hp m = Ret (Inr (length (addrs t)))"
proof (cases T)
  case None
  then show ?thesis using m by (simp add: check_def map_state_def is_empty_def)
next
  case (Some t)
  let ?c = "\<lparr>current_key_prefix = [], seen_nodes = [root_ptr t \<mapsto> []]\<rparr>"
  have h: "represents N hp t" "wf_art [] t" "distinct (addrs t)" "height t < Suc (next_addr hp)"
    "map_root m = Some (root_ptr t)"
    using m holds_height [of N hp t] by (auto simp: map_state_def holds_def Some)
  have "unseen ?c t" by (auto simp: unseen_def below_def)
  from check_visit_spec [OF h(1-4) _ this] show ?thesis
    by (auto simp: answer_def check_def check_tree_def h(5) Some simp del: check_visit_with.simps)
qed

section \<open>Any heap\<close>

fun ptrs :: "('k, 'v) art \<Rightarrow> node_ptr list" where
  "ptrs (ALeaf a k v) = [Ptr LeafKind a]"
| "ptrs (AInner a ty pf ch) = Ptr ty a # concat (map (\<lambda>(b, t). ptrs t) ch)"

text \<open>
  What the checker establishes: the pointers form a tree, every node has as many children as its
  kind allows for, and every key starts with the bytes on the way to its leaf.
\<close>

fun shaped :: "('k, 'v) heap \<Rightarrow> bytes \<Rightarrow> ('k, 'v) art \<Rightarrow> bool" where
  "shaped hp path (ALeaf a k v) \<longleftrightarrow>
     cells hp a = Some (LeafCell \<lparr>leaf_key = k, leaf_value = v\<rparr>) \<and> Sublist.prefix path (as_bytes k)"
| "shaped hp path (AInner a ty pf ch) \<longleftrightarrow>
     (\<exists>n. cells hp a = Some (InnerCell n) \<and> inner_type n = ty \<and> inner_children n = child_ptrs ch
        \<and> length pf = prefix_len (inner_header n))
     \<and> ty \<noteq> LeafKind \<and> in_capacity_range ty (length ch) \<and> (\<forall>(b, t)\<in>set ch. shaped hp (path @ pf @ [b]) t)"

definition nodes_inv :: "('k, 'v) heap \<Rightarrow> bool" where
  "nodes_inv hp \<longleftrightarrow> (\<forall>a n. cells hp a = Some (InnerCell n) \<longrightarrow> inner_inv n)"

lemma ptrs_root: "ptrs t = root_ptr t # tl (ptrs t)"
  by (cases t) auto

lemma addrs_ptrs: "addrs t = map ptr_addr (ptrs t)"
proof (induction t)
  case (AInner a ty pf ch)
  then have "map (\<lambda>(b, t). addrs t) ch = map (map ptr_addr) (map (\<lambda>(b, t). ptrs t) ch)" by auto
  then show ?case by (simp only: addrs.simps ptrs.simps list.map map_concat node_ptr.sel)
qed simp

lemma length_read_full_prefix:
  "inner_read_full_prefix fuel hp n depth = Ret (pf, lp) \<Longrightarrow> length pf = prefix_len (inner_header n)"
  by (auto simp: inner_read_full_prefix_def Let_def read_prefix_def capped_prefix_len_def prefix_len_def
      and_then_eq_Ret_iff slice_range_def split: if_splits prod.splits)

lemma check_leaf_Inr:
  assumes "check_visit_with (Suc fuel) hp c (Ptr LeafKind a) = Ret (Inr n, c')"
  obtains l where "cells hp a = Some (LeafCell l)" "Sublist.prefix (current_key_prefix c) (as_bytes (leaf_key l))"
    "n = 1" "c' = c"
proof -
  have eq: "check_visit_with (Suc fuel) hp c (Ptr LeafKind a) = and_then (read_leaf hp (Ptr LeafKind a)) (\<lambda>t.
      Ret (if Sublist.prefix (current_key_prefix c) (as_bytes (leaf_key t)) then Inr 1
           else Inl (PrefixMismatch (current_key_prefix c) (leaf_key t)), c))" by simp
  obtain l where l: "read_leaf hp (Ptr LeafKind a) = Ret l"
    using assms unfolding eq and_then_eq_Ret_iff by blast
  then have "cells hp a = Some (LeafCell l)"
    by (auto simp: read_leaf_def split: option.splits cell.splits)
  then show thesis using assms unfolding eq l by (intro that [of l]) (auto split: if_splits)
qed

lemma check_inner:
  assumes "ty \<noteq> LeafKind"
  shows "check_visit_with (Suc fuel) hp c (Ptr ty a) = and_then (read_inner hp (Ptr ty a)) (\<lambda>inner_node.
        and_then (inner_read_full_prefix fuel hp inner_node (length (current_key_prefix c))) (\<lambda>(pfx, _).
        and_then (inner_iter inner_node) (\<lambda>child_it.
        and_then (check_children fuel hp (c\<lparr>current_key_prefix := current_key_prefix c @ pfx\<rparr>) child_it 0 0) (\<lambda>(r, c').
        case r of Inl e \<Rightarrow> Ret (Inl e, c')
        | Inr (running_node_count, num) \<Rightarrow>
            let c' = c'\<lparr>current_key_prefix := take (length (current_key_prefix c)) (current_key_prefix c')\<rparr> in
            if in_capacity_range (inner_type inner_node) num then Ret (Inr (running_node_count + 1), c')
            else Ret (Inl (WrongChildrenCount (current_key_prefix c') (inner_type inner_node) num), c')))))"
  using assms by (simp add: Let_def)

lemma check_inner_Inr:
  assumes "ty \<noteq> LeafKind" "check_visit_with (Suc fuel) hp c (Ptr ty a) = Ret (Inr n, c')" "nodes_inv hp"
  obtains node pfx lp r c1 num where "cells hp a = Some (InnerCell node)" "inner_type node = ty"
    "inner_read_full_prefix fuel hp node (length (current_key_prefix c)) = Ret (pfx, lp)"
    "inner_iter node = Ret (inner_children node)"
    "check_children fuel hp (c\<lparr>current_key_prefix := current_key_prefix c @ pfx\<rparr>) (inner_children node) 0 0
       = Ret (Inr (r, num), c1)"
    "in_capacity_range ty num" "n = r + 1"
    "c' = c1\<lparr>current_key_prefix := take (length (current_key_prefix c)) (current_key_prefix c1)\<rparr>"
proof -
  obtain node pfx lp cs res where 1: "read_inner hp (Ptr ty a) = Ret node"
    "inner_read_full_prefix fuel hp node (length (current_key_prefix c)) = Ret (pfx, lp)" "inner_iter node = Ret cs"
    "check_children fuel hp (c\<lparr>current_key_prefix := current_key_prefix c @ pfx\<rparr>) cs 0 0 = Ret res"
    using assms(2) unfolding check_inner [OF assms(1)] and_then_eq_Ret_iff by (auto simp: and_then_eq_Ret_iff)
  have cell: "cells hp a = Some (InnerCell node)" "inner_type node = ty"
    using 1(1) by (auto simp: read_inner_def split: option.splits cell.splits if_splits)
  then have "inner_inv node" using assms(3) by (auto simp: nodes_inv_def)
  then have cs: "cs = inner_children node" using inn.iter_spec [of node] 1(3) by simp
  obtain r num c1 where res: "res = (Inr (r, num), c1)" "in_capacity_range ty num" "n = r + 1"
    "c' = c1\<lparr>current_key_prefix := take (length (current_key_prefix c)) (current_key_prefix c1)\<rparr>"
    using assms(2) unfolding check_inner [OF assms(1)]
    by (auto simp: 1 cell(2) Let_def split: sum.splits if_splits prod.splits)
  show thesis by (rule that [OF cell 1(2) _ _ res(2-4)]) (use 1(3,4) cs res(1) in auto)
qed

lemma check_shaped:
  fixes hp :: "('k, 'v) heap"
  shows "nodes_inv hp \<Longrightarrow> check_visit_with fuel hp c p = Ret (Inr n, c') \<Longrightarrow>
    \<exists>t. root_ptr t = p \<and> shaped hp (current_key_prefix c) t \<and> n = length (ptrs t)
      \<and> current_key_prefix c' = current_key_prefix c \<and> distinct (tl (ptrs t))
      \<and> set (tl (ptrs t)) \<inter> dom (seen_nodes c) = {}
      \<and> dom (seen_nodes c') = dom (seen_nodes c) \<union> set (tl (ptrs t))"
  and "nodes_inv hp \<Longrightarrow> check_children fuel hp c cs r m = Ret (Inr (r', m'), c') \<Longrightarrow>
    \<exists>ch :: (byte \<times> ('k, 'v) art) list. child_ptrs ch = cs \<and> (\<forall>(b, t)\<in>set ch. shaped hp (current_key_prefix c @ [b]) t)
      \<and> r' = r + length (concat (map (\<lambda>(b, t). ptrs t) ch)) \<and> m' = m + length ch
      \<and> current_key_prefix c' = current_key_prefix c \<and> distinct (concat (map (\<lambda>(b, t). ptrs t) ch))
      \<and> set (concat (map (\<lambda>(b, t). ptrs t) ch)) \<inter> dom (seen_nodes c) = {}
      \<and> dom (seen_nodes c') = dom (seen_nodes c) \<union> set (concat (map (\<lambda>(b, t). ptrs t) ch))"
proof (induction fuel hp c p and fuel hp c cs r m arbitrary: n c' and r' m' c'
    rule: check_visit_with_check_children.induct)
  case (1 hp c p)
  then show ?case by simp
next
  case (2 fuel hp c p)
  obtain ty a where p: "p = Ptr ty a" by (cases p)
  show ?case
  proof (cases "ty = LeafKind")
    case True
    then obtain l where l: "cells hp a = Some (LeafCell l)" "Sublist.prefix (current_key_prefix c) (as_bytes (leaf_key l))"
      "n = 1" "c' = c"
      using check_leaf_Inr "2.prems"(2) p by metis
    then have "shaped hp (current_key_prefix c) (ALeaf a (leaf_key l) (leaf_value l))" by simp
    then show ?thesis using l True p by (intro exI [of _ "ALeaf a (leaf_key l) (leaf_value l)"]) simp
  next
    case False
    obtain node pfx lp r1 c1 m1 where cell: "cells hp a = Some (InnerCell node)" "inner_type node = ty"
      and rp: "inner_read_full_prefix fuel hp node (length (current_key_prefix c)) = Ret (pfx, lp)"
      and it: "inner_iter node = Ret (inner_children node)"
      and kids: "check_children fuel hp (c\<lparr>current_key_prefix := current_key_prefix c @ pfx\<rparr>) (inner_children node) 0 0
        = Ret (Inr (r1, m1), c1)"
      and rng: "in_capacity_range ty m1" and n: "n = r1 + 1"
      and c': "c' = c1\<lparr>current_key_prefix := take (length (current_key_prefix c)) (current_key_prefix c1)\<rparr>"
      using check_inner_Inr [OF False "2.prems"(2) [unfolded p] "2.prems"(1)] by metis
    have node: "read_inner hp p = Ret node" using cell by (simp add: p read_inner_def)
    obtain ch :: "(byte \<times> ('k, 'v) art) list" where ch: "child_ptrs ch = inner_children node"
      "\<forall>(b, t)\<in>set ch. shaped hp (current_key_prefix c @ pfx @ [b]) t"
      "r1 = length (concat (map (\<lambda>(b, t). ptrs t) ch))" "m1 = length ch"
      "current_key_prefix c1 = current_key_prefix c @ pfx" "distinct (concat (map (\<lambda>(b, t). ptrs t) ch))"
      "set (concat (map (\<lambda>(b, t). ptrs t) ch)) \<inter> dom (seen_nodes c) = {}"
      "dom (seen_nodes c1) = dom (seen_nodes c) \<union> set (concat (map (\<lambda>(b, t). ptrs t) ch))"
      using "2.IH" [OF _ node refl rp refl it "2.prems"(1) kids] False p by auto
    have "shaped hp (current_key_prefix c) (AInner a ty pfx ch)"
      using cell ch(1,2,4) rng False length_read_full_prefix [OF rp] by simp
    then show ?thesis
      using ch(3-8) n c' p by (intro exI [of _ "AInner a ty pfx ch"]) simp
  qed
next
  case (3 fuel hp c r m)
  then show ?case by (intro exI [of _ "[]"]) (simp add: child_ptrs_def)
next
  case (4 fuel hp c b p cs r m)
  let ?pfx = "current_key_prefix c @ [b]"
  let ?c1 = "c\<lparr>current_key_prefix := ?pfx, seen_nodes := (seen_nodes c)(p \<mapsto> ?pfx)\<rparr>"
  have new: "seen_nodes c p = None"
    using "4.prems"(2) by (auto simp: Let_def simp del: check_visit_with.simps split: option.splits)
  let ?rest = "\<lambda>(r1, c). case r1 of Inl e \<Rightarrow> Ret (Inl e, c)
      | Inr n \<Rightarrow> and_then (assert_that (current_key_prefix c \<noteq> [])) (\<lambda>_.
          and_then (assert_that (last (current_key_prefix c) = b)) (\<lambda>_.
          check_children fuel hp (c\<lparr>current_key_prefix := butlast (current_key_prefix c)\<rparr>) cs (r + n) (m + 1)))"
  have res: "and_then (check_visit_with fuel hp ?c1 p) ?rest = Ret (Inr (r', m'), c')"
    using "4.prems"(2) new by (simp add: Let_def del: check_visit_with.simps)
  then obtain x where x: "check_visit_with fuel hp ?c1 p = Ret x" "?rest x = Ret (Inr (r', m'), c')"
    unfolding and_then_eq_Ret_iff by blast
  obtain n c2 where v: "check_visit_with fuel hp ?c1 p = Ret (Inr n, c2)"
    using x by (cases x; cases "fst x") auto
  let ?x = "c\<lparr>current_key_prefix := ?pfx\<rparr>"
  have new': "seen_nodes ?x p = None" using new by simp
  have c1: "?x\<lparr>seen_nodes := (seen_nodes ?x)(p \<mapsto> current_key_prefix ?x)\<rparr> = ?c1" by simp
  note IH1 = "4.IH"(1) [OF refl refl new' "4.prems"(1), unfolded c1, OF v]
  obtain t :: "('k, 'v) art" where t': "root_ptr t = p" "shaped hp (current_key_prefix ?c1) t" "n = length (ptrs t)"
    "current_key_prefix c2 = current_key_prefix ?c1"
    "distinct (tl (ptrs t))" "set (tl (ptrs t)) \<inter> dom (seen_nodes ?c1) = {}"
    "dom (seen_nodes c2) = dom (seen_nodes ?c1) \<union> set (tl (ptrs t))"
    using IH1 by blast
  then have t: "root_ptr t = p" "shaped hp ?pfx t" "n = length (ptrs t)" "current_key_prefix c2 = ?pfx"
    "distinct (tl (ptrs t))" "set (tl (ptrs t)) \<inter> dom (seen_nodes ?c1) = {}"
    "dom (seen_nodes c2) = dom (seen_nodes ?c1) \<union> set (tl (ptrs t))"
    by simp_all
  let ?c3 = "c2\<lparr>current_key_prefix := current_key_prefix c\<rparr>"
  have c3: "c2\<lparr>current_key_prefix := butlast (current_key_prefix c2)\<rparr> = ?c3" using t(4) by simp
  have rest: "check_children fuel hp ?c3 cs (r + n) (m + 1) = Ret (Inr (r', m'), c')"
    using res t(4) unfolding v by (simp add: assert_that_def)
  have asserts: "assert_that (current_key_prefix c2 \<noteq> []) = Ret ()" "assert_that (last (current_key_prefix c2) = b) = Ret ()"
    using t(4) by (simp_all add: assert_that_def)
  note IH2 = "4.IH"(2) [OF refl refl new', unfolded c1, OF v refl refl asserts "4.prems"(1), unfolded c3, OF rest]
  have set_ptrs: "set (ptrs t) = insert p (set (tl (ptrs t)))" using ptrs_root [of t] t(1) by (metis list.simps(15))
  have p: "p \<notin> set (tl (ptrs t))" "distinct (ptrs t)" "set (ptrs t) \<inter> dom (seen_nodes c) = {}"
    "dom (seen_nodes c2) = dom (seen_nodes c) \<union> set (ptrs t)"
  proof -
    show 1: "p \<notin> set (tl (ptrs t))" using t(6) by auto
    then show "distinct (ptrs t)" using t(1,5) ptrs_root [of t] by (metis distinct.simps(2))
    show "set (ptrs t) \<inter> dom (seen_nodes c) = {}" using t(6) new unfolding set_ptrs by auto
    show "dom (seen_nodes c2) = dom (seen_nodes c) \<union> set (ptrs t)" using t(7) unfolding set_ptrs by auto
  qed
  obtain ch :: "(byte \<times> ('k, 'v) art) list" where ch': "child_ptrs ch = cs"
      "\<forall>(b, t)\<in>set ch. shaped hp (current_key_prefix ?c3 @ [b]) t"
      "r' = r + n + length (concat (map (\<lambda>(b, t). ptrs t) ch))" "m' = m + 1 + length ch"
      "current_key_prefix c' = current_key_prefix ?c3" "distinct (concat (map (\<lambda>(b, t). ptrs t) ch))"
      "set (concat (map (\<lambda>(b, t). ptrs t) ch)) \<inter> dom (seen_nodes ?c3) = {}"
      "dom (seen_nodes c') = dom (seen_nodes ?c3) \<union> set (concat (map (\<lambda>(b, t). ptrs t) ch))"
    using IH2 by blast
  let ?X = "concat (map (\<lambda>(b, t). ptrs t) ch)"
  have sets: "set ?X \<inter> (dom (seen_nodes c) \<union> set (ptrs t)) = {}" "dom (seen_nodes c') = dom (seen_nodes c) \<union> set (ptrs t) \<union> set ?X"
    using ch'(7,8) p(4) by simp_all
  have X: "concat (map (\<lambda>(b, t). ptrs t) ((b, t) # ch)) = ptrs t @ ?X" by simp
  have "\<forall>(b, t)\<in>set ((b, t) # ch). shaped hp (current_key_prefix c @ [b]) t" using ch'(2) t(2) by simp
  moreover have "distinct (ptrs t @ ?X)" "set (ptrs t @ ?X) \<inter> dom (seen_nodes c) = {}"
    "dom (seen_nodes c') = dom (seen_nodes c) \<union> set (ptrs t @ ?X)"
    using ch'(6) p(2,3) sets unfolding distinct_append set_append by blast+
  moreover have "r' = r + length (ptrs t @ ?X)" using ch'(3) t(3) by simp
  ultimately show ?case
    using ch'(1,4,5) t(1) by (intro exI [of _ "(b, t) # ch"]) (simp only: X child_ptrs_Cons, simp)
qed

text \<open>
  Termination: every node that the checker enters was not seen before, so the number of inner
  nodes bounds the depth.
\<close>

definition inner_ptrs :: "('k, 'v) heap \<Rightarrow> node_ptr set" where
  "inner_ptrs hp = {p. \<exists>n. read_inner hp p = Ret n}"

definition inline_paths :: "('k, 'v) heap \<Rightarrow> bool" where
  "inline_paths hp \<longleftrightarrow> (\<forall>a n. cells hp a = Some (InnerCell n) \<longrightarrow>
     prefix_len (inner_header n) \<le> length (h_prefix (inner_header n)))"

lemma read_inner_cell: "read_inner hp p = Ret n \<Longrightarrow> cells hp (ptr_addr p) = Some (InnerCell n) \<and> ptr_type p = inner_type n"
  by (auto simp: read_inner_def split: option.splits cell.splits if_splits)

lemma inner_ptrs_bound:
  assumes "\<forall>a. cells hp a \<noteq> None \<longrightarrow> a < next_addr hp"
  shows "finite (inner_ptrs hp)" "card (inner_ptrs hp) \<le> next_addr hp"
proof -
  have inj: "inj_on ptr_addr (inner_ptrs hp)"
    by (rule inj_onI) (auto simp: inner_ptrs_def dest!: read_inner_cell intro: node_ptr.expand)
  have sub: "ptr_addr ` inner_ptrs hp \<subseteq> {..<next_addr hp}"
    using assms by (auto simp: inner_ptrs_def dest!: read_inner_cell)
  show "finite (inner_ptrs hp)" using finite_imageD [OF finite_subset [OF sub] inj] by simp
  show "card (inner_ptrs hp) \<le> next_addr hp" using card_inj_on_le [OF inj sub] by simp
qed

lemma and_then_NoFuel: "and_then x f = NoFuel \<longleftrightarrow> x = NoFuel \<or> (\<exists>y. x = Ret y \<and> f y = NoFuel)"
  by (cases x) auto

lemma check_terminates:
  fixes hp :: "('k, 'v) heap"
  assumes inv: "nodes_inv hp" "inline_paths hp" and fin: "finite (inner_ptrs hp)"
  shows "p \<in> dom (seen_nodes c) \<Longrightarrow> 0 < fuel \<Longrightarrow>
      (p \<in> inner_ptrs hp \<Longrightarrow> card (inner_ptrs hp) + 2 \<le> card (inner_ptrs hp \<inter> dom (seen_nodes c)) + fuel) \<Longrightarrow>
      check_visit_with fuel hp c p \<noteq> NoFuel"
    and "card (inner_ptrs hp) + 1 \<le> card (inner_ptrs hp \<inter> dom (seen_nodes c)) + fuel \<Longrightarrow>
      check_children fuel hp c cs r m \<noteq> NoFuel"
  using inv fin
proof (induction fuel hp c p and fuel hp c cs r m rule: check_visit_with_check_children.induct)
  case (2 fuel hp c p)
  obtain ty a where p: "p = Ptr ty a" by (cases p)
  show ?case
  proof (cases "ty = LeafKind")
    case True
    then show ?thesis by (auto simp: p and_then_NoFuel read_leaf_def split: option.splits cell.splits)
  next
    case False
    show ?thesis
    proof (cases "read_inner hp p")
      case (Ret node)
      have cell: "cells hp a = Some (InnerCell node)" using read_inner_cell [OF Ret] p by simp
      have it: "inner_iter node = Ret (inner_children node)"
        using "2.prems"(4) cell inn.iter_spec by (auto simp: nodes_inv_def)
      have rp: "inner_read_full_prefix fuel hp node (length (current_key_prefix c)) = Ret (read_prefix (inner_header node), None)"
        using "2.prems"(5) cell by (simp add: inline_paths_def inner_read_full_prefix_def Let_def)
      have "p \<in> inner_ptrs hp" using Ret by (auto simp: inner_ptrs_def)
      then have "card (inner_ptrs hp) + 1 \<le> card (inner_ptrs hp \<inter> dom (seen_nodes c)) + fuel" using "2.prems"(3) by simp
      then have "check_children fuel hp (c\<lparr>current_key_prefix := current_key_prefix c @ read_prefix (inner_header node)\<rparr>)
          (inner_children node) 0 0 \<noteq> NoFuel"
        using "2.IH" [OF _ Ret refl rp refl it] False p "2.prems"(4-6) by simp
      then show ?thesis
        using check_inner [OF False, of fuel hp c a] Ret it rp
        by (auto simp: p and_then_NoFuel Let_def simp del: check_visit_with.simps split: sum.splits)
    qed (use False in \<open>auto simp: p read_inner_def split: option.splits cell.splits if_splits\<close>)
  qed
next
  case (4 fuel hp c b p cs r m)
  let ?pfx = "current_key_prefix c @ [b]" and ?L = "inner_ptrs hp"
  let ?x = "c\<lparr>current_key_prefix := ?pfx\<rparr>" and ?c1 = "c\<lparr>current_key_prefix := ?pfx, seen_nodes := (seen_nodes c)(p \<mapsto> ?pfx)\<rparr>"
  have c1: "?x\<lparr>seen_nodes := (seen_nodes ?x)(p \<mapsto> current_key_prefix ?x)\<rparr> = ?c1" by simp
  show ?case
  proof (cases "seen_nodes c p")
    case new: None
    then have new': "seen_nodes ?x p = None" by simp
    have le: "card (?L \<inter> dom (seen_nodes c)) \<le> card ?L" using "4.prems"(4) by (intro card_mono) auto
    have "check_visit_with fuel hp ?c1 p \<noteq> NoFuel"
    proof (rule "4.IH"(1) [OF refl refl new', unfolded c1])
      show "card ?L + 2 \<le> card (?L \<inter> dom (seen_nodes ?c1)) + fuel" if "p \<in> ?L"
      proof -
        have "?L \<inter> dom (seen_nodes ?c1) = insert p (?L \<inter> dom (seen_nodes c))" using that by auto
        then show ?thesis using "4.prems"(1,4) new by (simp add: domIff)
      qed
    qed (use "4.prems" le in auto)
    moreover have "check_children fuel hp (c2\<lparr>current_key_prefix := butlast (current_key_prefix c2)\<rparr>) cs (r + n) (m + 1) \<noteq> NoFuel"
      if v: "check_visit_with fuel hp ?c1 p = Ret (Inr n, c2)" and a: "current_key_prefix c2 \<noteq> []" "last (current_key_prefix c2) = b"
      for n c2
    proof -
      have "dom (seen_nodes c) \<subseteq> dom (seen_nodes c2)"
        using check_shaped(1) [OF "4.prems"(2) v] by auto
      then have "card (?L \<inter> dom (seen_nodes c)) \<le> card (?L \<inter> dom (seen_nodes c2))"
        using "4.prems"(4) by (intro card_mono) auto
      then have "card ?L + 1 \<le> card (?L \<inter> dom (seen_nodes c2)) + fuel" using "4.prems"(1) by simp
      then show ?thesis
        using "4.IH"(2) [OF refl refl new', unfolded c1, OF v refl refl, of "()" "()"] a "4.prems"(2-4)
        by (simp add: assert_that_def)
    qed
    ultimately show ?thesis
      using new by (auto simp: and_then_NoFuel Let_def assert_that_def simp del: check_visit_with.simps split: sum.splits)
  qed (simp add: Let_def)
qed simp_all

section \<open>Properties of the checker\<close>

text \<open>
  C33. On a map that satisfies the invariant, the checker returns the number of nodes, unless a
  node of the widest kind has all its 256 children: such a map is reported as malformed, because
  the range of that kind excludes its own capacity.
\<close>

theorem checker_on_maps:
  assumes "map_state N fr m hp T"
  shows "case T of None \<Rightarrow> check hp m = Ret (Inr 0)
    | Some t \<Rightarrow> if has_full_node256 t then \<exists>pfx. check hp m = Ret (Inl (WrongChildrenCount pfx Node256 256))
        else check hp m = Ret (Inr (card (set (addrs t))))"
  using check_spec [OF assms] assms
  by (auto simp: map_state_def holds_def distinct_card split: option.splits)

theorem checker_on_maps_witness: "check sample_heap sample_map = Ret (Inr 3)"
  using checker_on_maps [OF sample_state] by (simp add: sample_tree_def)

text \<open>
  C34. On any heap whose inner nodes satisfy their own invariant, an answer \<open>Ok n\<close> of the checker
  means that the nodes reachable from the root form a tree of \<open>n\<close> nodes at different addresses,
  that every node has as many children as its kind allows for, and that every key starts with
  the bytes on the way to its leaf.
\<close>

theorem checker_sound:
  assumes "nodes_inv hp" "map_root m = Some root" "check hp m = Ret (Inr n)"
  shows "\<exists>t. root_ptr t = root \<and> shaped hp [] t \<and> distinct (addrs t) \<and> n = length (addrs t)"
proof -
  obtain c' where "check_visit_with (Suc (next_addr hp)) hp \<lparr>current_key_prefix = [], seen_nodes = [root \<mapsto> []]\<rparr> root
      = Ret (Inr n, c')"
    using assms(2,3) by (auto simp: check_def check_tree_def and_then_eq_Ret_iff simp del: check_visit_with.simps)
  from check_shaped(1) [OF assms(1) this]
  obtain t where t: "root_ptr t = root" "shaped hp [] t" "n = length (ptrs t)"
    "distinct (tl (ptrs t))" "set (tl (ptrs t)) \<inter> {root} = {}"
    by auto
  have d: "distinct (ptrs t)" using t(1,4,5) ptrs_root [of t] by (metis disjoint_insert(1) distinct.simps(2))
  have kind: "p = Ptr (case cells hp (ptr_addr p) of Some (InnerCell n) \<Rightarrow> inner_type n | _ \<Rightarrow> LeafKind) (ptr_addr p)"
    if "shaped hp path u" "p \<in> set (ptrs u)" for p path u
    using that
  proof (induction u arbitrary: path)
    case (AInner a ty pf ch)
    show ?case
    proof (cases "p = Ptr ty a")
      case True
      then show ?thesis using AInner.prems(1) by auto
    next
      case False
      then obtain b u where u: "(b, u) \<in> set ch" "p \<in> set (ptrs u)" using AInner.prems(2) by auto
      then have "shaped hp (path @ pf @ [b]) u" using AInner.prems(1) by auto
      then show ?thesis using AInner.IH [OF u(1)] u(2) by blast
    qed
  qed simp
  have "inj_on ptr_addr (set (ptrs t))"
    by (rule inj_onI) (metis kind [OF t(2)])
  then have "distinct (addrs t)" using d by (simp add: addrs_ptrs distinct_map)
  then show ?thesis using t(1-3) by (auto simp: addrs_ptrs)
qed

lemma sample_nodes_inv: "nodes_inv sample_heap"
  using sample_node_ok
  by (auto simp: nodes_inv_def sample_heap_def sample_frame_def node_ok_def split: if_splits)

theorem checker_sound_witness:
  "\<exists>t :: (unit, nat) art. root_ptr t = Ptr Node4 2 \<and> shaped sample_heap [] t \<and> length (addrs t) = 3"
proof -
  have "check sample_heap sample_map = Ret (Inr 3)"
    using check_spec [OF sample_state] by (simp add: sample_tree_def)
  then show ?thesis
    using checker_sound [OF sample_nodes_inv, of sample_map "Ptr Node4 2" 3] by (auto simp: sample_map_def)
qed

text \<open>With paths that fit into the headers the depth is bounded by the number of nodes.\<close>

lemma check_returns:
  assumes "nodes_inv hp" "inline_paths hp" "\<forall>a. cells hp a \<noteq> None \<longrightarrow> a < next_addr hp"
  shows "check hp m \<noteq> NoFuel"
proof -
  have "check_visit_with (Suc (next_addr hp)) hp \<lparr>current_key_prefix = [], seen_nodes = [root \<mapsto> []]\<rparr> root \<noteq> NoFuel" for root
  proof (rule check_terminates(1) [OF assms(1,2) inner_ptrs_bound(1) [OF assms(3)]])
    assume "root \<in> inner_ptrs hp"
    then have "inner_ptrs hp \<inter> dom [root \<mapsto> ([] :: bytes)] = {root}" by auto
    then show "card (inner_ptrs hp) + 2 \<le> card (inner_ptrs hp \<inter>
        dom (seen_nodes \<lparr>current_key_prefix = [], seen_nodes = [root \<mapsto> []]\<rparr>)) + Suc (next_addr hp)"
      using inner_ptrs_bound(2) [OF assms(3)] by simp
  qed simp_all
  then show ?thesis
    by (auto simp: check_def check_tree_def and_then_NoFuel simp del: check_visit_with.simps split: option.split)
qed

text \<open>
  A node that is its own first child, with a path longer than the array of its header.
\<close>

definition loop_node :: "node_ptr inner" where
  "loop_node = Inner4 \<lparr>c_header = \<lparr>h_num_children = 2, h_prefix_len = 3, h_prefix = [1, 1]\<rparr>,
     c_keys = [Some 2, Some 3, None, None],
     c_child_pointers = [Some (Ptr Node4 0), Some (Ptr LeafKind 1), None, None]\<rparr>"

definition loop_heap :: "(unit, nat) heap" where
  "loop_heap = \<lparr>cells = [0 \<mapsto> InnerCell loop_node, 1 \<mapsto> LeafCell \<lparr>leaf_key = Key [1, 1, 1, 3] (), leaf_value = 30\<rparr>],
     next_addr = 2\<rparr>"

lemma check_loop_diverges:
  "check_visit_with fuel loop_heap \<lparr>current_key_prefix = [], seen_nodes = [Ptr Node4 0 \<mapsto> []]\<rparr> (Ptr Node4 0) = NoFuel"
proof -
  have r: "read_inner loop_heap (Ptr Node4 0) = Ret loop_node"
    by (simp add: read_inner_def loop_heap_def loop_node_def)
  have mn: "inner_min loop_node = Ret (2, Ptr Node4 0)" by code_simp
  have "minimum_unchecked fuel loop_heap (Ptr Node4 0) = NoFuel" for fuel
    by (induction fuel) (simp_all add: r mn)
  then have "inner_read_full_prefix fuel loop_heap loop_node 0 = NoFuel" for fuel
    by (simp add: inner_read_full_prefix_def mn Let_def prefix_len_def) (simp add: loop_node_def)
  then show ?thesis by (cases fuel) (simp_all add: check_inner r del: check_visit_with.simps(2))
qed

text \<open>
  C35. The checker terminates on every heap of valid nodes, also one with loops, when the path of
  every inner node fits into its header; what it may still meet there is a dangling pointer.  Where it does not, the checker first looks for the smallest leaf below
  the node, and this search never returns on a node that is its own first child: whatever the
  fuel, the visit of \<open>loop_heap\<close> runs out of it.
\<close>

theorem checker_terminates:
  assumes "nodes_inv hp" "inline_paths hp" "\<forall>a. cells hp a \<noteq> None \<longrightarrow> a < next_addr hp"
  shows "check hp m \<noteq> NoFuel
    \<and> check_visit_with fuel loop_heap \<lparr>current_key_prefix = [], seen_nodes = [Ptr Node4 0 \<mapsto> []]\<rparr> (Ptr Node4 0) = NoFuel"
  using check_returns [OF assms] check_loop_diverges by simp

theorem checker_terminates_witness: "check sample_heap sample_map \<noteq> NoFuel"
proof -
  have "inline_paths sample_heap" "\<forall>a. cells sample_heap a \<noteq> None \<longrightarrow> a < next_addr sample_heap"
    by (auto simp: inline_paths_def sample_heap_def sample_frame_def sample_node4_def prefix_len_def split: if_splits)
  then show ?thesis using checker_terminates [OF sample_nodes_inv, of sample_map 0] by blast
qed

end
