(* ===== verification/Node_Laws.thy ===== *)
theory Node_Laws
  imports Tree_Map
begin

text \<open>
  Laws that hold of all kinds of inner nodes beyond the contract the tree relies on: what
  \<open>range\<close> yields (the two wide kinds always, the compressed kinds only for bounds that are
  keys), and that the vectorised searches of a nightly build agree with the loops
  (\<open>src/src/nodes/representation/inner_node_compressed.rs\<close>, \<open>inner_node_48.rs\<close>,
  \<open>inner_node_256.rs\<close>).
\<close>

section \<open>Ranges of compressed nodes\<close>

text \<open>The index at which the searches of the two bounds cut a sorted list of keys.\<close>

definition keys_below :: "byte \<Rightarrow> bytes \<Rightarrow> nat" where
  "keys_below b ks = length (filter (\<lambda>k. k < b) ks)"

lemma sorted_filter_append:
  fixes ks :: bytes
  shows "sorted_wrt (<) ks \<Longrightarrow> filter (\<lambda>k. k < b) ks @ filter (\<lambda>k. b \<le> k) ks = ks"
proof (induction ks)
  case (Cons k ks)
  then have "filter (\<lambda>x. x < b) ks = []" if "b \<le> k" using that by (auto simp: filter_empty_conv)
  then show ?case using Cons by (cases "k < b") auto
qed simp

lemma sorted_filter_less:
  fixes ks :: bytes
  assumes "sorted_wrt (<) ks"
  shows "filter (\<lambda>k. k < b) ks = take (keys_below b ks) ks" "filter (\<lambda>k. b \<le> k) ks = drop (keys_below b ks) ks"
  using sorted_filter_append [OF assms, of b] unfolding keys_below_def
  by (metis append_eq_conv_conj)+

lemma write_point_index:
  assumes "sorted_wrt (<) ks"
  shows "write_point_from 0 b ks =
    (if b \<in> set ks then Existing (keys_below b ks)
     else if keys_below b ks = length ks then Last (keys_below b ks) else Shift (keys_below b ks))"
proof (rule sorted_split [OF assms, of b])
  fix xs ys assume ks: "ks = xs @ b # ys" "\<forall>x\<in>set xs. x < b" "\<forall>y\<in>set ys. b < y"
  then have "filter (\<lambda>k. k < b) ks = xs" by (auto simp: filter_empty_conv filter_id_conv)
  then show ?thesis using ks write_point_from_skip [of xs b 0 "b # ys"] by (simp add: keys_below_def)
next
  fix xs ys assume ks: "ks = xs @ ys" "\<forall>x\<in>set xs. x < b" "\<forall>y\<in>set ys. b < y"
  then have f: "filter (\<lambda>k. k < b) ks = xs" by (auto simp: filter_empty_conv filter_id_conv)
  have "b \<notin> set ks" using ks by auto
  then show ?thesis using ks f write_point_from_skip [of xs b 0 ys] by (cases ys) (simp_all add: keys_below_def)
qed

fun range_start :: "byte bound \<Rightarrow> bytes \<Rightarrow> nat" where
  "range_start (Included b) ks = keys_below b ks"
| "range_start (Excluded b) ks = Suc (keys_below b ks)"
| "range_start Unbounded ks = 0"

fun range_stop :: "byte bound \<Rightarrow> bytes \<Rightarrow> nat" where
  "range_stop (Included b) ks = Suc (keys_below b ks)"
| "range_stop (Excluded b) ks = keys_below b ks"
| "range_stop Unbounded ks = length ks"

lemma compressed_range_eq:
  assumes "compressed_inv SIZE n"
  defines "ks \<equiv> map fst (c_children n)"
  shows "compressed_range n lo hi =
    (if range_start lo ks \<le> range_stop hi ks \<and> range_stop hi ks \<le> length ks
     then Ret (take (range_stop hi ks - range_start lo ks) (drop (range_start lo ks) (c_children n))) else Panic)"
proof -
  obtain ks' ps kr pr where n: "compressed_as n ks' ps kr pr" "sorted_wrt (<) ks'"
    using assms(1) by (rule compressed_asE)
  have len: "length ps = length ks'" using n(1) by (simp add: compressed_as_def)
  have ks: "ks = ks'" "c_children n = zip ks' ps" using compressed_asD(1) [OF n(1)] len by (simp_all add: ks_def)
  have wp: "find_write_point n b = Ret (write_point_from 0 b ks)" for b
    by (simp add: find_write_point_def compressed_asD(2) [OF n(1)] ks)
  have "fixup_bound lo (find_write_point n) = Ret (map_bound (\<lambda>b. keys_below b ks) lo)" for lo
    using write_point_index n(2) ks(1) by (cases lo) (simp_all add: wp map_bound_def)
  then show ?thesis
    using len by (cases lo; cases hi)
      (auto simp: compressed_range_def compressed_asD(2) [OF n(1)] slice_bounds_def slice_range_def map_bound_def
        ks take_zip drop_zip)
qed

section \<open>Ranges of any node\<close>

definition exact_bounds :: "'p inner \<Rightarrow> byte bound \<Rightarrow> byte bound \<Rightarrow> bool" where
  \<comment> \<open>a compressed node is asked for bounds that its keys decide\<close>
  "exact_bounds n lo hi \<longleftrightarrow> inner_type n \<in> {Node48, Node256}
     \<or> (case lo of Excluded b \<Rightarrow> b \<in> fst ` set (inner_children n) | _ \<Rightarrow> True)
       \<and> (case hi of Included b \<Rightarrow> b \<in> fst ` set (inner_children n) | _ \<Rightarrow> True)"

lemma sorted_keys_cut:
  fixes cs :: "(byte \<times> 'p) list"
  assumes "sorted_keys cs"
  shows "filter (\<lambda>c. unat (fst c) < x) cs @ filter (\<lambda>c. x \<le> unat (fst c)) cs = cs"
  using assms
proof (induction cs)
  case (Cons c cs)
  then have "filter (\<lambda>d. unat (fst d) < x) cs = []" if "x \<le> unat (fst c)"
    using that by (auto simp: filter_empty_conv word_less_nat_alt)
  then show ?case using Cons by (cases "unat (fst c) < x") auto
qed simp

lemma take_drop_mid: "xs @ ys @ zs = cs \<Longrightarrow> take (length ys) (drop (length xs) cs) = ys"
  by auto

lemma sorted_keys_slice:
  fixes cs :: "(byte \<times> 'p) list"
  assumes "sorted_keys cs" "x \<le> y"
  defines "i \<equiv> length (filter (\<lambda>c. unat (fst c) < x) cs)" and "j \<equiv> length (filter (\<lambda>c. unat (fst c) < y) cs)"
  shows "take (j - i) (drop i cs) = filter (\<lambda>c. x \<le> unat (fst c) \<and> unat (fst c) < y) cs" "i \<le> j" "j \<le> length cs"
proof -
  have below: "filter (\<lambda>c. unat (fst c) < x) cs @ filter (\<lambda>c. x \<le> unat (fst c) \<and> unat (fst c) < y) cs
      = filter (\<lambda>c. unat (fst c) < y) cs"
  proof -
    have "sorted_keys (filter (\<lambda>c. unat (fst c) < y) cs)" using assms(1) by (induction cs) auto
    from sorted_keys_cut [OF this, of x] show ?thesis
      using assms(2) by (simp add: conj_commute) (smt (verit) filter_cong less_le_trans)
  qed
  have cs: "filter (\<lambda>c. unat (fst c) < x) cs @ filter (\<lambda>c. x \<le> unat (fst c) \<and> unat (fst c) < y) cs
      @ filter (\<lambda>c. y \<le> unat (fst c)) cs = cs"
    unfolding append.assoc [symmetric] below by (rule sorted_keys_cut [OF assms(1)])
  show "i \<le> j" using arg_cong [OF below, of length] by (simp add: i_def j_def)
  show "j \<le> length cs" by (simp add: j_def)
  have "j - i = length (filter (\<lambda>c. x \<le> unat (fst c) \<and> unat (fst c) < y) cs)"
    using arg_cong [OF below, of length] by (simp add: i_def j_def)
  then show "take (j - i) (drop i cs) = filter (\<lambda>c. x \<le> unat (fst c) \<and> unat (fst c) < y) cs"
    using take_drop_mid [OF cs] by (simp add: i_def)
qed

lemma keys_below_children:
  "keys_below b (map fst cs) = length (filter (\<lambda>c. unat (fst c) < unat b) cs)"
  by (simp add: keys_below_def filter_map comp_def word_less_nat_alt)

lemma keys_below_Suc:
  assumes "sorted_keys cs" "b \<in> fst ` set cs"
  shows "Suc (keys_below b (map fst cs)) = length (filter (\<lambda>c. unat (fst c) < Suc (unat b)) cs)"
proof -
  obtain xs p ys where cs: "cs = xs @ (b, p) # ys" using assms(2) by (auto dest: split_list)
  have "\<forall>x\<in>set xs. fst x < b" "\<forall>y\<in>set ys. b < fst y" using assms(1) by (auto simp: cs sorted_wrt_append)
  then have "\<forall>x\<in>set xs. unat (fst x) < unat b" "\<forall>y\<in>set ys. \<not> unat (fst y) < Suc (unat b)"
    by (auto simp: word_less_nat_alt)
  then have "filter (\<lambda>c. unat (fst c) < unat b) cs = xs" "filter (\<lambda>c. unat (fst c) < Suc (unat b)) cs = xs @ [(b, p)]"
    by (auto simp: cs filter_id_conv filter_empty_conv)
  then show ?thesis by (simp add: keys_below_children)
qed

lemma compressed_range_exact:
  assumes inv: "compressed_inv SIZE n" and le: "byte_start lo \<le> byte_stop hi"
    and lo: "case lo of Excluded b \<Rightarrow> b \<in> fst ` set (c_children n) | _ \<Rightarrow> True"
    and hi: "case hi of Included b \<Rightarrow> b \<in> fst ` set (c_children n) | _ \<Rightarrow> True"
  shows "compressed_range n lo hi = Ret (filter (\<lambda>c. within lo hi (fst c)) (c_children n))"
proof -
  let ?cs = "c_children n"
  have s: "sorted_keys ?cs" using compressed_sorted [OF inv] .
  have 1: "range_start lo (map fst ?cs) = length (filter (\<lambda>c. unat (fst c) < byte_start lo) ?cs)"
    using lo keys_below_Suc [OF s] by (cases lo) (auto simp: keys_below_children)
  have 2: "range_stop hi (map fst ?cs) = length (filter (\<lambda>c. unat (fst c) < byte_stop hi) ?cs)"
    using hi keys_below_Suc [OF s] by (cases hi) (auto simp: keys_below_children)
  show ?thesis
    unfolding compressed_range_eq [OF inv] 1 2 within_iff
    using sorted_keys_slice [OF s le] by simp
qed

section \<open>Where the keys of a Node16 are initialised\<close>

text \<open>
  The vectorised searches read all 16 key bytes.  The operations that make a Node16 from a
  header or from a smaller node fill the unused ones with zeros and those on it never make one
  uninitialised; \<open>InnerNode48::shrink\<close> leaves them uninitialised unless there are 16 children,
  which the removal of a child from a node in the range of its kind guarantees.
\<close>

lemma copy_within_set: "copy_within xs i j d = Ret ys \<Longrightarrow> set ys \<subseteq> set xs"
  by (auto simp: copy_within_def dest!: in_set_takeD in_set_dropD split: if_splits)

lemma keys_initialised:
  shows "None \<notin> set (c_keys (compressed_from_header 16 h))"
    and "None \<notin> set (c_keys n) \<Longrightarrow> write_child_at n i b p = Ret n' \<Longrightarrow> None \<notin> set (c_keys n')"
    and "compressed_inv SIZE m \<Longrightarrow> change_block_size 16 m = Ret n' \<Longrightarrow> None \<notin> set (c_keys n')"
proof -
  show "None \<notin> set (c_keys (compressed_from_header 16 h))" by (simp add: compressed_from_header_def)
  show "None \<notin> set (c_keys n')" if "None \<notin> set (c_keys n)" "write_child_at n i b p = Ret n'"
    using that set_update_subset_insert [of "c_keys n" i "Some b"] by (auto simp: write_child_at_def outcome_simps)
  show "None \<notin> set (c_keys n')" if inv: "compressed_inv SIZE m" and c: "change_block_size 16 m = Ret n'"
    using inv c by (auto simp: change_block_size_def copy_prefix_def compressed_inv_def Let_def outcome_simps
        dest: in_set_takeD in_set_dropD split: if_splits)
qed

lemma shrunk_keys:
  assumes "n48_inv n" "length (n48_children n) \<le> 16" "node48_shrink n = Ret n'"
  shows "None \<in> set (c_keys n') \<longleftrightarrow> length (n48_children n) < 16"
  using node48_shrink_eq [OF assms(1,2)] assms(3) by auto

section \<open>Properties\<close>

text \<open>
  C38. \<open>range\<close> on an inner node of any kind yields, in order, exactly the children whose key byte
  lies within the bounds, and does not panic, when the start of the range is not beyond its end
  and, for the nodes with 4 and 16 slots, an excluded start and an included end are keys of the
  node.
\<close>

theorem inner_range_within:
  assumes "inner_inv n" "exact_bounds n lo hi" "byte_start lo \<le> byte_stop hi"
  shows "inner_range n lo hi = Ret (filter (\<lambda>c. within lo hi (fst c)) (inner_children n))"
proof (cases n)
  case (Inner4 m)
  then show ?thesis using compressed_range_exact [of 4 m lo hi] assms by (simp add: exact_bounds_def cong: bound.case_cong)
next
  case (Inner16 m)
  then show ?thesis using compressed_range_exact [of 16 m lo hi] assms by (simp add: exact_bounds_def cong: bound.case_cong)
next
  case (Inner48 m)
  then show ?thesis using node48_range_spec [of m lo hi] assms by simp
next
  case (Inner256 m)
  then show ?thesis using node256_range_spec [of m lo hi] assms by simp
qed

theorem inner_range_within_witness:
  "inner_range sample_node4 (Excluded 2) (Excluded 200) = Ret [(3, Ptr LeafKind 1)]"
proof -
  have n: "inner_inv sample_node4" "inner_type sample_node4 = Node4"
    "inner_children sample_node4 = [(2, Ptr LeafKind 0), (3, Ptr LeafKind 1)]"
    using sample_node_ok by (simp_all add: node_ok_def)
  then show ?thesis
    using inner_range_within [of sample_node4 "Excluded 2" "Excluded 200"]
    by (simp add: exact_bounds_def within_def)
qed

text \<open>
  C39. A node with 4 or 16 slots answers wrongly for the other bounds.  For a byte \<open>b\<close> that is not a
  key, a range that ends with \<open>b\<close> included also yields the child \<open>e\<close> after it, and one that
  starts with \<open>b\<close> excluded leaves \<open>e\<close> out; with all keys below \<open>b\<close> both panic.
\<close>

theorem compressed_range_wrong:
  assumes "inner_inv n" "inner_type n \<in> {Node4, Node16}" "b \<notin> fst ` set (inner_children n)"
  shows "(\<forall>e es. filter (\<lambda>c. within (Excluded b) Unbounded (fst c)) (inner_children n) = e # es \<longrightarrow>
        inner_range n (Excluded b) Unbounded = Ret es
      \<and> inner_range n Unbounded (Included b)
        = Ret (filter (\<lambda>c. within Unbounded (Included b) (fst c)) (inner_children n) @ [e]))
    \<and> ((\<forall>c\<in>set (inner_children n). fst c < b) \<longrightarrow>
        inner_range n (Excluded b) Unbounded = Panic \<and> inner_range n Unbounded (Included b) = Panic)"
proof -
  let ?cs = "inner_children n"
  let ?lt = "filter (\<lambda>c. fst c < b) ?cs" and ?gt = "filter (\<lambda>c. b < fst c) ?cs"
  obtain SIZE m where m: "compressed_inv SIZE m" "c_children m = ?cs" "inner_range n lo hi = compressed_range m lo hi" for lo hi
    using assms(1,2) by (cases n) auto
  have le: "fst c \<le> b \<longleftrightarrow> fst c < b" "b \<le> fst c \<longleftrightarrow> b < fst c" if "c \<in> set ?cs" for c
    using assms(3) that by (auto simp: order.order_iff_strict)
  have s: "sorted_keys ?cs" using compressed_sorted [OF m(1)] m(2) by simp
  have split: "?lt @ ?gt = ?cs"
  proof -
    have "?gt = filter (\<lambda>c. unat b \<le> unat (fst c)) ?cs" using le by (intro filter_cong) (auto simp: word_le_nat_alt)
    then show ?thesis using sorted_keys_cut [OF s, of "unat b"] by (simp add: word_less_nat_alt)
  qed
  have below: "keys_below b (map fst ?cs) = length ?lt" by (simp add: keys_below_def filter_map comp_def)
  have w: "filter (\<lambda>c. within Unbounded (Included b) (fst c)) ?cs = ?lt"
    "filter (\<lambda>c. within (Excluded b) Unbounded (fst c)) ?cs = ?gt"
    using le by (auto simp: within_def intro!: filter_cong)
  note eq = compressed_range_eq [OF m(1), unfolded m(2)]
  have ranges: "inner_range n (Excluded b) Unbounded = Ret es" "inner_range n Unbounded (Included b) = Ret (?lt @ [e])"
    if gt: "?gt = e # es" for e es
  proof -
    have cs: "?cs = ?lt @ e # es" using split gt by simp
    show "inner_range n (Excluded b) Unbounded = Ret es"
      unfolding m(3) eq range_start.simps range_stop.simps below by (subst (3) cs) (simp add: arg_cong [OF cs, of length])
    show "inner_range n Unbounded (Included b) = Ret (?lt @ [e])"
      unfolding m(3) eq range_start.simps range_stop.simps below by (subst (2) cs) (simp add: arg_cong [OF cs, of length])
  qed
  have panics: "inner_range n (Excluded b) Unbounded = Panic" "inner_range n Unbounded (Included b) = Panic"
    if "\<forall>c\<in>set ?cs. fst c < b"
  proof -
    have "?lt = ?cs" using that by (simp add: filter_id_conv)
    then show "inner_range n (Excluded b) Unbounded = Panic" "inner_range n Unbounded (Included b) = Panic"
      unfolding m(3) eq range_start.simps range_stop.simps below by simp_all
  qed
  show ?thesis unfolding w using ranges panics by blast
qed

theorem compressed_range_wrong_witness:
  "inner_range sample_node4 (Excluded 0) Unbounded = Ret [(3, Ptr LeafKind 1)]
    \<and> inner_range sample_node4 Unbounded (Included 0) = Ret [(2, Ptr LeafKind 0)]"
proof -
  have n: "inner_inv sample_node4" "inner_type sample_node4 = Node4"
    "inner_children sample_node4 = [(2, Ptr LeafKind 0), (3, Ptr LeafKind 1)]"
    using sample_node_ok by (simp_all add: node_ok_def)
  then show ?thesis
    using compressed_range_wrong [of sample_node4 0] by (simp add: within_def)
qed

text \<open>
  C40. The vectorised code of a nightly build computes what the loops compute: both searches of a
  Node16 whose key array is initialised, the smallest and the largest child of a Node48 and of
  a Node256.  The unused keys of a Node16 are initialised after \<open>from_header\<close>, after growing from
  a Node4 and after shrinking from a Node48 with 16 children, but not after shrinking from one
  with fewer, where the vectorised search is undefined behaviour.
\<close>

theorem vectorised_searches:
  assumes "compressed_inv 16 c" "n48_inv n" "n48_children n \<noteq> []" "n256_inv w" "n256_children w \<noteq> []"
  shows "(None \<notin> set (c_keys c) \<longrightarrow>
        lookup_child_index_simd c b = lookup_child_index c b \<and> find_write_point_simd c b = find_write_point c b)
    \<and> node48_min_simd n = node48_min n \<and> node48_max_simd n = node48_max n
    \<and> node256_min_simd w = node256_min w \<and> node256_max_simd w = node256_max w
    \<and> (\<forall>m c'. compressed_inv 4 m \<and> change_block_size 16 m = Ret c' \<longrightarrow> None \<notin> set (c_keys c'))
    \<and> (\<forall>c'. node48_shrink n = Ret c' \<longrightarrow>
        (if length (n48_children n) < 16 then lookup_child_index_simd c' b = UB else None \<notin> set (c_keys c')))"
proof -
  have shrink: "if length (n48_children n) < 16 then lookup_child_index_simd c' b = UB else None \<notin> set (c_keys c')"
    if c': "node48_shrink n = Ret c'" for c'
  proof -
    have "length (n48_children n) \<le> 16"
      using c' n48_count [OF assms(2)] by (simp add: node48_shrink_def outcome_simps)
    note sh = shrunk_keys [OF assms(2) this c']
    have "assume_init_slice xs = UB" if "None \<in> set xs" for xs :: "byte option list"
      using that by (induction xs rule: assume_init_slice.induct) auto
    then show ?thesis using sh by (simp add: lookup_child_index_simd_def)
  qed
  show ?thesis
    using simd_search_eq [OF assms(1), of b] node48_simd_spec [OF assms(2,3)] node256_simd_spec [OF assms(4,5)]
      keys_initialised(3) shrink by blast
qed

theorem vectorised_searches_witness:
  "\<exists>n w. node48_write_child (node48_from_header (header_empty 4)) 7 (1 :: nat) = Ret n
    \<and> node256_write_child (node256_from_header (header_empty 4)) 7 (1 :: nat) = Ret w
    \<and> node48_min_simd n = Ret (7, 1) \<and> node256_max_simd w = Ret (7, 1)
    \<and> lookup_child_index_simd (compressed_from_header 16 (header_empty 4) :: nat inner_compressed) 7 = Ret None"
proof -
  let ?c = "compressed_from_header 16 (header_empty 4) :: nat inner_compressed"
  have c: "compressed_inv 16 ?c" "c_children ?c = []" using compressed_from_header_inv [OF header_empty_repr(3)] by auto
  have e48: "n48_inv (node48_from_header (header_empty 4) :: nat inner48)"
      "n48_children (node48_from_header (header_empty 4) :: nat inner48) = []"
    and e256: "n256_inv (node256_from_header (header_empty 4) :: nat inner256)"
      "n256_children (node256_from_header (header_empty 4) :: nat inner256) = []"
    using node48_from_header_inv node256_from_header_inv header_empty_repr(3) by blast+
  obtain n where n: "node48_write_child (node48_from_header (header_empty 4)) 7 (1 :: nat) = Ret n" "n48_inv n" "n48_children n = [(7, 1)]"
    using e48 n48.write_spec [of "node48_from_header (header_empty 4)" 7 "1 :: nat"]
    by (auto simp: al_write_def)
  obtain w where w: "node256_write_child (node256_from_header (header_empty 4)) 7 (1 :: nat) = Ret w" "n256_inv w" "n256_children w = [(7, 1)]"
    using e256 n256.write_spec [of "node256_from_header (header_empty 4)" 7 "1 :: nat"]
    by (auto simp: al_write_def)
  have "lookup_child_index ?c 7 = Ret None"
    by (simp add: lookup_child_index_def initialized_portion_def compressed_from_header_def header_empty_repr(3))
  then show ?thesis
    using vectorised_searches [OF c(1) n(2) _ w(2), of 7] n w keys_initialised(1) [of "header_empty 4"]
      n48.min_spec [OF n(2)] n256.max_spec [OF w(2)] by auto
qed

end
