(* ===== verification/Clone.thy ===== *)
theory Clone
  imports Tree_Map
begin

text \<open>
  \<open>TreeMap::clone\<close> (\<open>src/src/collections/map.rs\<close>) and the \<open>deep_clone\<close> of every node kind
  (\<open>src/src/nodes/representation.rs\<close> and the files of the inner nodes): a recursive copy into
  freshly allocated nodes.  The user's \<open>Clone\<close> implementations for keys and values are the
  parameters \<open>clone_key\<close> and \<open>clone_value\<close>; what the copy relies on is that a cloned key has
  the bytes of the original.

  The lemmas show that the clone is a map of its own: none of its nodes is shared with the
  original, whose memory is unchanged, and its entries are the clones of the entries.
\<close>

section \<open>Operations\<close>

text \<open>
  The body of the loop of each \<open>deep_clone\<close>, for the \<open>idx\<close>th pair of the original node; the
  header, with the number of children, is a clone of the header of the original already.
\<close>

definition node48_put :: "'p inner48 \<Rightarrow> nat \<Rightarrow> byte \<Rightarrow> 'p \<Rightarrow> 'p inner48 outcome" where
  "node48_put n idx key_fragment child_pointer =
     and_then (unwrap_unchecked (restricted_from_usize idx)) (\<lambda>ri.
     and_then (store_at (n48_child_indices n) (unat key_fragment) ri) (\<lambda>indices.
     and_then (assume_that (idx < length (n48_child_pointers n))) (\<lambda>_.
     and_then (store_at (n48_child_pointers n) idx (Some child_pointer)) (\<lambda>ps.
     Ret (n\<lparr>n48_child_indices := indices, n48_child_pointers := ps\<rparr>)))))"

definition node256_put :: "'p inner256 \<Rightarrow> byte \<Rightarrow> 'p \<Rightarrow> 'p inner256 outcome" where
  "node256_put n key_fragment child_pointer =
     and_then (store_at (n256_child_pointers n) (unat key_fragment) (Some child_pointer)) (\<lambda>ps.
     Ret (n\<lparr>n256_child_pointers := ps\<rparr>))"

fun inner_put :: "'p inner \<Rightarrow> nat \<Rightarrow> byte \<Rightarrow> 'p \<Rightarrow> 'p inner outcome" where
  "inner_put (Inner4 n) idx b p = map_outcome Inner4 (write_child_at n idx b p)"
| "inner_put (Inner16 n) idx b p = map_outcome Inner16 (write_child_at n idx b p)"
| "inner_put (Inner48 n) idx b p = map_outcome Inner48 (node48_put n idx b p)"
| "inner_put (Inner256 n) idx b p = map_outcome Inner256 (node256_put n b p)"

fun clone_children ::
    "(('k, 'v) heap \<Rightarrow> node_ptr \<Rightarrow> (node_ptr \<times> ('k, 'v) heap) outcome) \<Rightarrow> ('k, 'v) heap
      \<Rightarrow> node_ptr \<Rightarrow> nat \<Rightarrow> (byte \<times> node_ptr) list \<Rightarrow> ('k, 'v) heap outcome" where
  \<comment> \<open>the loop over \<open>self.iter().enumerate()\<close>, which fills the node at \<open>node\<close>\<close>
  "clone_children clone_child hp node idx [] = Ret hp"
| "clone_children clone_child hp node idx ((key_fragment, child_pointer) # cs) =
     and_then (clone_child hp child_pointer) (\<lambda>(child_pointer, hp).
     and_then (read_inner hp node) (\<lambda>n.
     and_then (inner_put n idx key_fragment child_pointer) (\<lambda>n.
     and_then (write_inner hp node n) (\<lambda>hp.
     clone_children clone_child hp node (Suc idx) cs))))"

fun deep_clone ::
    "nat \<Rightarrow> ('k key \<Rightarrow> 'k key) \<Rightarrow> ('v \<Rightarrow> 'v) \<Rightarrow> ('k, 'v) heap \<Rightarrow> node_ptr
      \<Rightarrow> (node_ptr \<times> ('k, 'v) heap) outcome" where
  "deep_clone 0 clone_key clone_value hp p = NoFuel"
| "deep_clone (Suc fuel) clone_key clone_value hp p =
     (if ptr_type p = LeafKind then
        and_then (read_leaf hp p) (\<lambda>l.
        Ret (alloc_leaf hp \<lparr>leaf_key = clone_key (leaf_key l), leaf_value = clone_value (leaf_value l)\<rparr>))
      else
        and_then (read_inner hp p) (\<lambda>inner_node.
        and_then (inner_from_header (ptr_type p) (inner_header inner_node)) (\<lambda>n.
        let (node, hp) = alloc_inner hp n in
        and_then (inner_iter inner_node) (\<lambda>children.
        and_then (clone_children (\<lambda>hp p. deep_clone fuel clone_key clone_value hp p) hp node 0 children)
          (\<lambda>hp. Ret (node, hp))))))"

definition clone_map ::
    "('k key \<Rightarrow> 'k key) \<Rightarrow> ('v \<Rightarrow> 'v) \<Rightarrow> ('k, 'v) heap \<Rightarrow> treemap
      \<Rightarrow> (treemap \<times> ('k, 'v) heap) outcome" where
  \<comment> \<open>\<open>TreeMap::clone\<close>\<close>
  "clone_map clone_key clone_value hp m =
     (case map_root m of
        Some root \<Rightarrow>
          and_then (deep_clone (Suc (next_addr hp)) clone_key clone_value hp root) (\<lambda>(root, hp).
          Ret (\<lparr>num_entries = num_entries m, map_root = Some root\<rparr>, hp))
      | None \<Rightarrow> Ret (with_prefix_len, hp))"

section \<open>Filling a node\<close>

fun put_all :: "'p inner \<Rightarrow> nat \<Rightarrow> (byte \<times> 'p) list \<Rightarrow> 'p inner outcome" where
  "put_all n idx [] = Ret n"
| "put_all n idx ((b, p) # cs) = and_then (inner_put n idx b p) (\<lambda>n. put_all n (Suc idx) cs)"

text \<open>Each kind takes its pairs in the order of the iterator.\<close>

lemma inner_put_type: "inner_put n idx b p = Ret n' \<Longrightarrow> inner_type n' = inner_type n"
  by (cases n) (auto simp: map_outcome_def outcome_simps)

lemma put_all_compressed:
  assumes "C = Inner4 \<or> C = Inner16" "length ds + length cs \<le> SIZE" "length kr = SIZE - length ds"
    "length pr = SIZE - length ds"
  shows "\<exists>kr' pr'. put_all
      (C \<lparr>c_header = h, c_keys = map (\<lambda>d. Some (fst d)) ds @ kr, c_child_pointers = map (\<lambda>d. Some (snd d)) ds @ pr\<rparr>)
      (length ds) cs
    = Ret (C \<lparr>c_header = h, c_keys = map (\<lambda>d. Some (fst d)) (ds @ cs) @ kr',
        c_child_pointers = map (\<lambda>d. Some (snd d)) (ds @ cs) @ pr'\<rparr>)
    \<and> length kr' = SIZE - length (ds @ cs) \<and> length pr' = SIZE - length (ds @ cs)"
  using assms(2-)
proof (induction cs arbitrary: ds kr pr)
  case (Cons c cs)
  obtain b p where c: "c = (b, p)" by (cases c)
  obtain k kr' where kr: "kr = k # kr'" using Cons.prems by (cases kr) auto
  obtain q pr' where pr: "pr = q # pr'" using Cons.prems by (cases pr) auto
  have "inner_put (C \<lparr>c_header = h, c_keys = map (\<lambda>d. Some (fst d)) ds @ kr, c_child_pointers = map (\<lambda>d. Some (snd d)) ds @ pr\<rparr>)
      (length ds) b p
    = Ret (C \<lparr>c_header = h, c_keys = map (\<lambda>d. Some (fst d)) (ds @ [c]) @ kr', c_child_pointers = map (\<lambda>d. Some (snd d)) (ds @ [c]) @ pr'\<rparr>)"
    using assms(1) Cons.prems by (auto simp: write_child_at_def kr pr c list_update_append)
  then show ?case
    using Cons.IH [of "ds @ [c]" kr' pr'] Cons.prems by (auto simp: c kr pr)
qed auto

lemma put_all_48:
  "put_all (Inner48 n) idx cs =
     and_then (node256_shrink_from idx cs (n48_child_indices n) (n48_child_pointers n)) (\<lambda>(indices, ps).
     Ret (Inner48 (n\<lparr>n48_child_indices := indices, n48_child_pointers := ps\<rparr>)))"
  if "idx + length cs \<le> 48" "length (n48_child_indices n) = 256" "length (n48_child_pointers n) = 48"
  using that
proof (induction cs arbitrary: n idx)
  case (Cons c cs)
  obtain b p where c: "c = (b, p)" by (cases c)
  have "node48_put n idx b p = Ret (n\<lparr>n48_child_indices := (n48_child_indices n)[unat b := of_nat idx],
      n48_child_pointers := (n48_child_pointers n)[idx := Some p]\<rparr>)"
    using Cons.prems by (simp add: node48_put_def restricted_from_usize_def)
  then show ?case
    using Cons.IH [of "Suc idx" "n\<lparr>n48_child_indices := (n48_child_indices n)[unat b := of_nat idx],
      n48_child_pointers := (n48_child_pointers n)[idx := Some p]\<rparr>"] Cons.prems
    by (simp add: c restricted_from_usize_def)
qed simp

lemma put_all_256:
  assumes "length (n256_child_pointers n) = 256" "distinct (map fst cs)"
  shows "\<exists>ps. put_all (Inner256 n) idx cs = Ret (Inner256 (n\<lparr>n256_child_pointers := ps\<rparr>))
    \<and> length ps = 256
    \<and> (\<forall>b. ps ! unat b = (case map_of cs b of None \<Rightarrow> n256_child_pointers n ! unat b | Some p \<Rightarrow> Some p))"
  using assms
proof (induction cs arbitrary: n idx)
  case (Cons c cs)
  obtain b p where c: "c = (b, p)" by (cases c)
  let ?n = "n\<lparr>n256_child_pointers := (n256_child_pointers n)[unat b := Some p]\<rparr>"
  have "node256_put n b p = Ret ?n" using Cons.prems by (simp add: node256_put_def)
  moreover obtain ps where "put_all (Inner256 ?n) (Suc idx) cs = Ret (Inner256 (?n\<lparr>n256_child_pointers := ps\<rparr>))"
      "length ps = 256"
      "\<And>b. ps ! unat b = (case map_of cs b of None \<Rightarrow> n256_child_pointers ?n ! unat b | Some p \<Rightarrow> Some p)"
    using Cons.IH [of ?n "Suc idx"] Cons.prems by auto
  moreover have "map_of cs b = None" using Cons.prems c by (auto simp: map_of_eq_None_iff)
  ultimately show ?case
    using Cons.prems(1) by (auto simp: c nth_list_update split: option.splits)
next
  case Nil
  then show ?case by (intro exI [of _ "n256_child_pointers n"]) simp
qed

text \<open>A node made from the header of another and filled with as many pairs is well formed.\<close>

lemma put_all_spec:
  fixes cs :: "(byte \<times> 'p) list"
  assumes "ty \<noteq> LeafKind" "sorted_keys cs" "length cs = num_children h" "length cs \<le> upper_capacity ty"
  shows "\<exists>n0 n. inner_from_header ty h = Ret n0 \<and> put_all n0 0 cs = Ret n \<and> inner_inv n
    \<and> inner_type n = ty \<and> inner_children n = cs \<and> inner_header n = h"
proof -
  have d: "distinct (map fst cs)" by (rule sorted_keys_distinct [OF assms(2)])
  have compressed: "\<exists>n. put_all (C (compressed_from_header SIZE h)) 0 cs = Ret (C n) \<and> compressed_inv SIZE n
      \<and> c_children n = cs \<and> c_header n = h"
    if C: "C = Inner4 \<or> C = Inner16" and le: "length cs \<le> SIZE" for C :: "'p inner_compressed \<Rightarrow> 'p inner" and SIZE
  proof -
    obtain kr pr where n: "put_all (C (compressed_from_header SIZE h)) 0 cs
        = Ret (C \<lparr>c_header = h, c_keys = map (\<lambda>d. Some (fst d)) cs @ kr, c_child_pointers = map (\<lambda>d. Some (snd d)) cs @ pr\<rparr>)"
        "length kr = SIZE - length cs" "length pr = SIZE - length cs"
      using put_all_compressed [OF C, of "[]" cs SIZE
        "replicate SIZE (if SIZE = 16 then Some 0 else None)" "replicate SIZE None" h] le
      unfolding compressed_from_header_def by auto
    have "compressed_as \<lparr>c_header = h, c_keys = map (\<lambda>d. Some (fst d)) cs @ kr, c_child_pointers = map (\<lambda>d. Some (snd d)) cs @ pr\<rparr>
        (map fst cs) (map snd cs) kr pr"
      using assms(3) by (simp add: compressed_as_def)
    from compressed_invI [OF this assms(2), of SIZE] compressed_asD(1) [OF this] n le
    show ?thesis by (auto simp: zip_map_fst_snd)
  qed
  show ?thesis
  proof (cases ty)
    case Node4
    then show ?thesis using compressed [of Inner4 4] assms(4) by auto
  next
    case Node16
    then show ?thesis using compressed [of Inner16 16] assms(4) by auto
  next
    case Node48
    obtain ixs where ixs: "number_keys 0 (map fst cs) (replicate 256 EMPTY) = Ret ixs"
      using number_keys_Ret [of 0 "map fst cs" "replicate 256 EMPTY"] d assms(4) Node48 by auto
    let ?n = "\<lparr>n48_header = h, n48_child_indices = ixs,
      n48_child_pointers = map Some (map snd cs) @ replicate (48 - length cs) None\<rparr>"
    have "put_all (Inner48 (node48_from_header h)) 0 cs = Ret (Inner48 ?n)"
      using node256_shrink_from_Ret [of "[]" cs "replicate 256 EMPTY" ixs] ixs d assms(4) Node48
        put_all_48 [of 0 cs "node48_from_header h"]
      by (simp add: node48_from_header_def)
    moreover have "n48_inv ?n \<and> n48_children ?n = cs"
    proof -
      have "length (map fst cs) \<le> 48" "num_children h = length (map fst cs)"
        using assms(3,4) Node48 by simp_all
      from numbered_node48 [OF assms(2) _ this(1) ixs this(2), of "map snd cs"] show ?thesis
        by (simp only: zip_map_fst_snd length_map simp_thms)
    qed
    ultimately show ?thesis using Node48 by simp
  next
    case Node256
    have none: "n256_child_pointers (node256_from_header h) ! unat b = (None :: 'p option)" for b :: byte
      by (simp add: node256_from_header_def)
    obtain ps where ps: "put_all (Inner256 (node256_from_header h)) 0 cs
        = Ret (Inner256 \<lparr>n256_header = h, n256_child_pointers = ps\<rparr>)" "length ps = 256"
        "\<forall>b. ps ! unat b = (case map_of cs b of None \<Rightarrow> None | Some p \<Rightarrow> Some p)"
      using put_all_256 [of "node256_from_header h" cs 0] d unfolding none
      by (auto simp: node256_from_header_def)
    have "slots_from 0 ps = cs"
      by (rule slots_eqI [OF ps(2) assms(2)]) (simp add: ps(3) split: option.split)
    then show ?thesis using ps assms(3) Node256 by (simp add: n256_inv_def n256_children_def)
  qed (use assms(1) in simp)
qed

section \<open>The copy of a tree\<close>

text \<open>The clone of a tree is one of the same shape, with the clones of the entries.\<close>

definition clone_of :: "('k key \<Rightarrow> 'k key) \<Rightarrow> ('v \<Rightarrow> 'v) \<Rightarrow> ('k, 'v) art \<Rightarrow> ('k, 'v) art \<Rightarrow> bool" where
  "clone_of ck cv t t' \<longleftrightarrow> (\<forall>path. wf_art path t \<longrightarrow> wf_art path t')
     \<and> map snd (leaves t') = map (map_prod ck cv \<circ> snd) (leaves t)"

definition fresh_between :: "('k, 'v) heap \<Rightarrow> ('k, 'v) heap \<Rightarrow> nat list \<Rightarrow> bool" where
  \<comment> \<open>the addresses are new in the second heap\<close>
  "fresh_between hp hp' xs \<longleftrightarrow> distinct xs \<and> next_addr hp \<le> next_addr hp'
     \<and> (\<forall>a\<in>set xs. next_addr hp \<le> a \<and> a < next_addr hp')"

definition cloned ::
    "nat \<Rightarrow> ('k key \<Rightarrow> 'k key) \<Rightarrow> ('v \<Rightarrow> 'v) \<Rightarrow> ('k, 'v) heap \<Rightarrow> ('k, 'v) art \<Rightarrow> ('k, 'v) heap \<Rightarrow> ('k, 'v) art \<Rightarrow> bool" where
  "cloned N ck cv hp t hp' t' \<longleftrightarrow> represents N hp' t' \<and> clone_of ck cv t t' \<and> fresh_between hp hp' (addrs t')
     \<and> (\<forall>a. a \<notin> set (addrs t') \<longrightarrow> cells hp' a = cells hp a)"

abbreviation children_addrs :: "(byte \<times> ('k, 'v) art) list \<Rightarrow> nat list" where
  "children_addrs ch \<equiv> concat (map (\<lambda>(b, t). addrs t) ch)"

lemma children_addrs_mem: "(b, t) \<in> set ch \<Longrightarrow> set (addrs t) \<subseteq> set (children_addrs ch)"
  by auto

lemma cloned_frame:
  assumes "cloned N ck cv hp t hp' t'" "a < next_addr hp"
  shows "cells hp' a = cells hp a"
  using assms unfolding cloned_def fresh_between_def by (meson leD)

lemma cloned_represents:
  assumes "cloned N ck cv hp t hp' t'" "represents N hp u" "\<forall>a\<in>set (addrs u). a < next_addr hp"
  shows "represents N hp' u"
  by (rule represents_frame [OF assms(2)]) (use assms(1,3) cloned_frame in blast)

lemma clone_children_spec:
  assumes "\<And>b t hp. (b, t) \<in> set ch \<Longrightarrow> represents N hp t \<Longrightarrow> \<forall>x\<in>set (addrs t). x < next_addr hp \<Longrightarrow>
      \<exists>t' hp'. f hp (root_ptr t) = Ret (root_ptr t', hp') \<and> cloned N ck cv hp t hp' t'"
    and "cells hp a = Some (InnerCell n)" "inner_type n = ty" "a < next_addr hp"
    and "\<forall>cs. map fst cs = map fst ch \<longrightarrow> (\<exists>n'. put_all n idx cs = Ret n')"
    and "\<forall>(b, t)\<in>set ch. represents N hp t" "\<forall>x\<in>set (children_addrs ch). x < next_addr hp \<and> x \<noteq> a"
  shows "\<exists>ch' hp' n'. clone_children f hp (Ptr ty a) idx (child_ptrs ch) = Ret hp'
    \<and> list_all2 (\<lambda>(b, t) (b', t'). b' = b \<and> clone_of ck cv t t') ch ch'
    \<and> put_all n idx (child_ptrs ch') = Ret n' \<and> cells hp' a = Some (InnerCell n')
    \<and> (\<forall>(b, t)\<in>set ch'. represents N hp' t) \<and> fresh_between hp hp' (children_addrs ch')
    \<and> (\<forall>x. x \<noteq> a \<longrightarrow> x \<notin> set (children_addrs ch') \<longrightarrow> cells hp' x = cells hp x)"
  using assms
proof (induction ch arbitrary: hp n idx)
  case Nil
  then show ?case by (simp add: fresh_between_def child_ptrs_def)
next
  case (Cons c ch)
  obtain b t where c: "c = (b, t)" by (cases c)
  have t: "represents N hp t" "\<forall>x\<in>set (addrs t). x < next_addr hp" using Cons.prems(6,7) c by auto
  obtain t' hp1 where c1: "f hp (root_ptr t) = Ret (root_ptr t', hp1)" "cloned N ck cv hp t hp1 t'"
    using Cons.prems(1) [OF _ t, of b] c by auto
  have at': "a \<notin> set (addrs t')" using c1(2) Cons.prems(4) by (auto simp: cloned_def fresh_between_def)
  have a1: "cells hp1 a = Some (InnerCell n)" using cloned_frame [OF c1(2) Cons.prems(4)] Cons.prems(2) by simp
  obtain n1 where n1: "inner_put n idx b (root_ptr t') = Ret n1"
      "\<forall>cs. map fst cs = map fst ch \<longrightarrow> (\<exists>n'. put_all n1 (Suc idx) cs = Ret n')"
  proof -
    have all: "\<exists>n'. put_all n idx ((b, root_ptr t') # cs) = Ret n'" if "map fst cs = map fst ch" for cs
      using Cons.prems(5) that c by (metis fst_conv list.simps(9))
    from all [of "child_ptrs ch"] obtain n1 where "inner_put n idx b (root_ptr t') = Ret n1"
      by (auto simp: outcome_simps)
    then show thesis using all by (intro that [of n1]) auto
  qed
  define hp2 where "hp2 = hp1\<lparr>cells := (cells hp1)(a \<mapsto> InnerCell n1)\<rparr>"
  have w: "write_inner hp1 (Ptr ty a) n1 = Ret hp2" "read_inner hp1 (Ptr ty a) = Ret n"
    using a1 Cons.prems(3) by (simp_all add: write_inner_def read_inner_def hp2_def)
  have le: "next_addr hp \<le> next_addr hp2" "next_addr hp2 = next_addr hp1"
    using c1(2) by (simp_all add: cloned_def fresh_between_def hp2_def)
  have rep: "represents N hp2 u" if "represents N hp1 u" "a \<notin> set (addrs u)" for u
    using that(1) by (rule represents_frame) (use that(2) in \<open>auto simp: hp2_def\<close>)
  have prems: "\<forall>(b, u)\<in>set ch. represents N hp2 u"
  proof (intro ballI, clarify)
    fix d u assume u: "(d, u) \<in> set ch"
    then have "represents N hp u" "\<forall>x\<in>set (addrs u). x < next_addr hp" "a \<notin> set (addrs u)"
      using Cons.prems(6,7) c by auto
    then show "represents N hp2 u" using rep cloned_represents [OF c1(2)] by blast
  qed
  obtain ch' hp' n' where IH:
    "clone_children f hp2 (Ptr ty a) (Suc idx) (child_ptrs ch) = Ret hp'"
    "list_all2 (\<lambda>(b, t) (b', t'). b' = b \<and> clone_of ck cv t t') ch ch'"
    "put_all n1 (Suc idx) (child_ptrs ch') = Ret n'" "cells hp' a = Some (InnerCell n')"
    "\<forall>(b, t)\<in>set ch'. represents N hp' t" "fresh_between hp2 hp' (children_addrs ch')"
    "\<forall>x. x \<noteq> a \<longrightarrow> x \<notin> set (children_addrs ch') \<longrightarrow> cells hp' x = cells hp2 x"
  proof -
    have "\<exists>ch' hp' n'. clone_children f hp2 (Ptr ty a) (Suc idx) (child_ptrs ch) = Ret hp'
      \<and> list_all2 (\<lambda>(b, t) (b', t'). b' = b \<and> clone_of ck cv t t') ch ch'
      \<and> put_all n1 (Suc idx) (child_ptrs ch') = Ret n' \<and> cells hp' a = Some (InnerCell n')
      \<and> (\<forall>(b, t)\<in>set ch'. represents N hp' t) \<and> fresh_between hp2 hp' (children_addrs ch')
      \<and> (\<forall>x. x \<noteq> a \<longrightarrow> x \<notin> set (children_addrs ch') \<longrightarrow> cells hp' x = cells hp2 x)"
    proof (rule Cons.IH)
      show "\<exists>t' hp'. f hp (root_ptr t) = Ret (root_ptr t', hp') \<and> cloned N ck cv hp t hp' t'"
        if "(b, t) \<in> set ch" "represents N hp t" "\<forall>x\<in>set (addrs t). x < next_addr hp" for b t hp
        using Cons.prems(1) [OF _ that(2,3), of b] that(1) by simp
      show "inner_type n1 = ty" using inner_put_type [OF n1(1)] Cons.prems(3) by simp
      show "\<forall>x\<in>set (children_addrs ch). x < next_addr hp2 \<and> x \<noteq> a"
      proof
        fix x assume "x \<in> set (children_addrs ch)"
        then have "x < next_addr hp" "x \<noteq> a" using Cons.prems(7) c by auto
        then show "x < next_addr hp2 \<and> x \<noteq> a" using le(1) by simp
      qed
      show "cells hp2 a = Some (InnerCell n1)" by (simp add: hp2_def)
      show "a < next_addr hp2" using Cons.prems(4) le(1) by (rule less_le_trans)
    qed (rule n1(2) prems)+
    then show thesis using that by blast
  qed
  have old: "x < next_addr hp2" if "x \<in> set (addrs t')" for x
    using c1(2) that le by (auto simp: cloned_def fresh_between_def)
  have "x \<notin> set (children_addrs ch')" if "x < next_addr hp2" for x
    using IH(6) that unfolding fresh_between_def by (meson leD)
  then have t'_frame: "cells hp' x = cells hp2 x" if "x \<in> set (addrs t')" for x
    using IH(7) old [OF that] that at' by metis
  have "represents N hp' t'"
    by (rule represents_frame [OF rep]) (use c1(2) at' t'_frame in \<open>auto simp: cloned_def\<close>)
  moreover have "fresh_between hp hp' (addrs t' @ children_addrs ch')"
    using c1(2) IH(6) le unfolding cloned_def fresh_between_def by fastforce
  moreover have "cells hp' x = cells hp x" if "x \<noteq> a" "x \<notin> set (addrs t')" "x \<notin> set (children_addrs ch')" for x
    using c1(2) IH(7) that by (simp add: cloned_def hp2_def)
  ultimately show ?case
    using c1 IH(1-5) n1(1) w
    by (intro exI [of _ "(b, t') # ch'"] exI [of _ hp'] exI [of _ n'])
      (simp add: c child_ptrs_def cloned_def del: map_map)
qed

lemma clone_of_inner:
  assumes "list_all2 (\<lambda>(b, t) (b', t'). b' = b \<and> clone_of ck cv t t') ch ch'"
  shows "map fst ch' = map fst ch" "clone_of ck cv (AInner a ty pf ch) (AInner a' ty pf ch')"
proof -
  have fst: "map fst ch' = map fst ch" using assms by (induction rule: list_all2_induct) auto
  have "(\<forall>(b, t)\<in>set ch. wf_art (path @ pf @ [b]) t) \<longrightarrow> (\<forall>(b, t)\<in>set ch'. wf_art (path @ pf @ [b]) t)" for path
    using assms by (induction rule: list_all2_induct) (auto simp: clone_of_def)
  moreover have "length ch' = length ch" using fst by (metis length_map)
  moreover have "map snd (concat (map (\<lambda>(b, t). leaves t) ch'))
      = map (map_prod ck cv \<circ> snd) (concat (map (\<lambda>(b, t). leaves t) ch))"
    using assms by (induction rule: list_all2_induct) (auto simp: clone_of_def)
  ultimately show "clone_of ck cv (AInner a ty pf ch) (AInner a' ty pf ch')"
    by (simp add: clone_of_def fst)
  show "map fst ch' = map fst ch" by (rule fst)
qed

lemma alloc_inner_at [simp]:
  "alloc_inner hp n = (Ptr (inner_type n) (next_addr hp), alloc hp (InnerCell n))"
  by (simp add: alloc_inner_def)

theorem deep_clone_spec:
  assumes bytes: "\<And>k. as_bytes (ck k) = as_bytes k"
    and "represents N hp t" "\<forall>x\<in>set (addrs t). x < next_addr hp" "height t < fuel"
  shows "\<exists>t' hp'. deep_clone fuel ck cv hp (root_ptr t) = Ret (root_ptr t', hp') \<and> cloned N ck cv hp t hp' t'"
  using assms(2-)
proof (induction fuel arbitrary: t hp)
  case (Suc fuel)
  show ?case
  proof (cases t)
    case (ALeaf a k v)
    have "read_leaf hp (Ptr LeafKind a) = Ret \<lparr>leaf_key = k, leaf_value = v\<rparr>"
      by (rule read_leaf_Ret) (use Suc.prems(1) ALeaf in simp)
    moreover have "cloned N ck cv hp t (alloc hp (LeafCell \<lparr>leaf_key = ck k, leaf_value = cv v\<rparr>))
        (ALeaf (next_addr hp) (ck k) (cv v))"
      using bytes by (simp add: ALeaf cloned_def clone_of_def fresh_between_def)
    ultimately show ?thesis
      by (intro exI [of _ "ALeaf (next_addr hp) (ck k) (cv v)"]) (simp add: ALeaf alloc_leaf_def)
  next
    case (AInner a ty pf ch)
    obtain n where n: "read_inner hp (Ptr ty a) = Ret n" "node_ok N n ty pf (child_ptrs ch)" "ty \<noteq> LeafKind"
      using read_inner_Ret [OF Suc.prems(1) [unfolded AInner]] by metis
    note ok = node_okD [OF n(2)]
    have inv: "sorted_keys ch" "length ch \<le> upper_capacity ty"
      using inn.children_sorted [OF ok(2)] inn.children_fit [OF ok(2)] ok(1,5) by simp_all
    have fill: "\<exists>n1. put_all n0 0 cs = Ret n1 \<and> inner_inv n1 \<and> inner_type n1 = ty \<and> inner_children n1 = cs
        \<and> inner_header n1 = inner_header n"
      if "inner_from_header ty (inner_header n) = Ret n0" "map fst cs = map fst ch"
      for n0 :: "node_ptr inner" and cs
    proof -
      have "length cs = length ch" using that(2) by (metis length_map)
      then show ?thesis
        using put_all_spec [of ty cs "inner_header n"] that inv ok(7) n(3) by auto
    qed
    obtain n0 :: "node_ptr inner" where n0: "inner_from_header ty (inner_header n) = Ret n0" "inner_type n0 = ty"
      using n(3) by (cases ty) auto
    let ?a = "next_addr hp" and ?hp = "alloc hp (InnerCell n0)"
    let ?f = "\<lambda>hp p. deep_clone fuel ck cv hp p"
    have child: "represents N ?hp u" if "(b, u) \<in> set ch" for b u
      by (rule represents_frame [of N hp]) (use that Suc.prems(1,2) AInner in \<open>fastforce+\<close>)
    obtain ch' hp' n' where c:
      "clone_children ?f ?hp (Ptr ty ?a) 0 (child_ptrs ch) = Ret hp'"
      "list_all2 (\<lambda>(b, t) (b', t'). b' = b \<and> clone_of ck cv t t') ch ch'"
      "put_all n0 0 (child_ptrs ch') = Ret n'" "cells hp' ?a = Some (InnerCell n')"
      "\<forall>(b, t)\<in>set ch'. represents N hp' t" "fresh_between ?hp hp' (children_addrs ch')"
      "\<forall>x. x \<noteq> ?a \<longrightarrow> x \<notin> set (children_addrs ch') \<longrightarrow> cells hp' x = cells ?hp x"
    proof -
      have "\<exists>ch' hp' n'. clone_children ?f ?hp (Ptr ty ?a) 0 (child_ptrs ch) = Ret hp'
        \<and> list_all2 (\<lambda>(b, t) (b', t'). b' = b \<and> clone_of ck cv t t') ch ch'
        \<and> put_all n0 0 (child_ptrs ch') = Ret n' \<and> cells hp' ?a = Some (InnerCell n')
        \<and> (\<forall>(b, t)\<in>set ch'. represents N hp' t) \<and> fresh_between ?hp hp' (children_addrs ch')
        \<and> (\<forall>x. x \<noteq> ?a \<longrightarrow> x \<notin> set (children_addrs ch') \<longrightarrow> cells hp' x = cells ?hp x)"
      proof (rule clone_children_spec)
        show "\<exists>t' hp'. ?f hp (root_ptr u) = Ret (root_ptr t', hp') \<and> cloned N ck cv hp u hp' t'"
          if "(b, u) \<in> set ch" "represents N hp u" "\<forall>x\<in>set (addrs u). x < next_addr hp" for b u hp
        proof (rule Suc.IH [OF that(2,3)])
          show "height u < fuel" using height_child [OF that(1), of a ty pf] Suc.prems(3) AInner by simp
        qed
        show "\<forall>cs. map fst cs = map fst ch \<longrightarrow> (\<exists>n'. put_all n0 0 cs = Ret n')" using fill [OF n0(1)] by blast
        show "\<forall>(b, u)\<in>set ch. represents N ?hp u" using child by blast
        show "\<forall>x\<in>set (children_addrs ch). x < next_addr ?hp \<and> x \<noteq> ?a"
          using Suc.prems(2) AInner by (auto intro: less_SucI dest: less_imp_neq)
      qed (simp_all add: n0(2))
      then show thesis using that by blast
    qed
    let ?t' = "AInner ?a ty pf ch'"
    note inner = clone_of_inner [OF c(2)]
    have "node_ok N n' ty pf (child_ptrs ch')"
      using fill [OF n0(1), of "child_ptrs ch'"] c(3) inner(1) ok(3,4) by (auto simp: node_ok_def)
    then have "represents N hp' ?t'" using c(4,5) by simp
    moreover have "fresh_between hp hp' (addrs ?t')"
      using c(6) by (fastforce simp: fresh_between_def Suc_le_eq)
    moreover have "cells hp' x = cells hp x" if "x \<notin> set (addrs ?t')" for x
      using c(7) that by simp
    ultimately have "cloned N ck cv hp t hp' ?t'"
      using inner(2) unfolding cloned_def AInner by blast
    moreover have "deep_clone (Suc fuel) ck cv hp (root_ptr t) = Ret (root_ptr ?t', hp')"
      using n(1,3) n0 c(1) ok(8) by (simp add: AInner)
    ultimately show ?thesis by blast
  qed
qed simp

section \<open>The clone of a map\<close>

text \<open>Two maps in one heap: whatever becomes of the second, the first is as it was.\<close>

lemma map_state_other:
  assumes m: "map_state N fr m hp T" and other: "map_state N (cells hp) m' hp' T'"
  shows "map_state N (\<lambda>a. if a \<in> opt_addrs T' then cells hp' a else fr a) m hp' T"
proof -
  have fr: "fr a \<noteq> None \<Longrightarrow> a < next_addr hp \<and> a \<notin> opt_addrs T" "a \<notin> opt_addrs T \<Longrightarrow> cells hp a = fr a" for a
    using m unfolding map_state_def by auto
  have oth: "cells hp a \<noteq> None \<Longrightarrow> a < next_addr hp' \<and> a \<notin> opt_addrs T'" "a \<notin> opt_addrs T' \<Longrightarrow> cells hp' a = cells hp a" for a
    using other unfolding map_state_def by auto
  note used = map_state_live [OF m] and new = map_state_live [OF other]
  have same: "cells hp' a = cells hp a" if "a \<in> opt_addrs T" for a using oth used that by blast
  have "holds N hp' t" if "T = Some t" for t
  proof -
    have "holds N hp t" using m that by (simp add: map_state_def)
    then have "represents N hp' t" "distinct (addrs t)"
      using represents_frame [of N hp t hp'] same that by (auto simp: holds_def)
    moreover have "\<forall>a\<in>set (addrs t). a < next_addr hp'" using used oth(1) that by auto
    ultimately show ?thesis by (simp add: holds_def)
  qed
  moreover have "cells hp' a = (if a \<in> opt_addrs T' then cells hp' a else fr a)" if "a \<notin> opt_addrs T" for a
    using oth(2) fr(2) that by simp
  moreover have "a < next_addr hp' \<and> a \<notin> opt_addrs T"
    if "(if a \<in> opt_addrs T' then cells hp' a else fr a) \<noteq> None" for a
    using that new used oth(1) fr by (metis (no_types))
  ultimately show ?thesis
    using m unfolding map_state_def by (cases T) simp_all
qed

lemma clone_map_spec:
  assumes bytes: "\<And>k. as_bytes (ck k) = as_bytes k" and m: "map_state N fr m hp T"
  shows "\<exists>m' hp' T'. clone_map ck cv hp m = Ret (m', hp') \<and> map_state N (cells hp) m' hp' T'
    \<and> opt_entries T' = map (map_prod ck cv) (opt_entries T)"
proof -
  note live = map_state_bound [OF m]
  show ?thesis
  proof (cases T)
    case None
    have "map_state N (cells hp) with_prefix_len hp None"
      using live by (simp add: map_state_def with_prefix_len_def)
    moreover have "clone_map ck cv hp m = Ret (with_prefix_len, hp)"
      using m None by (simp add: clone_map_def map_state_def)
    ultimately show ?thesis using None by force
  next
    case (Some t)
    then have t: "map_root m = Some (root_ptr t)" "wf_art [] t" "holds N hp t" "num_entries m = length (entries t)"
      using m by (simp_all add: map_state_def)
    obtain t' hp' where c: "deep_clone (Suc (next_addr hp)) ck cv hp (root_ptr t) = Ret (root_ptr t', hp')"
        "cloned N ck cv hp t hp' t'"
      using deep_clone_spec [OF bytes, of N hp t "Suc (next_addr hp)" cv] t(3) holds_height [OF t(3)]
      by (auto simp: holds_def)
    let ?m = "\<lparr>num_entries = num_entries m, map_root = Some (root_ptr t')\<rparr>"
    have ent: "entries t' = map (map_prod ck cv) (entries t)"
      using c(2) by (simp add: cloned_def clone_of_def entries_def)
    moreover have "a < next_addr hp' \<and> a \<notin> set (addrs t')" if "cells hp a \<noteq> None" for a
      using live [OF that] c(2) unfolding cloned_def fresh_between_def by fastforce
    ultimately have "map_state N (cells hp) ?m hp' (Some t')"
      using c(2) t by (simp add: map_state_def cloned_def clone_of_def fresh_between_def holds_def)
    moreover have "clone_map ck cv hp m = Ret (?m, hp')"
      using t(1) c(1) by (simp add: clone_map_def del: deep_clone.simps)
    ultimately show ?thesis using ent Some by auto
  qed
qed

lemma opt_map_of: "opt_map T = map_of (map (\<lambda>(k, v). (as_bytes k, (k, v))) (opt_entries T))"
  by (cases T) (simp_all add: tree_map_def)

lemma opt_map_clone:
  assumes bytes: "\<And>k. as_bytes (ck k) = as_bytes k" and ent: "opt_entries T' = map (map_prod ck cv) (opt_entries T)"
  shows "opt_map T' kb = map_option (map_prod ck cv) (opt_map T kb)"
proof -
  have "map_of (map (\<lambda>(k, v). (as_bytes k, (k, v))) (map (map_prod ck cv) es)) kb
    = map_option (map_prod ck cv) (map_of (map (\<lambda>(k, v). (as_bytes k, (k, v))) es) kb)" for es
    by (induction es) (auto simp: bytes)
  then show ?thesis unfolding opt_map_of ent .
qed

section \<open>Property\<close>

text \<open>
  C36. \<open>TreeMap::clone\<close> returns, and its result is a map of its own: its entries are the clones of
  the entries of the original, in the same order, and as many; and a lookup in it finds the
  clone of what the same lookup finds in the original.  The two share no memory: whatever a
  well-formed state of the clone's map is reached later, every lookup in the original answers
  as it did before the clone was made.
\<close>

theorem map_clone:
  assumes bytes: "\<And>k. as_bytes (ck k) = as_bytes k" and m: "map_state N fr m hp T"
  shows "\<exists>m' hp' T'. clone_map ck cv hp m = Ret (m', hp') \<and> map_state N (cells hp) m' hp' T'
    \<and> opt_entries T' = map (map_prod ck cv) (opt_entries T) \<and> len_map m' = len_map m
    \<and> (\<forall>key. get hp' m' key = and_then (get hp m key) (\<lambda>v. Ret (map_option cv v)))
    \<and> (\<forall>m'' hp'' T'' key. map_state N (cells hp) m'' hp'' T'' \<longrightarrow> get hp'' m key = get hp m key)"
proof -
  obtain m' hp' T' where c: "clone_map ck cv hp m = Ret (m', hp')" "map_state N (cells hp) m' hp' T'"
      "opt_entries T' = map (map_prod ck cv) (opt_entries T)"
    using clone_map_spec [OF assms] by blast
  have "len_map m' = len_map m"
    using m c(2,3) by (simp add: map_state_def len_map_def)
  moreover have "get hp' m' key = and_then (get hp m key) (\<lambda>v. Ret (map_option cv v))" for key
    by (simp add: get_spec [OF m] get_spec [OF c(2)] opt_map_clone [where ck = ck and cv = cv, OF bytes c(3)]
        option.map_comp comp_def map_prod_def split_beta)
  moreover have "get hp'' m key = get hp m key" if "map_state N (cells hp) m'' hp'' T''" for m'' hp'' T'' key
    by (simp add: get_spec [OF m] get_spec [OF map_state_other [OF m that]])
  ultimately show ?thesis using c by blast
qed

text \<open>After cloning the sample map and removing a key from the clone, the original still has it.\<close>

theorem map_clone_witness:
  "\<exists>m' hp' r m'' hp''. clone_map id Suc sample_heap sample_map = Ret (m', hp')
    \<and> get hp' m' [1, 3] = Ret (Some 31)
    \<and> remove_map hp' m' [1, 3] = Ret (Some 31, m'', hp'')
    \<and> get hp'' sample_map [1, 3] = Ret (Some 30)"
proof -
  have get: "get sample_heap sample_map [1, 3] = Ret (Some 30)"
    by (simp add: get_spec [OF sample_state] sample_opt_map del: opt_simps)
  obtain m' hp' T' where c: "clone_map id Suc sample_heap sample_map = Ret (m', hp')"
      "map_state 2 (cells sample_heap) m' hp' T'"
      "\<forall>key. get hp' m' key = and_then (get sample_heap sample_map key) (\<lambda>v. Ret (map_option Suc v))"
      "\<forall>m'' hp'' T'' key. map_state 2 (cells sample_heap) m'' hp'' T'' \<longrightarrow>
        get hp'' sample_map key = get sample_heap sample_map key"
    using map_clone [of id, OF _ sample_state, of Suc] by auto
  have 31: "get hp' m' [1, 3] = Ret (Some 31)" by (simp add: c(3) get)
  then obtain k where e: "opt_map T' [1, 3] = Some (k, 31)" by (auto simp: get_spec [OF c(2)])
  then obtain m'' hp'' T'' where r: "remove_entry hp' m' [1, 3] = Ret (Some (k, 31), m'', hp'')"
      "map_state 2 (cells sample_heap) m'' hp'' T''"
    using remove_entry_spec [OF c(2), of "[1, 3]"] by auto
  have "get hp'' sample_map [1, 3] = Ret (Some 30)" using c(4) r(2) get by metis
  then show ?thesis using c(1) 31 r(1) by (auto simp: remove_map_def)
qed

end
