(* ===== verification/Mutable_Iteration.thy ===== *)
theory Mutable_Iteration
  imports Iterators Clone
begin

text \<open>
  Loops that write through the references a mutable iterator yields, as in
  \<open>map.iter_mut().for_each(|(_, value)| *value = f(*value))\<close>, with \<open>iter_mut\<close> and \<open>values_mut\<close> of
  \<open>src/src/collections/map/iterators/iterator.rs\<close>.  The iterator reads the tree between the writes,
  so the heap it runs on changes under it: the lemmas say that what it has still to visit stays
  as it was, and that the loop applies the function to every value once.
\<close>

section \<open>The loop\<close>

fun for_each_mut ::
    "(('k, 'v) heap \<Rightarrow> ('s, 'i) step) \<Rightarrow> ('i \<Rightarrow> node_ptr) \<Rightarrow> ('v \<Rightarrow> 'v) \<Rightarrow> nat \<Rightarrow> ('k, 'v) heap \<Rightarrow> 's
      \<Rightarrow> ('k, 'v) heap outcome" where
  "for_each_mut nxt ref f 0 hp it = NoFuel"
| "for_each_mut nxt ref f (Suc fuel) hp it =
     and_then (nxt hp it) (\<lambda>(item, it).
     case item of None \<Rightarrow> Ret hp
     | Some x \<Rightarrow>
         and_then (read_leaf hp (ref x)) (\<lambda>l.
         and_then (write_value hp (ref x) (f (leaf_value l))) (\<lambda>hp.
         for_each_mut nxt ref f fuel hp it)))"

definition iter_mut_for_each :: "('v \<Rightarrow> 'v) \<Rightarrow> ('k, 'v) heap \<Rightarrow> treemap \<Rightarrow> ('k, 'v) heap outcome" where
  "iter_mut_for_each f hp m =
     for_each_mut (iter_next as_key_ref_value_mut) snd f (Suc (len_map m)) hp (iter_new m)"

definition iter_mut_rev_for_each :: "('v \<Rightarrow> 'v) \<Rightarrow> ('k, 'v) heap \<Rightarrow> treemap \<Rightarrow> ('k, 'v) heap outcome" where
  "iter_mut_rev_for_each f hp m =
     for_each_mut (iter_next_back as_key_ref_value_mut) snd f (Suc (len_map m)) hp (iter_new m)"

definition values_mut_for_each :: "('v \<Rightarrow> 'v) \<Rightarrow> ('k, 'v) heap \<Rightarrow> treemap \<Rightarrow> ('k, 'v) heap outcome" where
  "values_mut_for_each f hp m = for_each_mut (iter_next as_value_mut) id f (Suc (len_map m)) hp (iter_new m)"

section \<open>A write does not disturb the iterator\<close>

abbreviation with_value :: "('k, 'v) heap \<Rightarrow> nat \<Rightarrow> 'k key \<Rightarrow> 'v \<Rightarrow> ('k, 'v) heap" where
  "with_value hp a k v \<equiv> hp\<lparr>cells := (cells hp)(a \<mapsto> LeafCell \<lparr>leaf_key = k, leaf_value = v\<rparr>)\<rparr>"

lemma represents_with_value:
  assumes "represents N hp t" "cells hp a = Some (LeafCell \<lparr>leaf_key = k, leaf_value = w\<rparr>)"
  shows "represents N (with_value hp a k v) (set_leaf a v t)"
  using assms(1)
proof (induction t)
  case (AInner a' ty pf ch)
  have "represents N (with_value hp a k v) (set_leaf a v u)" if "(c, u) \<in> set ch" for c u
  proof (rule AInner.IH [OF that])
    show "represents N hp u" using AInner.prems that by auto
  qed
  moreover have "child_ptrs (map (map_prod id (set_leaf a v)) ch) = child_ptrs ch"
    by (auto simp: child_ptrs_def)
  moreover have "cells (with_value hp a k v) a' = cells hp a'" using AInner.prems assms(2) by auto
  ultimately show ?case using AInner.prems by (auto simp del: fun_upd_apply)
qed (use assms(2) in auto)

definition ignores_values :: "(node_ptr \<Rightarrow> ('k, 'v) leaf \<Rightarrow> 'r) \<Rightarrow> bool" where
  "ignores_values op \<longleftrightarrow> (\<forall>p k v w. op p \<lparr>leaf_key = k, leaf_value = v\<rparr> = op p \<lparr>leaf_key = k, leaf_value = w\<rparr>)"

lemma ignores_values_mut [simp]: "ignores_values as_key_ref_value_mut" "ignores_values as_value_mut"
  by (simp_all add: ignores_values_def as_key_ref_value_mut_def as_value_mut_def)

lemma tree_below_set_leaf: "ignores_values op \<Longrightarrow> tree_below op (set_leaf a v t) = tree_below op t"
  by (auto simp: tree_below_def leaves_set_leaf leaf_item_def ignores_values_def)

lemma iter_stands_with_value:
  assumes "ignores_values op" "cells hp a = Some (LeafCell \<lparr>leaf_key = k, leaf_value = w\<rparr>)" "iter_stands N op hp node i"
  shows "iter_stands N op (with_value hp a k v) node i"
proof -
  obtain t path where t: "node = root_ptr t" "represents N hp t" "wf_art path t" "i = tree_below op t"
    using assms(3) by (auto simp: iter_stands_def)
  have "represents N (with_value hp a k v) (set_leaf a v t)" "wf_art path (set_leaf a v t)"
    using represents_with_value [OF t(2) assms(2)] t(3) by (simp_all add: wf_set_leaf)
  then show ?thesis
    unfolding iter_stands_def using t(1,4) tree_below_set_leaf [OF assms(1)] by (intro exI [of _ "set_leaf a v t"]) auto
qed

abbreviation iter_left :: "nat \<Rightarrow> (node_ptr \<Rightarrow> ('k, 'v) leaf \<Rightarrow> 'r) \<Rightarrow> ('k, 'v) heap \<Rightarrow> node_ptr list \<times> nat \<Rightarrow> 'r list \<Rightarrow> bool" where
  "iter_left N op hp \<equiv> exact_traversal.left_exact (iter_stands N op hp) (Suc (next_addr hp))"

lemma iter_left_with_value:
  assumes "ignores_values op" "cells hp a = Some (LeafCell \<lparr>leaf_key = k, leaf_value = w\<rparr>)" "iter_left N op hp s xs"
  shows "iter_left N op (with_value hp a k v) s xs"
  using assms(3) list_all2_mono [of "iter_stands N op hp" _ _ "iter_stands N op (with_value hp a k v)"]
    iter_stands_with_value [OF assms(1,2), of N]
  unfolding it.left_exact_def it.left_def by fastforce

section \<open>Every value is written once\<close>

definition set_leaves :: "('v \<Rightarrow> 'v) \<Rightarrow> node_ptr set \<Rightarrow> nat \<times> 'k key \<times> 'v \<Rightarrow> nat \<times> 'k key \<times> 'v" where
  "set_leaves f ps = (\<lambda>(a, k, w). (a, k, if Ptr LeafKind a \<in> ps then f w else w))"

lemma opt_leaves_set_leaf:
  "opt_leaves (map_option (set_leaf a v) T) = map (\<lambda>(b, k, w). (b, k, if b = a then v else w)) (opt_leaves T)"
  by (cases T) (simp_all add: opt_leaves_def leaves_set_leaf)

lemma leaf_value_at:
  assumes m: "map_state N fr m hp T" and l: "(a, k, w) \<in> set (opt_leaves T)"
  shows "value_at N fr m hp T (Ptr LeafKind a) k w" "cells hp a = Some (LeafCell \<lparr>leaf_key = k, leaf_value = w\<rparr>)"
proof -
  obtain t where t: "T = Some t" "(a, k, w) \<in> set (leaves t)" using l by (cases T) (auto simp: opt_leaves_def)
  then show v: "value_at N fr m hp T (Ptr LeafKind a) k w" using m by (auto simp: value_at_def)
  show "cells hp a = Some (LeafCell \<lparr>leaf_key = k, leaf_value = w\<rparr>)"
    using value_at_read(1) [OF v] by (auto simp: read_leaf_def outcome_simps split: option.splits cell.splits)
qed

lemma write_with_value:
  assumes m: "map_state N fr m hp T" and l: "(a, k, w) \<in> set (opt_leaves T)"
  shows "write_value hp (Ptr LeafKind a) v = Ret (with_value hp a k v)"
    "map_state N fr m (with_value hp a k v) (map_option (set_leaf a v) T)"
proof -
  have "read_leaf hp (Ptr LeafKind a) = Ret \<lparr>leaf_key = k, leaf_value = w\<rparr>"
    using value_at_read(1) [OF leaf_value_at(1) [OF m l]] .
  then show wr: "write_value hp (Ptr LeafKind a) v = Ret (with_value hp a k v)"
    using leaf_value_at(2) [OF m l] by (simp add: write_value_def write_leaf_def)
  obtain hp' where "write_value hp (Ptr LeafKind a) v = Ret hp'"
      "value_at N fr m hp' (map_option (set_leaf a v) T) (Ptr LeafKind a) k v"
    using value_at_write [OF leaf_value_at(1) [OF m l], of v] by auto
  then show "map_state N fr m (with_value hp a k v) (map_option (set_leaf a v) T)"
    using wr by (simp add: value_at_def)
qed

text \<open>
  \<open>nxt\<close> is either end of the iterator; what it needs to be is the contract of a
  \<open>double_ended\<close> iterator on every heap.
\<close>

definition an_end :: "nat \<Rightarrow> (node_ptr \<Rightarrow> ('k, 'v) leaf \<Rightarrow> 'r) \<Rightarrow> (('k, 'v) heap \<Rightarrow> (node_ptr list \<times> nat, 'r) step) \<Rightarrow> bool" where
  "an_end N op nxt \<longleftrightarrow> (\<forall>hp s xs. iter_left N op hp s xs \<longrightarrow>
     (\<exists>item s' xs'. nxt hp s = Ret (item, s') \<and> iter_left N op hp s' xs' \<and>
       (case item of None \<Rightarrow> xs = [] | Some x \<Rightarrow> xs = x # xs' \<or> xs = xs' @ [x])))"

lemma ends [simp]: "an_end N op (iter_next op)" "an_end N op (iter_next_back op)"
proof -
  have "\<exists>item s' xs'. iter_next op hp s = Ret (item, s') \<and> iter_left N op hp s' xs' \<and>
       (case item of None \<Rightarrow> xs = [] | Some x \<Rightarrow> xs = x # xs' \<or> xs = xs' @ [x])"
    if "iter_left N op hp s xs" for hp s xs
    using it.ex.next_spec [OF that] unfolding iter_next_def by (force split: option.splits)
  then show "an_end N op (iter_next op)" by (simp only: an_end_def) blast
  have "\<exists>item s' xs'. iter_next_back op hp s = Ret (item, s') \<and> iter_left N op hp s' xs' \<and>
       (case item of None \<Rightarrow> xs = [] | Some x \<Rightarrow> xs = x # xs' \<or> xs = xs' @ [x])"
    if "iter_left N op hp s xs" for hp s xs
    using it.ex.next_back_spec [OF that] unfolding iter_next_back_def by (force split: option.splits)
  then show "an_end N op (iter_next_back op)" by (simp only: an_end_def) blast
qed

lemma for_each_mut_spec:
  assumes op: "ignores_values op" and e: "an_end N op nxt"
  shows "map_state N fr m hp T \<Longrightarrow> iter_left N op hp s xs \<Longrightarrow> distinct (map ref xs)
    \<Longrightarrow> \<forall>x\<in>set xs. \<exists>a k w. ref x = Ptr LeafKind a \<and> (a, k, w) \<in> set (opt_leaves T) \<Longrightarrow> length xs < fuel
    \<Longrightarrow> \<exists>hp' T'. for_each_mut nxt ref f fuel hp s = Ret hp' \<and> map_state N fr m hp' T'
      \<and> opt_leaves T' = map (set_leaves f (ref ` set xs)) (opt_leaves T)"
proof (induction fuel arbitrary: hp T s xs)
  case (Suc fuel)
  obtain item s' xs' where n: "nxt hp s = Ret (item, s')" "iter_left N op hp s' xs'"
      "case item of None \<Rightarrow> xs = [] | Some x \<Rightarrow> xs = x # xs' \<or> xs = xs' @ [x]"
    using e Suc.prems(2) unfolding an_end_def by blast
  show ?case
  proof (cases item)
    case None
    then have "map (set_leaves f (ref ` set xs)) (opt_leaves T) = opt_leaves T"
      using n(3) by (simp add: set_leaves_def map_idI split_def)
    then show ?thesis using n(1) None Suc.prems(1) by auto
  next
    case (Some x)
    then have xs: "set xs = insert x (set xs')" "distinct (map ref xs')" "ref x \<notin> ref ` set xs'" "length xs' < fuel"
      using n(3) Suc.prems(3,5) by auto
    obtain a k w where a: "ref x = Ptr LeafKind a" "(a, k, w) \<in> set (opt_leaves T)"
      using Suc.prems(4) xs(1) by auto
    note wr = write_with_value [OF Suc.prems(1) a(2)]
    let ?T = "map_option (set_leaf a (f w)) T"
    have "\<exists>b k u. ref y = Ptr LeafKind b \<and> (b, k, u) \<in> set (opt_leaves ?T)" if "y \<in> set xs'" for y
    proof -
      have "y \<in> set xs" using that xs(1) by simp
      then obtain b k' u where b: "ref y = Ptr LeafKind b" "(b, k', u) \<in> set (opt_leaves T)"
        using Suc.prems(4) by blast
      then have "(b, k', if b = a then f w else u) \<in> set (opt_leaves ?T)"
        unfolding opt_leaves_set_leaf set_map by (intro image_eqI [OF _ b(2)]) simp
      then show ?thesis using b(1) by blast
    qed
    then have "\<forall>y\<in>set xs'. \<exists>b k u. ref y = Ptr LeafKind b \<and> (b, k, u) \<in> set (opt_leaves ?T)" by blast
    from Suc.IH [OF wr(2) iter_left_with_value [OF op leaf_value_at(2) [OF Suc.prems(1) a(2)] n(2)] xs(2) this xs(4)]
    obtain hp' T' where 1: "for_each_mut nxt ref f fuel (with_value hp a k (f w)) s' = Ret hp'" "map_state N fr m hp' T'"
      "opt_leaves T' = map (set_leaves f (ref ` set xs')) (opt_leaves ?T)"
      by blast
    have "read_leaf hp (ref x) = Ret \<lparr>leaf_key = k, leaf_value = w\<rparr>"
      using value_at_read(1) [OF leaf_value_at(1) [OF Suc.prems(1) a(2)]] a(1) by simp
    then have "for_each_mut nxt ref f (Suc fuel) hp s = Ret hp'"
      using 1(1) wr(1) a(1) by (simp add: n(1) Some)
    moreover have "set_leaves f (ref ` set xs') (b, k', if b = a then f w else u) = set_leaves f (ref ` set xs) (b, k', u)"
      if l: "(b, k', u) \<in> set (opt_leaves T)" for b k' u
    proof (cases "b = a")
      case True
      then have "u = w"
        using leaf_value_at(2) [OF Suc.prems(1) l] leaf_value_at(2) [OF Suc.prems(1) a(2)] by simp
      then show ?thesis using xs(1,3) a(1) True by (simp add: set_leaves_def)
    next
      case False
      then show ?thesis using xs(1) a(1) by (simp add: set_leaves_def)
    qed
    then have "opt_leaves T' = map (set_leaves f (ref ` set xs)) (opt_leaves T)"
      unfolding 1(3) opt_leaves_set_leaf map_map by (intro map_cong refl) (auto simp: comp_def)
    ultimately show ?thesis using 1(2) by blast
  qed
qed simp

lemma for_each_spec:
  assumes m: "map_state N fr m hp T" and op: "ignores_values op" "an_end N op nxt"
    and ref: "\<And>a k w. ref (leaf_item op (a, k, w)) = Ptr LeafKind a"
  shows "\<exists>hp' T'. for_each_mut nxt ref f (Suc (len_map m)) hp (iter_new m) = Ret hp' \<and> map_state N fr m hp' T'
    \<and> opt_entries T' = map (map_prod id f) (opt_entries T)"
proof -
  let ?xs = "map (leaf_item op) (opt_leaves T)"
  have refs: "map ref ?xs = map (\<lambda>l. Ptr LeafKind (fst l)) (opt_leaves T)" using ref by auto
  have "distinct (map fst (opt_leaves T))"
    using m leaves_distinct by (cases T) (auto simp: opt_leaves_def map_state_def holds_def)
  then have "distinct (map ref ?xs)"
    unfolding refs by (simp add: distinct_map comp_inj_on inj_on_def)
  moreover have "\<forall>x\<in>set ?xs. \<exists>a k w. ref x = Ptr LeafKind a \<and> (a, k, w) \<in> set (opt_leaves T)" using ref by force
  moreover have "length ?xs < Suc (len_map m)"
    using m by (simp add: opt_leaves_items(4) map_state_def len_map_def)
  ultimately obtain hp' T' where 1: "for_each_mut nxt ref f (Suc (len_map m)) hp (iter_new m) = Ret hp'"
      "map_state N fr m hp' T'" "opt_leaves T' = map (set_leaves f (ref ` set ?xs)) (opt_leaves T)"
    using for_each_mut_spec [OF op m iter_new_left [OF m], of ref "Suc (len_map m)" f] by blast
  have "opt_entries T' = map (leaf_item as_key_value_ref) (opt_leaves T')" by (rule opt_leaves_items(1) [symmetric])
  also have "\<dots> = map (map_prod id f) (map (leaf_item as_key_value_ref) (opt_leaves T))"
  proof -
    have "leaf_item as_key_value_ref (set_leaves f (ref ` set ?xs) l) = map_prod id f (leaf_item as_key_value_ref l)"
      if l: "l \<in> set (opt_leaves T)" for l
    proof -
      obtain a k w where akw: "l = (a, k, w)" by (cases l)
      have "Ptr LeafKind a \<in> ref ` set ?xs" using l unfolding akw ref [of a k w, symmetric] by simp
      then show ?thesis by (simp add: akw set_leaves_def)
    qed
    then show ?thesis unfolding 1(3) by simp
  qed
  finally show ?thesis using 1(1,2) by (simp only: opt_leaves_items(1)) blast
qed

lemmas iter_mut_for_each_spec = for_each_spec [where op = as_key_ref_value_mut and nxt = "iter_next as_key_ref_value_mut" and ref = snd,
    folded iter_mut_for_each_def, simplified]
  and iter_mut_rev_for_each_spec = for_each_spec [where op = as_key_ref_value_mut and nxt = "iter_next_back as_key_ref_value_mut" and ref = snd,
    folded iter_mut_rev_for_each_def, simplified]
  and values_mut_for_each_spec = for_each_spec [where op = as_value_mut and nxt = "iter_next as_value_mut" and ref = id,
    folded values_mut_for_each_def, simplified]

section \<open>Property\<close>

text \<open>
  C13. The mutable iterators yield a reference to the value of every key, never two references to
  the same value; a loop that writes through them, from either end or over the values only,
  applies the function to every value exactly once and keeps the keys, the order and the
  invariant of the map, although it writes to the tree the iterator is still reading.
\<close>

theorem map_iter_mut:
  assumes m: "map_state N fr m hp T"
  shows "(\<exists>kps. collect (iter_next as_key_ref_value_mut hp) (Suc (len_map m)) (iter_new m) = Ret kps
      \<and> collect (iter_next as_value_mut hp) (Suc (len_map m)) (iter_new m) = Ret (map snd kps)
      \<and> distinct (map snd kps) \<and> length kps = len_map m
      \<and> (\<forall>(k, p)\<in>set kps. get_mut hp m (as_bytes k) = Ret (Some p)))
    \<and> (\<forall>loop\<in>{iter_mut_for_each, iter_mut_rev_for_each, values_mut_for_each}.
        \<exists>hp' T'. loop f hp m = Ret hp' \<and> map_state N fr m hp' T'
          \<and> opt_entries T' = map (map_prod id f) (opt_entries T)
          \<and> (\<forall>key. get hp' m key = Ret (map_option (\<lambda>(k, v). f v) (opt_map T key))))"
proof -
  have "get hp' m key = Ret (map_option (\<lambda>(k, v). f v) (opt_map T key))"
    if "map_state N fr m hp' T'" "opt_entries T' = map (map_prod id f) (opt_entries T)" for hp' T' key
    using get_spec [OF that(1), of key] opt_map_clone [OF _ that(2), of key] by (cases "opt_map T key") auto
  then show ?thesis
    using iter_mut_refs [OF m] iter_mut_for_each_spec [OF m, of f] iter_mut_rev_for_each_spec [OF m, of f]
      values_mut_for_each_spec [OF m, of f] by (metis (no_types, lifting) insertE singletonD)
qed

theorem map_iter_mut_witness:
  "(\<exists>kps. collect (iter_next as_key_ref_value_mut sample_heap) (Suc (len_map sample_map)) (iter_new sample_map) = Ret kps
      \<and> distinct (map snd kps) \<and> length kps = 2)
    \<and> (\<exists>hp'. iter_mut_rev_for_each Suc sample_heap sample_map = Ret hp' \<and> get hp' sample_map [1, 3] = Ret (Some 31))"
  using map_iter_mut [OF sample_state, of Suc]
  by (auto simp: len_map_def sample_map_def sample_opt_map simp del: opt_simps)

end
