(* ===== verification/Histories.thy ===== *)
theory Histories
  imports Entry_Ref Fuzzy_Search Clone Mutable_Iteration
begin

text \<open>
  What a program sees that owns one map and calls its public interface
  (\<open>src/src/collections/map.rs\<close>): the calls as a datatype of requests, their execution on
  the model of the code, and their specification on a finite map from key bytes to entries
  with no memory, no nodes and no iterators.  A history is a sequence of calls.

  The locale \<open>simulation\<close> is the refinement of one machine by another; its interpretation says
  that every history gives the answers of the specification, and the rule induction over
  \<open>reachable\<close> that the invariant of the map holds in every state a history leads to.
\<close>

section \<open>Simulation\<close>

fun run_concrete :: "('o \<Rightarrow> 's \<Rightarrow> ('a \<times> 's) outcome) \<Rightarrow> 'o list \<Rightarrow> 's \<Rightarrow> ('a list \<times> 's) outcome" where
  "run_concrete step [] s = Ret ([], s)"
| "run_concrete step (r # rs) s =
     and_then (step r s) (\<lambda>(a, s).
     and_then (run_concrete step rs s) (\<lambda>(answers, s). Ret (a # answers, s)))"

fun run_abstract :: "('o \<Rightarrow> 't \<Rightarrow> 'a \<times> 't) \<Rightarrow> 'o list \<Rightarrow> 't \<Rightarrow> 'a list \<times> 't" where
  "run_abstract step [] t = ([], t)"
| "run_abstract step (r # rs) t =
     (let (a, t) = step r t; (answers, t) = run_abstract step rs t in (a # answers, t))"

locale simulation =
  fixes concrete :: "'o \<Rightarrow> 's \<Rightarrow> ('a \<times> 's) outcome"
    and abstract :: "'o \<Rightarrow> 't \<Rightarrow> 'a \<times> 't"
    and related :: "'s \<Rightarrow> 't \<Rightarrow> bool"
    and allowed :: "'o \<Rightarrow> bool"
  assumes step: "related s t \<Longrightarrow> allowed r \<Longrightarrow>
    \<exists>s'. concrete r s = Ret (fst (abstract r t), s') \<and> related s' (snd (abstract r t))"
begin

lemma run:
  assumes "related s t" "\<forall>r\<in>set rs. allowed r"
  shows "\<exists>s'. run_concrete concrete rs s = Ret (fst (run_abstract abstract rs t), s')
    \<and> related s' (snd (run_abstract abstract rs t))"
  using assms
proof (induction rs arbitrary: s t)
  case (Cons r rs)
  obtain s1 where 1: "concrete r s = Ret (fst (abstract r t), s1)" "related s1 (snd (abstract r t))"
    using step [OF Cons.prems(1)] Cons.prems(2) by auto
  obtain s' where "run_concrete concrete rs s1 = Ret (fst (run_abstract abstract rs (snd (abstract r t))), s')"
      "related s' (snd (run_abstract abstract rs (snd (abstract r t))))"
    using Cons.IH [OF 1(2)] Cons.prems(2) by auto
  then show ?case using 1(1) by (auto simp: Let_def split_def)
qed simp

end

section \<open>Requests\<close>

datatype ('k, 'v) request =
    Get bytes | Contains bytes | First | Last | Len
  | Iterate | Iterate_Back | With_Prefix bytes | Within nat bytes
  | Try_Insert "'k key" 'v | Remove bytes | Pop_First | Pop_Last | Clear
  | Modify bytes "'v \<Rightarrow> 'v"
  | Upsert "'k key" "'v \<Rightarrow> 'v" 'v
  | Upsert_Ref "bytes \<Rightarrow> 'k key" bytes "'v \<Rightarrow> 'v" 'v
  | Take "'k key"
  | Replace_By_Clone
  | Update_All "'v \<Rightarrow> 'v"
  | Drain "bool list"

datatype ('k, 'v) response =
    Done | Value "'v option" | Present bool | Entry "('k key \<times> 'v) option" | Count nat
  | Entries "('k key \<times> 'v) list" | Items "('k key \<times> 'v) option list" | Refused insert_prefix_error

type_synonym ('k, 'v) program = "treemap \<times> ('k, 'v) heap"

text \<open>
  Each request is a small program over the interface.  \<open>Modify key f\<close> is
  \<open>if let Some(v) = map.get_mut(key) { *v = f(*v) }\<close>; \<open>Upsert k f v\<close> is
  \<open>map.try_entry(k)?.and_modify(f).or_insert(v)\<close>, \<open>Upsert_Ref\<close> the same through \<open>try_entry_ref\<close> with
  the conversion of the borrowed key; \<open>Take k\<close> removes through the entry of the key, if it is
  occupied; \<open>Replace_By_Clone\<close> is \<open>map = map.clone()\<close>, which drops the old map; \<open>Update_All f\<close> is
  \<open>for v in map.values_mut() { *v = f(*v) }\<close>; \<open>Drain calls\<close> is \<open>std::mem::take(&mut map).into_iter()\<close>,
  of which the items of some calls of its two ends are taken before it is dropped.
\<close>

definition modify_value :: "('k, 'v) heap \<Rightarrow> treemap \<Rightarrow> bytes \<Rightarrow> ('v \<Rightarrow> 'v) \<Rightarrow> ('v option \<times> ('k, 'v) heap) outcome" where
  "modify_value hp m key f =
     and_then (get_mut hp m key) (\<lambda>r.
     case r of None \<Rightarrow> Ret (None, hp)
     | Some p \<Rightarrow> and_then (read_leaf hp p) (\<lambda>l.
         and_then (write_value hp p (f (leaf_value l))) (\<lambda>hp. Ret (Some (leaf_value l), hp))))"

definition upsert ::
    "nat \<Rightarrow> ('k, 'v) heap \<Rightarrow> treemap \<Rightarrow> 'k key \<Rightarrow> ('v \<Rightarrow> 'v) \<Rightarrow> 'v
      \<Rightarrow> (('k, 'v) response \<times> ('k, 'v) program) outcome" where
  "upsert PREFIX_LEN hp m k f v =
     and_then (try_entry hp m k) (\<lambda>r.
     case r of Inl e \<Rightarrow> Ret (Refused e, m, hp)
     | Inr en \<Rightarrow>
         and_then (entry_and_modify hp en f) (\<lambda>(en, hp).
         and_then (or_insert PREFIX_LEN hp m en v) (\<lambda>(p, m, hp).
         and_then (read_leaf hp p) (\<lambda>l. Ret (Value (Some (leaf_value l)), m, hp)))))"

definition upsert_ref ::
    "nat \<Rightarrow> ('k, 'v) heap \<Rightarrow> treemap \<Rightarrow> (bytes \<Rightarrow> 'k key) \<Rightarrow> bytes \<Rightarrow> ('v \<Rightarrow> 'v) \<Rightarrow> 'v
      \<Rightarrow> (('k, 'v) response \<times> ('k, 'v) program) outcome" where
  "upsert_ref PREFIX_LEN hp m into q f v =
     and_then (try_entry_ref id hp m q) (\<lambda>r.
     case r of Inl e \<Rightarrow> Ret (Refused e, m, hp)
     | Inr en \<Rightarrow>
         and_then (entry_ref_and_modify hp en f) (\<lambda>(en, hp).
         and_then (ref_or_insert into PREFIX_LEN hp m en v) (\<lambda>(p, m, hp).
         and_then (read_leaf hp p) (\<lambda>l. Ret (Value (Some (leaf_value l)), m, hp)))))"

definition take_entry ::
    "('k, 'v) heap \<Rightarrow> treemap \<Rightarrow> 'k key \<Rightarrow> (('k, 'v) response \<times> ('k, 'v) program) outcome" where
  "take_entry hp m k =
     and_then (try_entry hp m k) (\<lambda>r.
     case r of Inl e \<Rightarrow> Ret (Refused e, m, hp)
     | Inr (Occupied oe) \<Rightarrow>
         and_then (occupied_remove_entry hp m oe) (\<lambda>(e, m, hp). Ret (Entry (Some e), m, hp))
     | Inr (Vacant ve) \<Rightarrow> Ret (Entry None, m, hp))"

definition drop_map :: "('k, 'v) heap \<Rightarrow> treemap \<Rightarrow> ('k, 'v) heap outcome" where
  \<comment> \<open>\<open>Drop::drop\<close>\<close>
  "drop_map hp m = and_then (clear hp m) (\<lambda>(_, hp). Ret hp)"

definition replace_by_clone :: "('k, 'v) heap \<Rightarrow> treemap \<Rightarrow> ('k, 'v) program outcome" where
  \<comment> \<open>for keys and values whose \<open>clone\<close> is a copy\<close>
  "replace_by_clone hp m =
     and_then (clone_map id id hp m) (\<lambda>(m', hp).
     and_then (drop_map hp m) (\<lambda>hp. Ret (m', hp)))"

definition drain :: "('k, 'v) heap \<Rightarrow> treemap \<Rightarrow> bool list \<Rightarrow> (('k, 'v) response \<times> ('k, 'v) program) outcome" where
  "drain hp m calls =
     and_then (drive into_iter_next into_iter_next_back calls (m, hp)) (\<lambda>(items, m, hp).
     and_then (drop_map hp m) (\<lambda>hp. Ret (Items items, with_prefix_len, hp)))"

fun request_step :: "nat \<Rightarrow> ('k, 'v) request \<Rightarrow> ('k, 'v) program \<Rightarrow> (('k, 'v) response \<times> ('k, 'v) program) outcome" where
  "request_step N (Get key) (m, hp) = and_then (get hp m key) (\<lambda>v. Ret (Value v, m, hp))"
| "request_step N (Contains key) (m, hp) = and_then (contains_key hp m key) (\<lambda>b. Ret (Present b, m, hp))"
| "request_step N First (m, hp) = and_then (first_key_value hp m) (\<lambda>e. Ret (Entry e, m, hp))"
| "request_step N Last (m, hp) = and_then (last_key_value hp m) (\<lambda>e. Ret (Entry e, m, hp))"
| "request_step N Len (m, hp) = Ret (Count (len_map m), m, hp)"
| "request_step N Iterate (m, hp) =
     and_then (collect (iter_next as_key_value_ref hp) (Suc (len_map m)) (iter_new m)) (\<lambda>es. Ret (Entries es, m, hp))"
| "request_step N Iterate_Back (m, hp) =
     and_then (collect (iter_next_back as_key_value_ref hp) (Suc (len_map m)) (iter_new m)) (\<lambda>es. Ret (Entries es, m, hp))"
| "request_step N (With_Prefix pfx) (m, hp) =
     and_then (collect (prefix_next as_key_value_ref hp pfx) (Suc (len_map m)) (prefix_new m)) (\<lambda>es. Ret (Entries es, m, hp))"
| "request_step N (Within mx key) (m, hp) =
     and_then (collect (fuzzy_next as_key_value_ref hp key mx) (Suc (len_map m)) (fuzzy_new m key)) (\<lambda>es. Ret (Entries es, m, hp))"
| "request_step N (Try_Insert k v) (m, hp) =
     and_then (try_insert N hp m k v) (\<lambda>(r, m, hp).
     Ret (case r of Inl e \<Rightarrow> Refused e | Inr old \<Rightarrow> Value old, m, hp))"
| "request_step N (Remove key) (m, hp) = and_then (remove_entry hp m key) (\<lambda>(e, m, hp). Ret (Entry e, m, hp))"
| "request_step N Pop_First (m, hp) = and_then (pop_first hp m) (\<lambda>(e, m, hp). Ret (Entry e, m, hp))"
| "request_step N Pop_Last (m, hp) = and_then (pop_last hp m) (\<lambda>(e, m, hp). Ret (Entry e, m, hp))"
| "request_step N Clear (m, hp) = and_then (clear hp m) (\<lambda>(m, hp). Ret (Done, m, hp))"
| "request_step N (Modify key f) (m, hp) = and_then (modify_value hp m key f) (\<lambda>(v, hp). Ret (Value v, m, hp))"
| "request_step N (Upsert k f v) (m, hp) = upsert N hp m k f v"
| "request_step N (Upsert_Ref into q f v) (m, hp) = upsert_ref N hp m into q f v"
| "request_step N (Take k) (m, hp) = take_entry hp m k"
| "request_step N Replace_By_Clone (m, hp) = and_then (replace_by_clone hp m) (\<lambda>s. Ret (Done, s))"
| "request_step N (Update_All f) (m, hp) = and_then (values_mut_for_each f hp m) (\<lambda>hp. Ret (Done, m, hp))"
| "request_step N (Drain calls) (m, hp) = drain hp m calls"

text \<open>
  The lengths of keys fit into the 32 bits of a prefix length, and a borrowed key has the bytes of
  the key made from it.
\<close>

fun allowed :: "('k, 'v) request \<Rightarrow> bool" where
  "allowed (Try_Insert k v) \<longleftrightarrow> length (as_bytes k) < 2 ^ 32"
| "allowed (Upsert k f v) \<longleftrightarrow> length (as_bytes k) < 2 ^ 32"
| "allowed (Upsert_Ref into q f v) \<longleftrightarrow> as_bytes (into q) = q \<and> length q < 2 ^ 32"
| "allowed (Take k) \<longleftrightarrow> length (as_bytes k) < 2 ^ 32"
| "allowed _ \<longleftrightarrow> True"

section \<open>Specification\<close>

type_synonym ('k, 'v) amap = "bytes \<Rightarrow> ('k key \<times> 'v) option"

definition listing :: "('k, 'v) amap \<Rightarrow> ('k key \<times> 'v) list" where
  "listing M = map (\<lambda>kb. the (M kb)) (sorted_list_of_set (dom M))"

definition blocked :: "('k, 'v) amap \<Rightarrow> 'k key \<Rightarrow> bool" where
  \<comment> \<open>a key of the map is a proper prefix of the new one or the other way round\<close>
  "blocked M k \<longleftrightarrow> (\<exists>kb\<in>dom M. conflicts (as_bytes k) kb)"

definition without_first :: "('k, 'v) amap \<Rightarrow> ('k key \<times> 'v) list \<Rightarrow> ('k, 'v) response \<times> ('k, 'v) amap" where
  "without_first M es =
     (case es of [] \<Rightarrow> (Entry None, M) | e # _ \<Rightarrow> (Entry (Some e), M(as_bytes (fst e) := None)))"

definition upserted :: "'k key \<Rightarrow> ('v \<Rightarrow> 'v) \<Rightarrow> 'v \<Rightarrow> ('k, 'v) amap \<Rightarrow> ('k, 'v) response \<times> ('k, 'v) amap" where
  "upserted k f v M =
     (if blocked M k then (Refused (InsertPrefixError (as_bytes k)), M)
      else let e = (case M (as_bytes k) of None \<Rightarrow> (k, v) | Some (k0, w) \<Rightarrow> (k0, f w)) in
        (Value (Some (snd e)), M(as_bytes k \<mapsto> e)))"

fun spec_step :: "('k, 'v) request \<Rightarrow> ('k, 'v) amap \<Rightarrow> ('k, 'v) response \<times> ('k, 'v) amap" where
  "spec_step (Get key) M = (Value (map_option snd (M key)), M)"
| "spec_step (Contains key) M = (Present (key \<in> dom M), M)"
| "spec_step First M = (Entry (if dom M = {} then None else M (Min (dom M))), M)"
| "spec_step Last M = (Entry (if dom M = {} then None else M (Max (dom M))), M)"
| "spec_step Len M = (Count (card (dom M)), M)"
| "spec_step Iterate M = (Entries (listing M), M)"
| "spec_step Iterate_Back M = (Entries (rev (listing M)), M)"
| "spec_step (With_Prefix pfx) M = (Entries (filter (\<lambda>e. Sublist.prefix pfx (as_bytes (fst e))) (listing M)), M)"
| "spec_step (Within mx key) M = (Entries (rev (filter (\<lambda>e. lev key (as_bytes (fst e)) \<le> mx) (listing M))), M)"
| "spec_step (Try_Insert k v) M =
     (if blocked M k then (Refused (InsertPrefixError (as_bytes k)), M)
      else (Value (map_option snd (M (as_bytes k))), M(as_bytes k \<mapsto> (k, v))))"
| "spec_step (Remove key) M = (Entry (M key), M(key := None))"
| "spec_step Pop_First M = without_first M (listing M)"
| "spec_step Pop_Last M = without_first M (rev (listing M))"
| "spec_step Clear M = (Done, Map.empty)"
| "spec_step (Modify key f) M =
     (case M key of None \<Rightarrow> (Value None, M) | Some (k, v) \<Rightarrow> (Value (Some v), M(key \<mapsto> (k, f v))))"
| "spec_step (Upsert k f v) M = upserted k f v M"
| "spec_step (Upsert_Ref into q f v) M = upserted (into q) f v M"
| "spec_step (Take k) M =
     (if blocked M k then (Refused (InsertPrefixError (as_bytes k)), M)
      else (Entry (M (as_bytes k)), M(as_bytes k := None)))"
| "spec_step Replace_By_Clone M = (Done, M)"
| "spec_step (Update_All f) M = (Done, map_option (map_prod id f) \<circ> M)"
| "spec_step (Drain calls) M = (Items (fst (take_ends calls (listing M))), Map.empty)"

section \<open>One step\<close>

definition refines :: "nat \<Rightarrow> (nat \<Rightarrow> ('k, 'v) cell option) \<Rightarrow> ('k, 'v) program \<Rightarrow> ('k, 'v) amap \<Rightarrow> bool" where
  "refines N frame s M \<longleftrightarrow> (\<exists>T. map_state N frame (fst s) (snd s) T \<and> opt_map T = M)"

lemma listing_entries:
  assumes "map_state N fr m hp T"
  shows "listing (opt_map T) = opt_entries T" "finite (dom (opt_map T))"
    "sorted_list_of_set (dom (opt_map T)) = map (\<lambda>e. as_bytes (fst e)) (opt_entries T)"
proof -
  let ?ks = "map (\<lambda>e. as_bytes (fst e)) (opt_entries T)"
  have s: "sorted_wrt (<) ?ks" using sorted_opt_entries [OF assms] by (simp add: sorted_wrt_map)
  have d: "dom (opt_map T) = set ?ks" using opt_keys [OF assms] by simp
  then show "finite (dom (opt_map T))" by simp
  show ks: "sorted_list_of_set (dom (opt_map T)) = ?ks"
    using s unfolding d by (simp add: sorted_list_of_set.idem_if_sorted_distinct strict_sorted_iff del: set_map list.set_map)
  have "the (opt_map T (as_bytes (fst e))) = e" if "e \<in> set (opt_entries T)" for e
    using opt_map_entries [OF assms, of "as_bytes (fst e)" e] that by simp
  then show "listing (opt_map T) = opt_entries T"
    unfolding listing_def ks by (simp add: map_idI)
qed

lemma blocked_entries:
  "map_state N fr m hp T \<Longrightarrow> blocked (opt_map T) k \<longleftrightarrow> (\<exists>e\<in>set (opt_entries T). conflicts (as_bytes k) (as_bytes (fst e)))"
  unfolding blocked_def opt_keys [symmetric] by blast

lemma count_entries: "map_state N fr m hp T \<Longrightarrow> len_map m = card (dom (opt_map T))"
  using card_dom_tree_map(1) by (cases T) (auto simp: map_state_def len_map_def)

lemma end_entries:
  assumes m: "map_state N fr m hp T"
  shows "(if opt_entries T = [] then None else Some (hd (opt_entries T)))
      = (if dom (opt_map T) = {} then None else opt_map T (Min (dom (opt_map T))))"
    and "(if opt_entries T = [] then None else Some (last (opt_entries T)))
      = (if dom (opt_map T) = {} then None else opt_map T (Max (dom (opt_map T))))"
proof -
  note keys = opt_keys [OF m]
  note fin = listing_entries(2) [OF m]
  have mono: "sorted_wrt (\<lambda>x y. as_bytes (fst x) < as_bytes (fst y)) (opt_entries T)" by (rule sorted_opt_entries [OF m])
  have "Min (dom (opt_map T)) = as_bytes (fst (hd (opt_entries T)))"
    "Max (dom (opt_map T)) = as_bytes (fst (last (opt_entries T)))" if ne: "opt_entries T \<noteq> []"
  proof -
    obtain e es where e: "opt_entries T = e # es" using ne by (cases "opt_entries T") auto
    show "Min (dom (opt_map T)) = as_bytes (fst (hd (opt_entries T)))"
      using mono e fin by (intro Min_eqI) (auto simp: keys [symmetric] less_imp_le)
    obtain xs x where x: "opt_entries T = xs @ [x]" using ne by (cases "opt_entries T" rule: rev_cases) auto
    show "Max (dom (opt_map T)) = as_bytes (fst (last (opt_entries T)))"
      using mono x fin by (intro Max_eqI) (auto simp: keys [symmetric] sorted_wrt_append less_imp_le)
  qed
  moreover have "dom (opt_map T) = {} \<longleftrightarrow> opt_entries T = []" by (simp add: keys [symmetric])
  moreover have "opt_map T (as_bytes (fst e)) = Some e" if "e \<in> set (opt_entries T)" for e
    using opt_map_entries [OF m] that by simp
  ultimately show "(if opt_entries T = [] then None else Some (hd (opt_entries T)))
      = (if dom (opt_map T) = {} then None else opt_map T (Min (dom (opt_map T))))"
    "(if opt_entries T = [] then None else Some (last (opt_entries T)))
      = (if dom (opt_map T) = {} then None else opt_map T (Max (dom (opt_map T))))"
    by auto
qed

text \<open>The requests that change the map, each against its specification.\<close>

lemma modify_value_spec:
  assumes m: "map_state N fr m hp T"
  shows "\<exists>hp' T'. modify_value hp m key f = Ret (map_option snd (opt_map T key), hp')
    \<and> map_state N fr m hp' T'
    \<and> opt_map T' = (case opt_map T key of None \<Rightarrow> opt_map T | Some (k, v) \<Rightarrow> (opt_map T)(key \<mapsto> (k, f v)))"
proof (cases "opt_map T key")
  case None
  then show ?thesis using get_mut_spec [OF m, of key] m by (auto simp: modify_value_def)
next
  case (Some e)
  then obtain k w where e: "opt_map T key = Some (k, w)" by (cases e) auto
  then obtain p where p: "get_mut hp m key = Ret (Some p)" "value_at N fr m hp T p k w"
    using get_mut_spec [OF m, of key] by auto
  have "as_bytes k = key" using e opt_map_entries [OF m] by auto
  then show ?thesis
    using value_at_write [OF p(2), of "f w"] value_at_read(1) [OF p(2)] value_at_read(3) p(1) e
    by (fastforce simp: modify_value_def)
qed

lemma upsert_spec:
  fixes k :: "'k key" and f :: "'v \<Rightarrow> 'v" and v :: 'v
  assumes m: "map_state N fr m hp T" and len: "length (as_bytes k) < 2 ^ 32"
  defines "r \<equiv> upserted k f v (opt_map T)"
  shows "\<exists>m' hp'. upsert N hp m k f v = Ret (fst r, m', hp') \<and> refines N fr (m', hp') (snd r)"
proof (cases "blocked (opt_map T) k")
  case True
  then show ?thesis
    using try_entry_spec [OF m len] m blocked_entries [OF m]
    by (auto simp: upsert_def r_def upserted_def refines_def)
next
  case False
  then obtain en where en: "try_entry hp m k = Ret (Inr en)"
    using try_entry_spec [OF m len] blocked_entries [OF m] by (metis (full_types))
  from m en len show ?thesis
  proof (cases rule: try_entry_cases)
    case (present oe k0 w)
    obtain hp1 T1 where 1: "entry_and_modify hp (Occupied oe :: 'k key entry) f = Ret (Occupied oe, hp1)"
        "entry_at N fr m hp1 T1 (as_bytes k) oe" "opt_map T1 = (opt_map T)(as_bytes k \<mapsto> (k0, f w))"
      using and_modify_spec [OF present(2,3), of f] by blast
    have 2: "opt_map T1 (as_bytes k) = Some (k0, f w)" by (simp add: 1(3))
    have "upsert N hp m k f v = Ret (Value (Some (f w)), m, hp1)"
      using en 1(1) occupied_reads(4) [OF 1(2) 2] entry_read(1) [OF 1(2) 2]
      by (simp add: upsert_def present(1) or_insert_def)
    then show ?thesis
      using 1(2,3) False present(3) by (auto simp: r_def upserted_def refines_def entry_at_def)
  next
    case (absent ve)
    obtain oe m' hp' T' where 1: "vacant_insert_entry N hp m ve v = Ret (oe, m', hp')"
        "value_at N fr m' hp' T' (oe_leaf_node_ptr oe) k v" "opt_map T' = (opt_map T)(as_bytes k \<mapsto> (k, v))"
      using absent(4) by blast
    have "upsert N hp m k f v = Ret (Value (Some v), m', hp')"
      using en 1(1) value_at_read(1) [OF 1(2)]
      by (simp add: upsert_def absent(1) entry_and_modify_def or_insert_def vacant_insert_def occupied_defs)
    then show ?thesis
      using 1(3) value_at_read(3) [OF 1(2)] False absent(3) by (auto simp: r_def upserted_def refines_def)
  qed
qed

lemma upsert_ref_own:
  assumes "as_bytes (into q) = q"
  shows "upsert_ref N hp m into q f v = upsert N hp m (into q) f v"
proof -
  have "try_entry hp m (into q) = and_then (try_entry_ref id hp m q) (\<lambda>r. Ret (map_sum id (own into) r))"
    by (rule try_entry_own) (simp add: assms)
  moreover have "and_then (entry_ref_and_modify hp en f) (\<lambda>(en, hp). Ret (own into en, hp)) = entry_and_modify hp (own into en) f" for en
    by (rule entry_ref_and_modify_own)
  moreover have "ref_or_insert into N hp m en v = or_insert N hp m (own into en) v" for hp en
    by (rule ref_or_insert_own)
  ultimately show ?thesis
    by (cases "try_entry_ref id hp m q")
      (auto simp: upsert_ref_def upsert_def and_then_assoc split_def simp flip: \<open>\<And>en. _ = entry_and_modify hp (own into en) f\<close> split: sum.split)
qed

lemma drain_spec:
  assumes m: "map_state N fr m hp T"
  shows "\<exists>hp'. drain hp m calls = Ret (Items (fst (take_ends calls (opt_entries T))), with_prefix_len, hp')
    \<and> map_state N fr with_prefix_len hp' None"
proof -
  have "into_left N fr (m, hp) (opt_entries T)" using m by (auto simp: into_left_def)
  from into.drive_spec [OF this, of calls] obtain m' hp' T' where
    d: "drive into_iter_next into_iter_next_back calls (m, hp) = Ret (fst (take_ends calls (opt_entries T)), (m', hp'))"
    and T': "map_state N fr m' hp' T'"
    by (auto simp: into_left_def)
  obtain m2 hp2 where c: "clear hp' m' = Ret (m2, hp2)" "map_state N fr m2 hp2 None" using clear_spec [OF T'] by blast
  then have "map_state N fr with_prefix_len hp2 None" by (simp add: map_state_def with_prefix_len_def)
  then show ?thesis using d c(1) by (auto simp: drain_def drop_map_def)
qed

lemma take_entry_spec:
  fixes k :: "'k key"
  assumes m: "map_state N fr m hp T" and len: "length (as_bytes k) < 2 ^ 32"
  defines "r \<equiv> spec_step (Take k) (opt_map T)"
  shows "\<exists>m' hp'. take_entry hp m k = Ret (fst r, m', hp') \<and> refines N fr (m', hp') (snd r)"
proof (cases "blocked (opt_map T) k")
  case True
  then show ?thesis
    using try_entry_spec [OF m len] m blocked_entries [OF m]
    by (auto simp: take_entry_def r_def refines_def)
next
  case False
  then obtain en where en: "try_entry hp m k = Ret (Inr en)"
    using try_entry_spec [OF m len] blocked_entries [OF m] by (metis (full_types))
  from m en len show ?thesis
  proof (cases rule: try_entry_cases)
    case (present oe k0 w)
    then show ?thesis
      using occupied_remove_spec [OF present(2,3)] en False by (auto simp: take_entry_def r_def refines_def)
  next
    case (absent ve)
    moreover have "(opt_map T)(as_bytes k := None) = opt_map T" using absent(3) by auto
    ultimately show ?thesis using en m False by (auto simp: take_entry_def r_def refines_def)
  qed
qed

lemma replace_by_clone_spec:
  assumes m: "map_state N fr m hp T"
  shows "\<exists>m' hp' T'. replace_by_clone hp m = Ret (m', hp') \<and> map_state N fr m' hp' T' \<and> opt_map T' = opt_map T"
proof -
  obtain m1 hp1 T1 where c: "clone_map id id hp m = Ret (m1, hp1)" "map_state N (cells hp) m1 hp1 T1"
      "opt_entries T1 = map (map_prod id id) (opt_entries T)"
    using clone_map_spec [OF _ m, of id id] by auto
  let ?fr = "\<lambda>a. if a \<in> opt_addrs T1 then cells hp1 a else fr a"
  obtain m2 hp2 where d: "clear hp1 m = Ret (m2, hp2)" "map_state N ?fr m2 hp2 None" "cells hp2 = ?fr"
    using clear_spec [OF map_state_other [OF m c(2)]] by blast
  have old: "a \<notin> opt_addrs T1 \<and> a < next_addr hp2" if "fr a \<noteq> None" for a
  proof -
    have "cells hp a \<noteq> None" using that m by (auto simp: map_state_def)
    then have "a \<notin> opt_addrs T1" using c(2) by (auto simp: map_state_def)
    then show ?thesis using that d(2) by (auto simp: map_state_def)
  qed
  have new: "a < next_addr hp2" if "a \<in> opt_addrs T1" for a
    using map_state_live [OF c(2) that] d(2) that by (auto simp: map_state_def)
  have same: "cells hp2 a = cells hp1 a" if "a \<in> opt_addrs T1" for a using that d(3) by simp
  have "holds N hp2 t" if "T1 = Some t" for t
    using c(2) that new same represents_frame [of N hp1 t hp2] by (auto simp: map_state_def holds_def)
  then have "map_state N fr m1 hp2 T1"
    using c(2) old d(3) unfolding map_state_def by (cases T1) auto
  moreover have "opt_map T1 = opt_map T" using c(3) by (simp add: opt_map_of prod.map_id0)
  ultimately show ?thesis using c(1) d(1) by (auto simp: replace_by_clone_def drop_map_def)
qed

text \<open>Every request gives the answer of its specification and keeps the map well formed.\<close>

lemma refinesI: "map_state N fr m hp T \<Longrightarrow> opt_map T = M \<Longrightarrow> refines N fr (m, hp) M"
  by (auto simp: refines_def)

lemma listing_collect:
  assumes "map_state N fr m hp T"
  shows "collect (iter_next as_key_value_ref hp) (Suc (len_map m)) (iter_new m) = Ret (opt_entries T)"
    "collect (iter_next_back as_key_value_ref hp) (Suc (len_map m)) (iter_new m) = Ret (rev (opt_entries T))"
  unfolding len_map_def iter_collect [OF assms] opt_leaves_items by (rule refl)+

lemmas reads = get_spec contains_key_spec first_key_value_spec last_key_value_spec
  count_entries listing_entries(1) listing_collect prefix_collect fuzzy_collect

lemma read_step:
  assumes m: "map_state N fr m hp T"
    and r: "r \<in> {Get key, Contains key, First, Last, Len, Iterate, Iterate_Back, With_Prefix key, Within n key}"
  shows "request_step N r (m, hp) = Ret (fst (spec_step r (opt_map T)), m, hp) \<and> snd (spec_step r (opt_map T)) = opt_map T"
  using r reads [OF m] end_entries [OF m] by auto

lemma write_step:
  assumes m: "map_state N fr m hp T" and ok: "allowed r"
    and r: "r \<in> {Try_Insert k v, Remove key, Pop_First, Pop_Last, Clear, Modify key f, Upsert k f v,
      Upsert_Ref into key f v, Take k, Replace_By_Clone, Update_All f, Drain calls}"
  shows "\<exists>s. request_step N r (m, hp) = Ret (fst (spec_step r (opt_map T)), s)
    \<and> refines N fr s (snd (spec_step r (opt_map T)))"
proof -
  note ref = refinesI
  consider "r = Try_Insert k v" | "r = Remove key" | "r = Pop_First" | "r = Pop_Last" | "r = Clear"
    | "r = Modify key f" | "r = Upsert k f v" | "r = Take k" | "r = Replace_By_Clone"
    | "r = Upsert_Ref into key f v" | "r = Update_All f" | "r = Drain calls" using r by blast
  then show ?thesis
  proof cases
    case 1
    then have "length (as_bytes k) < 2 ^ 32" using ok by simp
    from try_insert_spec [OF m this, of v] show ?thesis
      using blocked_entries [OF m, of k] ref [OF m refl] 1
      by (cases "blocked (opt_map T) k") (auto intro: ref)
  next
    case 2
    have "(opt_map T)(key := None) = opt_map T" if "opt_map T key = None" using that by auto
    then show ?thesis
      using remove_entry_spec [OF m, of key] ref [OF m refl] 2
      by (cases "opt_map T key") (fastforce intro: ref)+
  next
    case 3
    then show ?thesis
      using pop_first_spec [OF m] ref [OF m refl]
      by (cases "opt_entries T") (fastforce simp: without_first_def listing_entries(1) [OF m] intro: ref)+
  next
    case 4
    then show ?thesis
      using pop_last_spec [OF m] ref [OF m refl]
      by (cases "opt_entries T" rule: rev_cases)
        (fastforce simp: without_first_def listing_entries(1) [OF m] intro: ref)+
  next
    case 5
    then show ?thesis using clear_spec [OF m] ref [of N fr _ _ None] by fastforce
  next
    case 6
    then show ?thesis
      using modify_value_spec [OF m, of key f] by (cases "opt_map T key") (fastforce intro: ref)+
  next
    case 7
    then show ?thesis using upsert_spec [OF m, of k f v] ok by auto
  next
    case 8
    then show ?thesis using take_entry_spec [OF m, of k] ok by auto
  next
    case 9
    then show ?thesis using replace_by_clone_spec [OF m] by (fastforce intro: ref)
  next
    case 10
    then show ?thesis using upsert_spec [OF m, of "into key" f v] ok by (auto simp: upsert_ref_own)
  next
    case 11
    then show ?thesis
      using values_mut_for_each_spec [OF m, of f] opt_map_clone [of id _ f T] ref by (fastforce simp: fun_eq_iff)
  next
    case 12
    then show ?thesis using drain_spec [OF m, of calls] ref by (fastforce simp: listing_entries(1) [OF m])
  qed
qed

lemma request_step_refines:
  assumes "refines N fr s M" "allowed r"
  shows "\<exists>s'. request_step N r s = Ret (fst (spec_step r M), s') \<and> refines N fr s' (snd (spec_step r M))"
proof -
  obtain m hp T where s: "s = (m, hp)" "map_state N fr m hp T" "opt_map T = M"
    using assms(1) by (cases s) (auto simp: refines_def)
  consider (reads) key n where "r \<in> {Get key, Contains key, First, Last, Len, Iterate, Iterate_Back, With_Prefix key, Within n key}"
    | (writes) k v key f into calls where "r \<in> {Try_Insert k v, Remove key, Pop_First, Pop_Last, Clear, Modify key f,
        Upsert k f v, Upsert_Ref into key f v, Take k, Replace_By_Clone, Update_All f, Drain calls}"
    by (cases r) simp_all
  then show ?thesis
  proof cases
    case reads
    then show ?thesis using read_step [OF s(2) reads] refinesI [OF s(2)] s(1,3) by auto
  next
    case writes
    then show ?thesis using write_step [OF s(2) assms(2) writes] s(1,3) by simp
  qed
qed

interpretation api: simulation "request_step N" spec_step "refines N frame" allowed
  by unfold_locales (rule request_step_refines)

section \<open>Reachable states\<close>

inductive reachable :: "nat \<Rightarrow> ('k, 'v) program \<Rightarrow> bool" for N where
  start: "reachable N (with_prefix_len, empty_heap)"
| step: "reachable N s \<Longrightarrow> allowed r \<Longrightarrow> request_step N r s = Ret (a, s') \<Longrightarrow> reachable N s'"

lemma reachable_refines: "reachable N s \<Longrightarrow> \<exists>M. refines N Map.empty s M"
proof (induction rule: reachable.induct)
  case start
  show ?case using refinesI [OF map_state_new] by blast
next
  case (step s r a s')
  then show ?case using request_step_refines by fastforce
qed

lemma run_reachable:
  "reachable N s \<Longrightarrow> \<forall>r\<in>set rs. allowed r \<Longrightarrow> run_concrete (request_step N) rs s = Ret (answers, s') \<Longrightarrow> reachable N s'"
proof (induction rs arbitrary: s answers)
  case (Cons r rs)
  then obtain a s1 answers' where "request_step N r s = Ret (a, s1)" "run_concrete (request_step N) rs s1 = Ret (answers', s')"
    by (auto simp: outcome_simps)
  then show ?case using Cons.IH [of s1 answers'] Cons.prems(1,2) reachable.step [of N s r a s1] by simp
qed simp

text \<open>What the memory of a map consists of.\<close>

lemma leaf_cells:
  assumes "represents N hp t" "distinct (addrs t)"
  shows "{a \<in> set (addrs t). \<exists>l. cells hp a = Some (LeafCell l)} = fst ` set (leaves t)"
  using assms
proof (induction t)
  case (AInner a ty pf ch)
  have IH: "{a \<in> set (addrs t). \<exists>l. cells hp a = Some (LeafCell l)} = fst ` set (leaves t)" if "(b, t) \<in> set ch" for b t
    using AInner.IH [OF that] AInner.prems(1) distinct_child [OF AInner.prems(2) that] that by auto
  have "{x \<in> set (addrs (AInner a ty pf ch)). \<exists>l. cells hp x = Some (LeafCell l)}
      = (\<Union>e\<in>set ch. {a \<in> set (addrs (snd e)). \<exists>l. cells hp a = Some (LeafCell l)})"
    using AInner.prems(1) by (auto simp: split_def)
  also have "\<dots> = (\<Union>e\<in>set ch. fst ` set (leaves (snd e)))"
  proof (rule SUP_cong)
    fix e assume "e \<in> set ch"
    then show "{a \<in> set (addrs (snd e)). \<exists>l. cells hp a = Some (LeafCell l)} = fst ` set (leaves (snd e))"
      using IH [of "fst e" "snd e"] by simp
  qed simp
  finally show ?case by (simp add: image_UN split_def)
qed auto

lemma memory_of_map:
  assumes m: "map_state N Map.empty m hp T"
  shows "{a. cells hp a \<noteq> None} = opt_addrs T"
    and "card {a. \<exists>l. cells hp a = Some (LeafCell l)} = len_map m"
proof -
  show used: "{a. cells hp a \<noteq> None} = opt_addrs T"
    using m map_state_live [OF m] by (auto simp: map_state_def)
  show "card {a. \<exists>l. cells hp a = Some (LeafCell l)} = len_map m"
  proof (cases T)
    case None
    then have "{a. \<exists>l. cells hp a = Some (LeafCell l)} = {}" using used by auto
    then show ?thesis using m None by (simp only: card.empty) (simp add: map_state_def len_map_def)
  next
    case (Some t)
    then have t: "represents N hp t" "distinct (addrs t)" "num_entries m = length (leaves t)"
      using m by (auto simp: map_state_def holds_def entries_def)
    have "{a. \<exists>l. cells hp a = Some (LeafCell l)} = {a \<in> set (addrs t). \<exists>l. cells hp a = Some (LeafCell l)}"
      using used Some by auto
    also have "\<dots> = set (map fst (leaves t))" using leaf_cells [OF t(1,2)] by simp
    also have "card \<dots> = len_map m"
      using distinct_card [OF leaves_distinct [OF t(2)]] t(3) by (simp add: len_map_def)
    finally show ?thesis .
  qed
qed

lemma keys_prefix_free:
  assumes m: "map_state N fr m hp T"
  shows "prefix_free (dom (opt_map T))"
proof (cases T)
  case (Some t)
  then have w: "wf_art [] t" using m by (simp add: map_state_def)
  have "k = k'" if k: "(k, v) \<in> set (entries t)" "(k', v') \<in> set (entries t)" and p: "Sublist.prefix (as_bytes k) (as_bytes k')" for k v k' v'
  proof -
    obtain a a' where "(a, k, v) \<in> set (leaves t)" "(a', k', v') \<in> set (leaves t)" using k by (auto simp: entries_def)
    from leaf_unique [OF w this p] show ?thesis by simp
  qed
  then have "as_bytes (fst e) = as_bytes (fst e')"
    if "e \<in> set (entries t)" "e' \<in> set (entries t)" "Sublist.prefix (as_bytes (fst e)) (as_bytes (fst e'))" for e e'
    using that by (metis prod.collapse)
  then show ?thesis
    using opt_keys [OF m] unfolding prefix_free_def conflicts_def Some opt_simps by (metis (no_types, lifting) imageE)
qed (simp add: prefix_free_def)

section \<open>The size of a map\<close>

lemma addrs_bound: "wf_art path t \<Longrightarrow> Suc (length (addrs t)) \<le> 2 * length (leaves t)"
proof (induction t arbitrary: path)
  case (AInner a ty pf ch)
  have "Suc (length (addrs t)) \<le> 2 * length (leaves t)" if "(b, t) \<in> set ch" for b t
    using AInner.IH [OF that wf_child [OF AInner.prems that]] .
  then have "length (children_addrs ch) + length ch \<le> 2 * length (concat (map (\<lambda>(b, t). leaves t) ch))"
    by (induction ch) fastforce+
  then show ?case using wf_inner_ge2 [OF AInner.prems] by simp
qed simp

lemma height_bound: "wf_art path t \<Longrightarrow> \<exists>e\<in>set (entries t). length path + height t \<le> length (as_bytes (fst e))"
proof (induction t arbitrary: path)
  case (ALeaf a k v)
  then show ?case by (simp add: prefix_length_le)
next
  case (AInner a ty pf ch)
  let ?hs = "map (\<lambda>(b, t). Suc (height t)) ch"
  have "ch \<noteq> []" using wf_inner_ge2 [OF AInner.prems] by auto
  then have "fold max ?hs 0 \<in> set ?hs"
    using Max_in [of "set (0 # ?hs)"] Max.set_eq_fold [of 0 ?hs] fold_max_le [of _ ?hs 0] by (cases ch) fastforce+
  then obtain b t where t: "(b, t) \<in> set ch" "height (AInner a ty pf ch) = Suc (height t)" by auto
  obtain e where "e \<in> set (entries t)" "length (path @ pf @ [b]) + height t \<le> length (as_bytes (fst e))"
    using AInner.IH [OF t(1) wf_child [OF AInner.prems t(1)]] by blast
  moreover from this(1) t(1) have "e \<in> set (entries (AInner a ty pf ch))" by (force simp: entries_def)
  ultimately show ?case using t(2) by (intro bexI [of _ e]) auto
qed

lemma inner_cell_bounds:
  assumes "represents N hp t" "wf_art path t" "a \<in> set (addrs t)" "cells hp a = Some (InnerCell n)"
  shows "lower_bound (inner_type n) \<le> num_children (inner_header n)
    \<and> num_children (inner_header n) \<le> upper_capacity (inner_type n)
    \<and> length (h_prefix (inner_header n)) = N \<and> prefix_len (inner_header n) < 2 ^ 32"
  using assms
proof (induction t arbitrary: path)
  case (AInner a' ty pf ch)
  show ?case
  proof (cases "a = a'")
    case True
    then have ok: "node_ok N n ty pf (child_ptrs ch)" using AInner.prems(1,4) by auto
    show ?thesis
      using node_okD [OF ok] header_repr_bound AInner.prems(2) by (auto simp: in_range_def header_repr_lengths)
  next
    case False
    then obtain b t where "(b, t) \<in> set ch" "a \<in> set (addrs t)" using AInner.prems(3) by auto
    then show ?thesis using AInner.IH [of b t "path @ pf @ [b]"] AInner.prems(1,2,4) by auto
  qed
qed simp

section \<open>Properties\<close>

text \<open>
  C1. Every history of calls on a map, from an empty one, returns, and its answers are those of
  the specification on a finite map: lookups, both ends, the three kinds of iteration, inserts
  with their refusals, removals, both pops, clearing, writes through references, through entries
  by an owned and by a borrowed key and through the mutable iterators, replacing the map by its
  clone, and taking entries out of its owning iterator before that is dropped.
\<close>

theorem history_refines:
  assumes "\<forall>r\<in>set rs. allowed r"
  shows "\<exists>m hp T. run_concrete (request_step N) rs (with_prefix_len, empty_heap)
      = Ret (fst (run_abstract spec_step rs Map.empty), (m, hp))
    \<and> map_state N Map.empty m hp T \<and> opt_map T = snd (run_abstract spec_step rs Map.empty)"
  using api.run [OF refinesI [OF map_state_new refl] assms, of N] unfolding refines_def by fastforce

theorem history_refines_witness:
  "\<exists>s. run_concrete (request_step 2)
      [Try_Insert (Key [1, 2] ()) (7 :: nat), Upsert (Key [1, 3] ()) Suc 8, Upsert (Key [1, 2] ()) Suc 0,
       Try_Insert (Key [1] ()) 9, Take (Key [1, 3] ()), Replace_By_Clone, Update_All Suc, Get [1, 2], Get [1, 3],
       Upsert_Ref (\<lambda>q. Key q ()) [3] Suc 5, Len]
      (with_prefix_len, empty_heap)
    = Ret ([Value None, Value (Some 8), Value (Some 8), Refused (InsertPrefixError [1]),
       Entry (Some (Key [1, 3] (), 8)), Done, Done, Value (Some 9), Value None, Value (Some 5), Count 2], s)"
  using history_refines [of "[Try_Insert (Key [1, 2] ()) (7 :: nat), Upsert (Key [1, 3] ()) Suc 8, Upsert (Key [1, 2] ()) Suc 0,
       Try_Insert (Key [1] ()) 9, Take (Key [1, 3] ()), Replace_By_Clone, Update_All Suc, Get [1, 2], Get [1, 3],
       Upsert_Ref (\<lambda>q. Key q ()) [3] Suc 5, Len]" 2]
  by (auto simp: blocked_def conflicts_def upserted_def)

text \<open>
  C2. In every state that calls can lead to, the invariant of the map holds: the allocated nodes
  are exactly those of one well-formed tree (nothing leaks, nothing dangles), there are as many
  leaves as the map counts entries, and as many as it has keys, none of which is a proper
  prefix of another.  No call panics or is undefined behaviour there, and dropping the map
  frees everything.
\<close>

theorem reachable_invariant:
  assumes "reachable N (m, hp)"
  shows "(\<exists>T. map_state N Map.empty m hp T \<and> {a. cells hp a \<noteq> None} = opt_addrs T
      \<and> card {a. \<exists>l. cells hp a = Some (LeafCell l)} = len_map m
      \<and> len_map m = card (dom (opt_map T)) \<and> prefix_free (dom (opt_map T)))
    \<and> (\<forall>r. allowed r \<longrightarrow> (\<exists>a s'. request_step N r (m, hp) = Ret (a, s') \<and> reachable N s'))
    \<and> (\<exists>hp'. drop_map hp m = Ret hp' \<and> cells hp' = Map.empty)"
proof -
  obtain T where m: "map_state N Map.empty m hp T"
    using reachable_refines [OF assms] by (auto simp: refines_def)
  have "\<exists>a s'. request_step N r (m, hp) = Ret (a, s') \<and> reachable N s'" if "allowed r" for r
    using request_step_refines [OF refinesI [OF m refl] that] reachable.step [OF assms that] by blast
  moreover have "\<exists>hp'. drop_map hp m = Ret hp' \<and> cells hp' = Map.empty"
    using clear_spec [OF m] by (auto simp: drop_map_def)
  ultimately show ?thesis using m memory_of_map [OF m] count_entries [OF m] keys_prefix_free [OF m] by blast
qed

theorem reachable_invariant_witness:
  "\<exists>m (hp :: (unit, nat) heap) a s. reachable 2 (m, hp) \<and> len_map m = 1
    \<and> request_step 2 (Modify [5] Suc) (m, hp) = Ret (a, s) \<and> (\<exists>hp'. drop_map hp m = Ret hp' \<and> cells hp' = Map.empty)"
proof -
  let ?r = "Try_Insert (Key [5] ()) (0 :: nat)"
  obtain m hp T where r: "request_step 2 ?r (with_prefix_len, empty_heap) = Ret (Value None, m, hp)"
      "map_state 2 Map.empty m hp T" "opt_map T = [[5] \<mapsto> (Key [5] (), 0)]"
    using request_step_refines [OF refinesI [OF map_state_new refl], of ?r 2] by (auto simp: blocked_def refines_def)
  have reach: "reachable 2 (m, hp)" by (rule reachable.step [OF reachable.start _ r(1)]) simp
  have "len_map m = 1" using count_entries [OF r(2)] r(3) by simp
  moreover obtain a s where "request_step 2 (Modify [5] Suc) (m, hp) = Ret (a, s)"
    "\<exists>hp'. drop_map hp m = Ret hp' \<and> cells hp' = Map.empty"
    using reachable_invariant [OF reach, THEN conjunct2, THEN conjunct1, rule_format, of "Modify [5] Suc"]
      reachable_invariant [OF reach, THEN conjunct2, THEN conjunct2] by auto
  ultimately show ?thesis using reach by blast
qed

text \<open>
  C37. The size of every map that calls lead to is bounded by its entries: after any history of
  calls (\<open>reachable\<close>) \<open>n\<close> entries take at most \<open>2 * n - 1\<close> nodes.  A search for any key descends
  through at most as many inner nodes as some stored key has bytes (the first argument of
  \<open>search_from\<close> counts the steps).  No history leaves behind
  an inner node with fewer children than its kind is for, which would have to shrink or to
  be merged, or with more than it has slots; so the counters of 16 and 32 bits in its header never
  overflow.
\<close>

theorem map_bounds:
  assumes "reachable N (m, hp)"
  shows "card {a. cells hp a \<noteq> None} \<le> 2 * len_map m - 1
    \<and> (\<forall>root. map_root m = Some root \<longrightarrow> (\<exists>stored v. get_key_value hp m (as_bytes stored) = Ret (Some (stored, v))
        \<and> (\<forall>key. \<exists>r. search_from (Suc (length (as_bytes stored))) hp key root 0 = Ret r
            \<and> search_unchecked hp root key = Ret r)))
    \<and> (\<forall>a n. cells hp a = Some (InnerCell n) \<longrightarrow>
        lower_bound (inner_type n) \<le> num_children (inner_header n)
      \<and> num_children (inner_header n) \<le> upper_capacity (inner_type n)
      \<and> length (h_prefix (inner_header n)) = N \<and> prefix_len (inner_header n) < 2 ^ 32)"
proof -
  obtain T where m: "map_state N Map.empty m hp T"
    using reachable_refines [OF assms] by (auto simp: refines_def)
  show ?thesis
  proof (cases T)
    case None
    then show ?thesis using memory_of_map(1) [OF m] m by (auto simp: map_state_def)
  next
    case (Some t)
    then have t: "wf_art [] t" "represents N hp t" "distinct (addrs t)" "num_entries m = length (leaves t)"
      "map_root m = Some (root_ptr t)" "holds N hp t"
      using m by (auto simp: map_state_def holds_def entries_def)
    have used: "{a. cells hp a \<noteq> None} = set (addrs t)" using memory_of_map(1) [OF m] Some by simp
    then have "card {a. cells hp a \<noteq> None} \<le> 2 * len_map m - 1"
      using addrs_bound [OF t(1)] distinct_card [OF t(3)] t(4) by (simp add: len_map_def)
    moreover have "a \<in> set (addrs t)" if "cells hp a = Some c" for a c using used that by auto
    moreover obtain e where e: "e \<in> set (entries t)" "height t \<le> length (as_bytes (fst e))"
      using height_bound [OF t(1)] by auto
    moreover have "get_key_value hp m (as_bytes (fst e)) = Ret (Some (fst e, snd e))"
      using get_key_value_spec [OF m, of "as_bytes (fst e)"] opt_map_entries [OF m, of "as_bytes (fst e)" e] e(1) Some by simp
    moreover have "search_from (Suc (length (as_bytes (fst e)))) hp key (root_ptr t) 0 = search_unchecked hp (root_ptr t) key"
      for key
      using search_from_spec [OF t(2,1), of "Suc (length (as_bytes (fst e)))" key] e(2)
        search_unchecked_spec [OF t(6,1), of key] by simp
    moreover have "\<exists>r. search_unchecked hp (root_ptr t) key = Ret r" for key
      using search_unchecked_spec [OF t(6,1)] by blast
    ultimately show ?thesis
      using inner_cell_bounds [OF t(2,1)] t(5) by (metis (no_types, lifting) option.inject)
  qed
qed

theorem map_bounds_witness:
  "\<exists>m (hp :: (unit, nat) heap). reachable 2 (m, hp) \<and> len_map m = 2 \<and> card {a. cells hp a \<noteq> None} \<le> 3"
proof -
  let ?rs = "[Try_Insert (Key [5, 1] ()) (0 :: nat), Try_Insert (Key [5, 2] ()) 1] :: (unit, nat) request list"
  obtain m hp where r: "run_concrete (request_step 2) ?rs (with_prefix_len, empty_heap) = Ret (fst (run_abstract spec_step ?rs Map.empty), (m, hp))"
    and s: "refines 2 Map.empty (m, hp) (snd (run_abstract spec_step ?rs Map.empty))"
    using api.run [OF refinesI [OF map_state_new refl], of ?rs 2] by auto
  have reach: "reachable 2 (m, hp)" by (rule run_reachable [OF reachable.start _ r]) simp
  obtain T where T: "map_state 2 Map.empty m hp T"
      "opt_map T = [[5, 1] \<mapsto> (Key [5, 1] (), 0), [5, 2] \<mapsto> (Key [5, 2] (), 1)]"
    using s by (auto simp: refines_def blocked_def conflicts_def)
  then have "len_map m = 2" using count_entries [OF T(1)] by simp
  then show ?thesis using map_bounds [OF reach] reach by auto
qed

end
