(* ===== verification/Fuzz_Target.thy ===== *)
theory Fuzz_Target
  imports Histories Comparisons
begin

text \<open>
  The fuzz target of the map's interface (\<open>src/fuzz/fuzz_targets/fuzz_tree_map_api.rs\<close>): a client
  that runs any sequence of actions on one map and asserts what it expects.  Every match arm is an
  equation of \<open>fuzz_step\<close>, every \<open>assert!\<close> an \<open>assert_that\<close>; the map is dropped at the end.
  Keys are boxed slices, which are not free of prefixes, so that insertions may be refused.
  The randomly seeded hasher of the standard library is a parameter.

  The lemmas compose the specifications of the calls into the invariant that every value is below
  \<open>next_key\<close>; with it no assertion fails.
\<close>

section \<open>Loops of the standard library over iterators\<close>

fun is_sorted_after :: "('a \<Rightarrow> 'a \<Rightarrow> bool) \<Rightarrow> ('s, 'a) step \<Rightarrow> nat \<Rightarrow> 'a \<Rightarrow> 's \<Rightarrow> bool outcome" where
  "is_sorted_after ordered nxt 0 previous it = NoFuel"
| "is_sorted_after ordered nxt (Suc fuel) previous it =
     and_then (nxt it) (\<lambda>(item, it).
     case item of None \<Rightarrow> Ret True
     | Some current \<Rightarrow> if ordered previous current then is_sorted_after ordered nxt fuel current it else Ret False)"

definition iter_is_sorted_by :: "('a \<Rightarrow> 'a \<Rightarrow> bool) \<Rightarrow> ('s, 'a) step \<Rightarrow> nat \<Rightarrow> 's \<Rightarrow> bool outcome" where
  \<comment> \<open>\<open>Iterator::is_sorted_by\<close>, and \<open>is_sorted\<close> with the order of the items\<close>
  "iter_is_sorted_by ordered nxt fuel it =
     and_then (nxt it) (\<lambda>(item, it).
     case item of None \<Rightarrow> Ret True | Some first \<Rightarrow> is_sorted_after ordered nxt fuel first it)"

fun iter_count :: "('s, 'a) step \<Rightarrow> nat \<Rightarrow> 's \<Rightarrow> nat outcome" where
  \<comment> \<open>\<open>Iterator::count\<close>\<close>
  "iter_count nxt 0 it = NoFuel"
| "iter_count nxt (Suc fuel) it =
     and_then (nxt it) (\<lambda>(item, it).
     case item of None \<Rightarrow> Ret 0 | Some _ \<Rightarrow> and_then (iter_count nxt fuel it) (\<lambda>n. Ret (n + 1)))"

context forward_iterator
begin

lemma is_sorted_after_spec:
  "left s xs \<Longrightarrow> length xs < fuel \<Longrightarrow>
    is_sorted_after ordered next_item fuel x s = Ret (successively ordered (x # xs))"
proof (induction fuel arbitrary: s xs x)
  case (Suc fuel)
  then show ?case using next_spec [OF Suc.prems(1)] by (cases xs) (auto split: option.splits)
qed simp

lemma is_sorted_by_spec:
  assumes "left s xs" "length xs < fuel"
  shows "iter_is_sorted_by ordered next_item fuel s = Ret (successively ordered xs)"
  using next_spec [OF assms(1)] assms(2) is_sorted_after_spec
  by (cases xs) (auto simp: iter_is_sorted_by_def split: option.splits)

lemma count_spec: "left s xs \<Longrightarrow> length xs < fuel \<Longrightarrow> iter_count next_item fuel s = Ret (length xs)"
proof (induction fuel arbitrary: s xs)
  case (Suc fuel)
  then show ?case using next_spec [OF Suc.prems(1)] by (cases xs) (auto split: option.splits)
qed simp

end

section \<open>The target\<close>

datatype entry_action =
    AndModify | InsertEntry | EntryKey | OrDefault | OrInsert | OrInsertWith | OrInsertWithKey | RemoveEntry

datatype action =
    Clear | ContainsKey bytes | GetMinimum | PopMinimum | GetMaximum | PopMaximum | GetKey bytes
  | CheckLen | CheckIter | Remove bytes | TryInsert bytes | Extend "bytes list" | Clone | Hash
  | Entry entry_action bytes | EntryRef entry_action bytes | Fuzzy bytes | Prefix bytes

type_synonym fuzz_heap = "(unit, u32) heap"

type_synonym fuzz_state = "treemap \<times> u32 \<times> fuzz_heap"

record 'h hasher =
  build_hasher :: 'h
  length_prefix :: "nat \<Rightarrow> 'h \<Rightarrow> 'h"
  hash_elt :: "unit key \<times> u32 \<Rightarrow> 'h \<Rightarrow> 'h"
  finish :: "'h \<Rightarrow> 64 word"

definition u32_saturating_sub :: "u32 \<Rightarrow> u32 \<Rightarrow> u32" where
  "u32_saturating_sub a b = (if b \<le> a then a - b else 0)"

definition u32_saturating_add :: "u32 \<Rightarrow> u32 \<Rightarrow> u32" where
  "u32_saturating_add a b = (if unat a + unat b < 2 ^ 32 then a + b else - 1)"

definition hash_one :: "'h hasher \<Rightarrow> fuzz_heap \<Rightarrow> treemap \<Rightarrow> 64 word outcome" where
  "hash_one h hp m = and_then (hash_map (length_prefix h) (hash_elt h) hp m (build_hasher h)) (\<lambda>s. Ret (finish h s))"

definition check_value :: "u32 \<Rightarrow> (unit key \<times> u32) option \<Rightarrow> unit outcome" where
  \<comment> \<open>\<open>if let Some((_, value)) = entry { assert!(value < next_key) }\<close>\<close>
  "check_value next_key e = (case e of None \<Rightarrow> Ret () | Some (_, v) \<Rightarrow> assert_that (v < next_key))"

definition check_iter :: "fuzz_heap \<Rightarrow> treemap \<Rightarrow> fuzz_heap outcome" where
  "check_iter hp m =
     (let fuel = Suc (len_map m) in
      and_then (iter_mut_for_each (\<lambda>v. u32_saturating_add v 1) hp m) (\<lambda>hp.
      and_then (iter_mut_rev_for_each (\<lambda>v. u32_saturating_sub v 1) hp m) (\<lambda>hp.
      and_then (iter_is_sorted_by (\<lambda>a b. as_bytes a \<le> as_bytes b) (iter_next as_key_ref hp) fuel (iter_new m)) (\<lambda>b.
      and_then (assert_that b) (\<lambda>_.
      and_then (iter_is_sorted_by (\<lambda>a b. as_bytes a \<ge> as_bytes b) (iter_next_back as_key_ref hp) fuel (iter_new m)) (\<lambda>b.
      and_then (assert_that b) (\<lambda>_.
      and_then (iter_count (iter_next as_key_value_ref hp) fuel (iter_new m)) (\<lambda>n.
      and_then (assert_that (n = len_map m)) (\<lambda>_.
      and_then (iter_count (iter_next_back as_key_value_ref hp) fuel (iter_new m)) (\<lambda>n.
      and_then (assert_that (n = len_map m)) (\<lambda>_. Ret hp)))))))))))"

definition check_hash :: "'h hasher \<Rightarrow> fuzz_heap \<Rightarrow> treemap \<Rightarrow> fuzz_heap outcome" where
  \<comment> \<open>the copy is dropped at the end of the match arm\<close>
  "check_hash h hp m =
     and_then (clone_map id id hp m) (\<lambda>(tree_copy, hp).
     and_then (hash_one h hp m) (\<lambda>original_hash.
     and_then (hash_one h hp tree_copy) (\<lambda>copy_hash.
     and_then (assert_that (original_hash = copy_hash)) (\<lambda>_. drop_map hp tree_copy))))"

fun try_insert_all :: "nat \<Rightarrow> bytes list \<Rightarrow> fuzz_state \<Rightarrow> fuzz_state outcome" where
  \<comment> \<open>the loop of \<open>Action::Extend\<close>\<close>
  "try_insert_all N [] s = Ret s"
| "try_insert_all N (key # new_keys) (m, next_key, hp) =
     (let v = next_key in
      and_then (checked_add_u32 next_key 1) (\<lambda>next_key.
      and_then (try_insert N hp m (Key key ()) v) (\<lambda>(_, m, hp).
      try_insert_all N new_keys (m, next_key, hp))))"

fun entry_step ::
    "nat \<Rightarrow> u32 \<Rightarrow> entry_action \<Rightarrow> unit key entry \<Rightarrow> treemap \<times> fuzz_heap \<Rightarrow> (treemap \<times> fuzz_heap) outcome" where
  "entry_step N v AndModify en (m, hp) =
     and_then (entry_and_modify hp en (\<lambda>v. u32_saturating_sub v 1)) (\<lambda>(_, hp). Ret (m, hp))"
| "entry_step N v InsertEntry en (m, hp) = and_then (entry_insert_entry N hp m en v) (\<lambda>(_, s). Ret s)"
| "entry_step N v EntryKey en (m, hp) = and_then (entry_key hp en) (\<lambda>_. Ret (m, hp))"
| "entry_step N v OrDefault en (m, hp) = and_then (or_default 0 N hp m en) (\<lambda>(_, s). Ret s)"
| "entry_step N v OrInsert en (m, hp) = and_then (or_insert N hp m en v) (\<lambda>(_, s). Ret s)"
| "entry_step N v OrInsertWith en (m, hp) = and_then (or_insert_with N hp m en (\<lambda>_. v)) (\<lambda>(_, s). Ret s)"
| "entry_step N v OrInsertWithKey en (m, hp) = and_then (or_insert_with_key N hp m en (\<lambda>_. v)) (\<lambda>(_, s). Ret s)"
| "entry_step N v RemoveEntry en (m, hp) =
     (case en of Occupied e \<Rightarrow> and_then (occupied_remove_entry hp m e) (\<lambda>(_, s). Ret s) | Vacant _ \<Rightarrow> Ret (m, hp))"

text \<open>A boxed slice is made from a borrowed one by copying its bytes.\<close>

abbreviation boxed :: "bytes \<Rightarrow> unit key" where
  "boxed q \<equiv> Key q ()"

fun entry_ref_step ::
    "nat \<Rightarrow> u32 \<Rightarrow> entry_action \<Rightarrow> bytes entry \<Rightarrow> treemap \<times> fuzz_heap \<Rightarrow> (treemap \<times> fuzz_heap) outcome" where
  "entry_ref_step N v AndModify en (m, hp) =
     and_then (entry_ref_and_modify hp en (\<lambda>v. u32_saturating_sub v 1)) (\<lambda>(_, hp). Ret (m, hp))"
| "entry_ref_step N v InsertEntry en (m, hp) = and_then (entry_ref_insert_entry boxed N hp m en v) (\<lambda>(_, s). Ret s)"
| "entry_ref_step N v EntryKey en (m, hp) = and_then (entry_ref_key as_bytes hp en) (\<lambda>_. Ret (m, hp))"
| "entry_ref_step N v OrDefault en (m, hp) = and_then (ref_or_default boxed 0 N hp m en) (\<lambda>(_, s). Ret s)"
| "entry_ref_step N v OrInsert en (m, hp) = and_then (ref_or_insert boxed N hp m en v) (\<lambda>(_, s). Ret s)"
| "entry_ref_step N v OrInsertWith en (m, hp) = and_then (ref_or_insert_with boxed N hp m en (\<lambda>_. v)) (\<lambda>(_, s). Ret s)"
| "entry_ref_step N v OrInsertWithKey en (m, hp) =
     and_then (ref_or_insert_with_key boxed N hp m en (\<lambda>_. v)) (\<lambda>(_, s). Ret s)"
| "entry_ref_step N v RemoveEntry en (m, hp) =
     (case en of Occupied e \<Rightarrow> and_then (occupied_ref_remove_entry hp m e) (\<lambda>(_, s). Ret s) | Vacant _ \<Rightarrow> Ret (m, hp))"

fun fuzz_step :: "'h hasher \<Rightarrow> nat \<Rightarrow> action \<Rightarrow> fuzz_state \<Rightarrow> fuzz_state outcome" where
  "fuzz_step h N Clear (m, next_key, hp) = and_then (clear hp m) (\<lambda>(m, hp). Ret (m, next_key, hp))"
| "fuzz_step h N (ContainsKey key) (m, next_key, hp) = and_then (contains_key hp m key) (\<lambda>_. Ret (m, next_key, hp))"
| "fuzz_step h N GetMinimum (m, next_key, hp) =
     and_then (first_key_value hp m) (\<lambda>e. and_then (check_value next_key e) (\<lambda>_. Ret (m, next_key, hp)))"
| "fuzz_step h N PopMinimum (m, next_key, hp) =
     and_then (pop_first hp m) (\<lambda>(e, m, hp). and_then (check_value next_key e) (\<lambda>_. Ret (m, next_key, hp)))"
| "fuzz_step h N GetMaximum (m, next_key, hp) =
     and_then (last_key_value hp m) (\<lambda>e. and_then (check_value next_key e) (\<lambda>_. Ret (m, next_key, hp)))"
| "fuzz_step h N PopMaximum (m, next_key, hp) =
     and_then (pop_last hp m) (\<lambda>(e, m, hp). and_then (check_value next_key e) (\<lambda>_. Ret (m, next_key, hp)))"
| "fuzz_step h N (GetKey key) (m, next_key, hp) =
     and_then (modify_value hp m key (\<lambda>v. u32_saturating_sub v 1)) (\<lambda>(_, hp). Ret (m, next_key, hp))"
| "fuzz_step h N CheckLen (m, next_key, hp) =
     and_then (assert_that ((is_empty m \<and> len_map m = 0) \<or> len_map m > 0)) (\<lambda>_. Ret (m, next_key, hp))"
| "fuzz_step h N CheckIter (m, next_key, hp) = and_then (check_iter hp m) (\<lambda>hp. Ret (m, next_key, hp))"
| "fuzz_step h N (Remove key) (m, next_key, hp) =
     and_then (remove_map hp m key) (\<lambda>(v, m, hp).
     and_then (assert_that (case v of None \<Rightarrow> True | Some v \<Rightarrow> v < next_key)) (\<lambda>_. Ret (m, next_key, hp)))"
| "fuzz_step h N (TryInsert key) (m, next_key, hp) =
     (let v = next_key in
      and_then (checked_add_u32 next_key 1) (\<lambda>next_key.
      and_then (try_insert N hp m (Key key ()) v) (\<lambda>(_, m, hp). Ret (m, next_key, hp))))"
| "fuzz_step h N (Extend new_keys) s = try_insert_all N new_keys s"
| "fuzz_step h N Clone (m, next_key, hp) = and_then (replace_by_clone hp m) (\<lambda>(m, hp). Ret (m, next_key, hp))"
| "fuzz_step h N Hash (m, next_key, hp) = and_then (check_hash h hp m) (\<lambda>hp. Ret (m, next_key, hp))"
| "fuzz_step h N (Entry ea key) (m, next_key, hp) =
     and_then (try_entry hp m (Key key ())) (\<lambda>r.
     case r of Inl _ \<Rightarrow> Ret (m, next_key, hp)
     | Inr en \<Rightarrow>
         let v = next_key in
         and_then (checked_add_u32 next_key 1) (\<lambda>next_key.
         and_then (entry_step N v ea en (m, hp)) (\<lambda>(m, hp). Ret (m, next_key, hp))))"
| "fuzz_step h N (EntryRef ea key) (m, next_key, hp) =
     and_then (try_entry_ref id hp m key) (\<lambda>r.
     case r of Inl _ \<Rightarrow> Ret (m, next_key, hp)
     | Inr en \<Rightarrow>
         let v = next_key in
         and_then (checked_add_u32 next_key 1) (\<lambda>next_key.
         and_then (entry_ref_step N v ea en (m, hp)) (\<lambda>(m, hp). Ret (m, next_key, hp))))"
| "fuzz_step h N (Fuzzy key) (m, next_key, hp) =
     and_then (collect (fuzzy_next as_key_value_ref hp key 3) (Suc (len_map m)) (fuzzy_new m key)) (\<lambda>_. Ret (m, next_key, hp))"
| "fuzz_step h N (Prefix key) (m, next_key, hp) =
     and_then (collect (prefix_next as_key_value_ref hp key) (Suc (len_map m)) (prefix_new m)) (\<lambda>_. Ret (m, next_key, hp))"

fun fuzz_actions :: "'h hasher \<Rightarrow> nat \<Rightarrow> action list \<Rightarrow> fuzz_state \<Rightarrow> fuzz_state outcome" where
  "fuzz_actions h N [] s = Ret s"
| "fuzz_actions h N (a # as) s = and_then (fuzz_step h N a s) (fuzz_actions h N as)"

definition fuzz_target :: "'h hasher \<Rightarrow> nat \<Rightarrow> action list \<Rightarrow> fuzz_heap outcome" where
  "fuzz_target h N actions =
     and_then (fuzz_actions h N actions (with_prefix_len, 0, empty_heap)) (\<lambda>(m, _, hp). drop_map hp m)"

section \<open>The invariant\<close>

text \<open>Every value was given out, and then only decreased.\<close>

definition values_below :: "u32 \<Rightarrow> ('k, u32) amap \<Rightarrow> bool" where
  "values_below n M \<longleftrightarrow> (\<forall>kb k v. M kb = Some (k, v) \<longrightarrow> v < n)"

definition fuzz_inv :: "nat \<Rightarrow> fuzz_state \<Rightarrow> bool" where
  "fuzz_inv N s \<longleftrightarrow> (case s of (m, n, hp) \<Rightarrow> \<exists>T. map_state N Map.empty m hp T \<and> values_below n (opt_map T))"

lemma fuzz_invI: "map_state N Map.empty m hp T \<Longrightarrow> values_below n (opt_map T) \<Longrightarrow> fuzz_inv N (m, n, hp)"
  by (auto simp: fuzz_inv_def)

lemma values_below_simps [simp]:
  "values_below n Map.empty"
  "values_below n M \<Longrightarrow> values_below n (M(kb := None))"
  "values_below n M \<Longrightarrow> v < n \<Longrightarrow> values_below n (M(kb \<mapsto> (k, v)))"
  by (auto simp: values_below_def)

lemma values_belowD: "values_below n M \<Longrightarrow> M kb = Some (k, v) \<Longrightarrow> v < n"
  by (auto simp: values_below_def)

lemma values_below_mono: "values_below n M \<Longrightarrow> n \<le> n' \<Longrightarrow> values_below n' M"
  unfolding values_below_def by (meson order.strict_trans2)

lemma values_below_map:
  assumes "values_below n M" "\<And>v. g v \<le> v"
  shows "values_below n (map_option (map_prod id g) \<circ> M)"
  unfolding values_below_def
proof (intro allI impI)
  fix kb k v
  assume "(map_option (map_prod id g) \<circ> M) kb = Some (k, v)"
  then obtain w where "M kb = Some (k, w)" "v = g w" by auto
  then show "v < n" using assms(2) [of w] values_belowD [OF assms(1)] by (meson le_less_trans)
qed

lemma entry_below:
  "map_state N fr m hp T \<Longrightarrow> values_below n (opt_map T) \<Longrightarrow> e \<in> set (opt_entries T) \<Longrightarrow> snd e < n"
  using opt_map_entries [of N fr m hp T "as_bytes (fst e)" e] by (cases e) (auto simp: values_below_def)

lemma u32_saturating_sub_le [simp]: "u32_saturating_sub v 1 \<le> v"
  by (cases "v = 0") (auto simp: u32_saturating_sub_def word_le_nat_alt unat_minus_one word_le_sub1)

lemma u32_saturating_add_sub_le [simp]: "u32_saturating_sub (u32_saturating_add v 1) 1 \<le> v"
proof (cases "unat v + 1 < 2 ^ 32")
  case True
  then have "unat (v + 1) = unat v + 1" by (simp add: unat_word_ariths)
  then have "1 \<le> v + 1" by (simp add: word_le_nat_alt)
  then show ?thesis using True by (simp add: u32_saturating_add_def u32_saturating_sub_def)
next
  case False
  have "unat v < 2 ^ 32" using unsigned_less [of v] by simp
  moreover have "unat (- 1 :: u32) = 2 ^ 32 - 1" by (simp add: unsigned_minus_1_eq_mask mask_eq_exp_minus_1)
  ultimately have "unat v = unat (- 1 :: u32)" using False by simp
  then have "v = - 1" by (rule unsigned_word_eqI)
  then show ?thesis by (simp add: u32_saturating_add_def)
qed

lemma next_key_above:
  assumes "unat n + 1 < 2 ^ 32"
  obtains n' where "checked_add_u32 n 1 = Ret n'" "unat n' = unat n + 1" "n < n'" "n \<le> n'" "0 < n'"
proof -
  have "unat (n + 1) = unat n + 1" using assms by (simp add: unat_word_ariths)
  then show thesis using assms that [of "n + 1"]
    by (simp add: checked_add_u32_def word_less_nat_alt word_le_nat_alt)
qed

section \<open>The actions\<close>

lemma check_iter_spec:
  assumes m: "map_state N Map.empty m hp T" "values_below n (opt_map T)"
  shows "\<exists>hp'. check_iter hp m = Ret hp' \<and> fuzz_inv N (m, n, hp')"
proof -
  obtain hp1 T1 where 1: "iter_mut_for_each (\<lambda>v. u32_saturating_add v 1) hp m = Ret hp1" "map_state N Map.empty m hp1 T1"
      "opt_entries T1 = map (map_prod id (\<lambda>v. u32_saturating_add v 1)) (opt_entries T)"
    using iter_mut_for_each_spec [OF m(1)] by blast
  obtain hp2 T2 where 2: "iter_mut_rev_for_each (\<lambda>v. u32_saturating_sub v 1) hp1 m = Ret hp2" "map_state N Map.empty m hp2 T2"
      "opt_entries T2 = map (map_prod id (\<lambda>v. u32_saturating_sub v 1)) (opt_entries T1)"
    using iter_mut_rev_for_each_spec [OF 1(2)] by blast
  have "opt_entries T2 = map (map_prod id (\<lambda>v. u32_saturating_sub (u32_saturating_add v 1) 1)) (opt_entries T)"
    unfolding 1(3) 2(3) map_map by (rule map_cong) auto
  then have "opt_map T2 = map_option (map_prod id (\<lambda>v. u32_saturating_sub (u32_saturating_add v 1) 1)) \<circ> opt_map T"
    using opt_map_clone [of id T2 "\<lambda>v. u32_saturating_sub (u32_saturating_add v 1) 1" T] by auto
  then have inv: "fuzz_inv N (m, n, hp2)" using fuzz_invI [OF 2(2)] values_below_map [OF m(2)] by simp
  let ?ks = "map fst (opt_entries T2)"
  have len: "length (opt_entries T2) = len_map m" using 2(2) by (simp add: len_map_def map_state_def)
  have sorted: "sorted_wrt (\<lambda>a b. as_bytes a \<le> as_bytes b) ?ks"
    using sorted_opt_entries [OF 2(2)] unfolding sorted_wrt_map by (rule sorted_wrt_mono_rel [rotated]) simp
  then have "successively (\<lambda>a b. as_bytes a \<le> as_bytes b) ?ks"
    by (subst successively_conv_sorted_wrt) (auto intro: transpI)
  moreover note l = iter_new_left [OF 2(2), of as_key_ref, unfolded opt_leaves_items]
    iter_new_left [OF 2(2), of as_key_value_ref, unfolded opt_leaves_items]
  ultimately have "iter_is_sorted_by (\<lambda>a b. as_bytes a \<le> as_bytes b) (iter_next as_key_ref hp2) (Suc (len_map m)) (iter_new m) = Ret True"
    "iter_is_sorted_by (\<lambda>a b. as_bytes a \<ge> as_bytes b) (iter_next_back as_key_ref hp2) (Suc (len_map m)) (iter_new m) = Ret True"
    "iter_count (iter_next as_key_value_ref hp2) (Suc (len_map m)) (iter_new m) = Ret (len_map m)"
    "iter_count (iter_next_back as_key_value_ref hp2) (Suc (len_map m)) (iter_new m) = Ret (len_map m)"
    using it.ex.is_sorted_by_spec [OF l(1)] it.ex.count_spec [OF l(2)]
      it.ex.backwards.is_sorted_by_spec [of _ _ _ _ _ "rev ?ks", unfolded rev_rev_ident, OF l(1)]
      it.ex.backwards.count_spec [of _ _ _ _ _ "rev (opt_entries T2)", unfolded rev_rev_ident, OF l(2)]
    unfolding iter_next_def iter_next_back_def length_rev length_map len by (simp_all del: iter_count.simps)
  then show ?thesis using inv 1(1) 2(1) by (simp add: check_iter_def Let_def del: iter_count.simps)
qed

lemma map_state_same_cells:
  assumes m: "map_state N fr m hp T" and same: "cells hp' = cells hp" "\<forall>a. cells hp a \<noteq> None \<longrightarrow> a < next_addr hp'"
  shows "map_state N fr m hp' T"
proof -
  have "holds N hp' t" if "T = Some t" for t
    using m that same map_state_live [OF m] represents_frame [of N hp t hp'] by (auto simp: map_state_def holds_def)
  moreover have "a < next_addr hp' \<and> a \<notin> opt_addrs T" if "fr a \<noteq> None" for a
    using m same that unfolding map_state_def by metis
  ultimately show ?thesis
    using m same(1) unfolding map_state_def by (cases T) auto
qed

lemma check_hash_spec:
  assumes m: "map_state N Map.empty m hp T"
  shows "\<exists>hp'. check_hash h hp m = Ret hp' \<and> map_state N Map.empty m hp' T"
proof -
  obtain m1 hp1 T1 where c: "clone_map id id hp m = Ret (m1, hp1)" "map_state N (cells hp) m1 hp1 T1"
      "opt_entries T1 = opt_entries T"
    using clone_map_spec [OF _ m, of id id] by (auto simp: prod.map_id0)
  have "hash_one h hp1 m = hash_one h hp1 m1"
    by (simp add: hash_one_def c(3) hash_map_spec [OF map_state_other [OF m c(2)]] hash_map_spec [OF c(2)])
  moreover obtain hash where "hash_one h hp1 m1 = Ret hash" by (simp add: hash_one_def hash_map_spec [OF c(2)])
  moreover obtain m2 hp2 where d: "clear hp1 m1 = Ret (m2, hp2)" "map_state N (cells hp) m2 hp2 None" "cells hp2 = cells hp"
    using clear_spec [OF c(2)] by blast
  moreover have "map_state N Map.empty m hp2 T"
    using map_state_same_cells [OF m d(3)] d(2) by (simp add: map_state_def)
  ultimately show ?thesis using c(1) by (simp add: check_hash_def drop_map_def)
qed

lemma try_insert_inv:
  assumes m: "map_state N Map.empty m hp T" "values_below n (opt_map T)" and len: "length key < 2 ^ 32" and v: "v < n"
  shows "\<exists>r m' hp'. try_insert N hp m (Key key ()) v = Ret (r, m', hp') \<and> fuzz_inv N (m', n, hp')"
proof (cases "blocked (opt_map T) (Key key ())")
  case True
  then show ?thesis
    using try_insert_spec [OF m(1), of "Key key ()" v] len fuzz_invI [OF m] by (auto simp: blocked_entries [OF m(1)])
next
  case False
  then obtain m' hp' T' where "try_insert N hp m (Key key ()) v = Ret (Inr (map_option snd (opt_map T key)), m', hp')"
      "map_state N Map.empty m' hp' T'" "opt_map T' = (opt_map T)(key \<mapsto> (Key key (), v))"
    using try_insert_spec [OF m(1), of "Key key ()" v] len by (auto simp: blocked_entries [OF m(1)])
  then show ?thesis using fuzz_invI [of N m' hp' T' n] m(2) v by auto
qed

lemma try_insert_all_spec:
  "fuzz_inv N (m, n, hp) \<Longrightarrow> \<forall>key\<in>set keys. length key < 2 ^ 32 \<Longrightarrow> unat n + length keys < 2 ^ 32 \<Longrightarrow>
    \<exists>m' n' hp'. try_insert_all N keys (m, n, hp) = Ret (m', n', hp') \<and> fuzz_inv N (m', n', hp')
      \<and> unat n' = unat n + length keys"
proof (induction keys arbitrary: m n hp)
  case (Cons key keys)
  obtain n' where n': "checked_add_u32 n 1 = Ret n'" "unat n' = unat n + 1" "n < n'" "n \<le> n'"
    using next_key_above [of n] Cons.prems(3) by auto
  obtain T where T: "map_state N Map.empty m hp T" "values_below n' (opt_map T)"
    using Cons.prems(1) values_below_mono [OF _ n'(4)] by (auto simp: fuzz_inv_def)
  obtain r m1 hp1 where 1: "try_insert N hp m (Key key ()) n = Ret (r, m1, hp1)" "fuzz_inv N (m1, n', hp1)"
    using try_insert_inv [OF T _ n'(3), of key] Cons.prems(2) by auto
  show ?case using Cons.IH [OF 1(2)] Cons.prems(2,3) n'(1,2) 1(1) by auto
qed auto

lemma entry_step_spec:
  assumes m: "map_state N Map.empty m hp T" "values_below n (opt_map T)" and en: "try_entry hp m (Key key ()) = Ret (Inr en)"
    and len: "length key < 2 ^ 32" and v: "v < n" "0 < n"
  shows "\<exists>m' hp'. entry_step N v ea en (m, hp) = Ret (m', hp') \<and> fuzz_inv N (m', n, hp')"
proof -
  let ?k = "Key key () :: unit key"
  have len': "length (as_bytes ?k) < 2 ^ 32" using len by simp
  have ins: "\<exists>m' hp'. and_then (or_insert_with_key N hp m en (\<lambda>_. w)) (\<lambda>(_, s). Ret s) = Ret (m', hp')
      \<and> and_then (or_insert N hp m en w) (\<lambda>(_, s). Ret s) = Ret (m', hp') \<and> fuzz_inv N (m', n, hp')" if w: "w < n" for w
  proof -
    let ?e = "case opt_map T key of None \<Rightarrow> (?k, w) | Some kv \<Rightarrow> kv"
    obtain p m' hp' T' where 1: "or_insert_with_key N hp m en (\<lambda>_. w) = Ret (p, m', hp')" "or_insert N hp m en w = Ret (p, m', hp')"
        "value_at N Map.empty m' hp' T' p (fst ?e) (snd ?e)" "opt_map T' = (opt_map T)(key \<mapsto> ?e)"
      using or_insert_spec [OF m(1) en len', of "\<lambda>_. w"] by auto
    have "snd ?e < n" using w values_belowD [OF m(2), of key "fst (the (opt_map T key))" "snd (the (opt_map T key))"]
      by (cases "opt_map T key") auto
    then have "values_below n (opt_map T')" using m(2) 1(4) by (cases ?e) simp
    then show ?thesis using 1(1,2) fuzz_invI [OF value_at_read(3) [OF 1(3)]] by simp
  qed
  have put: "\<exists>oe m' hp'. entry_insert_entry N hp m en v = Ret (oe, m', hp') \<and> fuzz_inv N (m', n, hp')"
  proof -
    obtain oe m' hp' T' k' where "entry_insert_entry N hp m en v = Ret (oe, m', hp')"
        "value_at N Map.empty m' hp' T' (oe_leaf_node_ptr oe) k' v" "opt_map T' = (opt_map T)(key \<mapsto> (k', v))"
      using entry_insert_entry_spec [OF m(1) en len', of v] by auto
    then show ?thesis using fuzz_invI [OF value_at_read(3)] m(2) v(1) by fastforce
  qed
  show ?thesis
  proof (cases "ea \<in> {AndModify, EntryKey, RemoveEntry}")
    case True
    from m(1) en len' show ?thesis
    proof (cases rule: try_entry_cases)
      case (present oe k0 w)
      have w: "u32_saturating_sub w 1 < n"
        using values_belowD [OF m(2), of key k0 w] present(3) le_less_trans [OF u32_saturating_sub_le [of w]] by simp
      obtain hp1 T1 where 1: "entry_and_modify hp (Occupied oe :: unit key entry) (\<lambda>v. u32_saturating_sub v 1) = Ret (Occupied oe, hp1)"
          "entry_at N Map.empty m hp1 T1 key oe" "opt_map T1 = (opt_map T)(key \<mapsto> (k0, u32_saturating_sub w 1))"
        using and_modify_spec [OF present(2,3), of "\<lambda>v. u32_saturating_sub v 1"] by auto
      obtain m2 hp2 T2 where 2: "occupied_remove_entry hp m oe = Ret ((k0, w), m2, hp2)" "map_state N Map.empty m2 hp2 T2"
          "opt_map T2 = (opt_map T)(key := None)"
        using occupied_remove_spec [OF present(2,3)] by auto
      have "fuzz_inv N (m, n, hp1)" "fuzz_inv N (m2, n, hp2)"
        using fuzz_invI [of N m hp1 T1 n] fuzz_invI [OF 2(2), of n] 1(2,3) 2(3) m(2) w by (simp_all add: entry_at_def)
      then show ?thesis
        using True 1(1) 2(1) fuzz_invI [OF m] occupied_reads(2) [OF present(2,3)] unfolding present(1)
        by (auto simp: entry_key_def)
    next
      case (absent ve)
      then show ?thesis using True fuzz_invI [OF m] by (auto simp: entry_and_modify_def entry_key_def)
    qed
  next
    case False
    then show ?thesis using put ins [OF v(1)] ins [OF v(2)] by (cases ea) (auto simp: or_insert_variants)
  qed
qed

lemma entry_ref_step_own: "entry_ref_step N v ea en s = entry_step N v ea (own boxed en) s"
proof -
  obtain m hp where s: "s = (m, hp)" by (cases s)
  have "ref_or_insert_with_key boxed N hp m en (\<lambda>_. v) = or_insert_with_key N hp m (own boxed en) (\<lambda>_. v)"
    using ref_or_insert_own(4) [of boxed N hp m en "\<lambda>_. v"] by (simp add: comp_def)
  moreover have "and_then (entry_and_modify hp (own boxed en) f) (\<lambda>(_, hp). Ret (m, hp))
      = and_then (entry_ref_and_modify hp en f) (\<lambda>(_, hp). Ret (m, hp))" for f
    by (simp add: and_then_assoc split_def flip: entry_ref_and_modify_own)
  moreover have "and_then (entry_ref_key as_bytes hp en) (\<lambda>_. Ret (m, hp)) = and_then (entry_key hp (own boxed en)) (\<lambda>_. Ret (m, hp))"
    by (cases en) (simp_all add: entry_ref_key_def entry_key_def occupied_ref_eq and_then_assoc)
  moreover have "(case en of Occupied e \<Rightarrow> and_then (occupied_ref_remove_entry hp m e) (\<lambda>(_, s). Ret s) | Vacant _ \<Rightarrow> Ret (m, hp))
      = (case own boxed en of Occupied e \<Rightarrow> and_then (occupied_remove_entry hp m e) (\<lambda>(_, s). Ret s) | Vacant _ \<Rightarrow> Ret (m, hp))"
    by (cases en) (simp_all add: occupied_ref_eq)
  ultimately show ?thesis by (cases ea) (simp_all add: s ref_or_insert_own)
qed

text \<open>The keys an action gives to the map, and how often it takes the next value.\<close>

fun new_keys :: "action \<Rightarrow> bytes list" where
  "new_keys (TryInsert key) = [key]"
| "new_keys (Extend keys) = keys"
| "new_keys (Entry ea key) = [key]"
| "new_keys (EntryRef ea key) = [key]"
| "new_keys _ = []"

definition fuzz_allowed :: "action \<Rightarrow> bool" where
  "fuzz_allowed a \<longleftrightarrow> (\<forall>key\<in>set (new_keys a). length key < 2 ^ 32)"

definition fuzz_next :: "nat \<Rightarrow> u32 \<Rightarrow> nat \<Rightarrow> fuzz_state outcome \<Rightarrow> bool" where
  "fuzz_next N n used r \<longleftrightarrow> (\<exists>m n' hp. r = Ret (m, n', hp) \<and> fuzz_inv N (m, n', hp) \<and> unat n' \<le> unat n + used)"

lemma fuzz_entry_next:
  assumes m: "map_state N Map.empty m hp T" "values_below n (opt_map T)" and n: "unat n + 1 < 2 ^ 32" and len: "length key < 2 ^ 32"
  shows "fuzz_next N n 1 (and_then (try_entry hp m (Key key ())) (\<lambda>r.
     case r of Inl _ \<Rightarrow> Ret (m, n, hp)
     | Inr en \<Rightarrow>
         and_then (checked_add_u32 n 1) (\<lambda>next_key.
         and_then (entry_step N n ea en (m, hp)) (\<lambda>(m, hp). Ret (m, next_key, hp)))))"
proof -
  obtain n' where n': "checked_add_u32 n 1 = Ret n'" "unat n' = unat n + 1" "n < n'" "n \<le> n'" "0 < n'"
    using next_key_above [OF n] by blast
  obtain r where r: "try_entry hp m (Key key ()) = Ret r"
    using try_entry_spec [OF m(1), of "Key key ()"] len by (auto split: if_splits)
  show ?thesis
  proof (cases r)
    case (Inl e)
    then show ?thesis using r fuzz_invI [OF m] by (simp add: fuzz_next_def)
  next
    case (Inr en)
    then show ?thesis
      using entry_step_spec [OF m(1) values_below_mono [OF m(2) n'(4)] _ len n'(3,5), of en ea] r n'(1,2)
      by (auto simp: fuzz_next_def)
  qed
qed

lemma fuzz_reads:
  assumes m: "map_state N Map.empty m hp T" "values_below n (opt_map T)"
    and r: "a \<in> {ContainsKey key, GetMinimum, GetMaximum, CheckLen, CheckIter, Hash, Fuzzy key, Prefix key}"
  shows "fuzz_next N n (length (new_keys a)) (fuzz_step h N a (m, n, hp))"
proof -
  have s: "fuzz_inv N (m, n, hp)" using m by (rule fuzz_invI)
  have below: "check_value n (Some e) = Ret ()" if "e \<in> set (opt_entries T)" for e
    using entry_below [OF m that] by (simp add: check_value_def split_def)
  show ?thesis
  proof (cases a)
    case (ContainsKey key)
    then show ?thesis using s by (simp add: contains_key_spec [OF m(1)] fuzz_next_def)
  next
    case GetMinimum
    have "check_value n (if opt_entries T = [] then None else Some (hd (opt_entries T))) = Ret ()"
      using below [of "hd (opt_entries T)"] by (cases "opt_entries T") (simp_all add: check_value_def)
    then show ?thesis using s GetMinimum by (simp add: first_key_value_spec [OF m(1)] fuzz_next_def)
  next
    case GetMaximum
    have "check_value n (if opt_entries T = [] then None else Some (last (opt_entries T))) = Ret ()"
      using below [of "last (opt_entries T)"] by (cases "opt_entries T" rule: rev_cases) (simp_all add: check_value_def)
    then show ?thesis using s GetMaximum by (simp add: last_key_value_spec [OF m(1)] fuzz_next_def)
  next
    case CheckLen
    moreover have "(is_empty m \<and> len_map m = 0) \<or> 0 < len_map m" by (auto simp: is_empty_def len_map_def)
    ultimately show ?thesis using s by (simp add: fuzz_next_def)
  next
    case CheckIter
    then show ?thesis using check_iter_spec [OF m] by (auto simp: fuzz_next_def)
  next
    case Hash
    then show ?thesis using check_hash_spec [OF m(1), of h] fuzz_invI [OF _ m(2)] by (auto simp: fuzz_next_def)
  next
    case (Fuzzy key)
    then show ?thesis using s fuzzy_collect [OF m(1), of key 3] by (simp add: fuzz_next_def)
  next
    case (Prefix key)
    then show ?thesis using s prefix_collect [OF m(1), of key] by (simp add: fuzz_next_def)
  qed (use r in simp_all)
qed

lemma fuzz_writes:
  assumes m: "map_state N Map.empty m hp T" "values_below n (opt_map T)"
    and r: "a \<in> {Clear, PopMinimum, PopMaximum, GetKey key, Remove key, TryInsert key, Extend keys, Clone,
      Entry ea key, EntryRef ea key}"
    and a: "fuzz_allowed a" "unat n + length (new_keys a) < 2 ^ 32"
  shows "fuzz_next N n (length (new_keys a)) (fuzz_step h N a (m, n, hp))"
proof -
  have s: "fuzz_inv N (m, n, hp)" using m by (rule fuzz_invI)
  have below: "check_value n (Some e) = Ret ()" if "e \<in> set (opt_entries T)" for e
    using entry_below [OF m that] by (simp add: check_value_def split_def)
  show ?thesis
  proof (cases a)
    case Clear
    then show ?thesis using clear_spec [OF m(1)] fuzz_invI by (fastforce simp: fuzz_next_def)
  next
    case PopMinimum
    then show ?thesis
      using pop_first_spec [OF m(1)] below [of "hd (opt_entries T)"] m s fuzz_invI
      by (cases "opt_entries T") (fastforce simp: fuzz_next_def check_value_def)+
  next
    case PopMaximum
    then show ?thesis
      using pop_last_spec [OF m(1)] below [of "last (opt_entries T)"] m s fuzz_invI
      by (cases "opt_entries T" rule: rev_cases) (fastforce simp: fuzz_next_def check_value_def)+
  next
    case (GetKey key)
    obtain hp' T' where 1: "modify_value hp m key (\<lambda>v. u32_saturating_sub v 1) = Ret (map_option snd (opt_map T key), hp')"
        "map_state N Map.empty m hp' T'"
        "opt_map T' = (case opt_map T key of None \<Rightarrow> opt_map T | Some (k, v) \<Rightarrow> (opt_map T)(key \<mapsto> (k, u32_saturating_sub v 1)))"
      using modify_value_spec [OF m(1)] by blast
    have "values_below n (opt_map T')"
      using m(2) values_belowD [OF m(2), of key] le_less_trans [OF u32_saturating_sub_le]
      unfolding 1(3) by (auto split: option.split)
    then show ?thesis using GetKey 1(1) fuzz_invI [OF 1(2)] by (simp add: fuzz_next_def)
  next
    case (Remove key)
    then show ?thesis
      using remove_entry_spec [OF m(1), of key] values_belowD [OF m(2), of key] m(2) s fuzz_invI
      by (cases "opt_map T key") (fastforce simp: remove_map_def fuzz_next_def)+
  next
    case (TryInsert key)
    obtain n' where n': "checked_add_u32 n 1 = Ret n'" "unat n' = unat n + 1" "n < n'" "n \<le> n'"
      using next_key_above [of n] a(2) TryInsert by auto
    then show ?thesis
      using try_insert_inv [OF m(1) values_below_mono [OF m(2) n'(4)] _ n'(3), of key] a(1) TryInsert
      by (auto simp: fuzz_next_def fuzz_allowed_def)
  next
    case (Extend keys)
    then show ?thesis using try_insert_all_spec [OF s, of keys] a by (auto simp: fuzz_next_def fuzz_allowed_def)
  next
    case Clone
    then show ?thesis using replace_by_clone_spec [OF m(1)] m(2) fuzz_invI by (fastforce simp: fuzz_next_def)
  next
    case (Entry ea key)
    then show ?thesis using fuzz_entry_next [OF m, of key ea] a by (simp add: fuzz_allowed_def Let_def)
  next
    case (EntryRef ea key)
    have "try_entry hp m (boxed key) = and_then (try_entry_ref id hp m key) (\<lambda>r. Ret (map_sum id (own boxed) r))"
      by (rule try_entry_own) simp
    then show ?thesis
      using fuzz_entry_next [OF m, of key ea] a EntryRef
      by (cases "try_entry_ref id hp m key") (auto simp: fuzz_allowed_def Let_def entry_ref_step_own split: sum.splits)
  qed (use r in simp_all)
qed

lemma fuzz_step_spec:
  assumes s: "fuzz_inv N (m, n, hp)" and a: "fuzz_allowed a" "unat n + length (new_keys a) < 2 ^ 32"
  shows "fuzz_next N n (length (new_keys a)) (fuzz_step h N a (m, n, hp))"
proof -
  obtain T where m: "map_state N Map.empty m hp T" "values_below n (opt_map T)" using s by (auto simp: fuzz_inv_def)
  consider (reads) key where "a \<in> {ContainsKey key, GetMinimum, GetMaximum, CheckLen, CheckIter, Hash, Fuzzy key, Prefix key}"
    | (writes) key keys ea where "a \<in> {Clear, PopMinimum, PopMaximum, GetKey key, Remove key, TryInsert key, Extend keys, Clone,
        Entry ea key, EntryRef ea key}"
    by (cases a) simp_all
  then show ?thesis by cases (rule fuzz_reads [OF m], assumption, rule fuzz_writes [OF m _ a], assumption)
qed

lemma fuzz_actions_spec:
  "fuzz_inv N (m, n, hp) \<Longrightarrow> \<forall>a\<in>set as. fuzz_allowed a \<Longrightarrow> unat n + length (concat (map new_keys as)) < 2 ^ 32 \<Longrightarrow>
    \<exists>m' n' hp'. fuzz_actions h N as (m, n, hp) = Ret (m', n', hp') \<and> fuzz_inv N (m', n', hp')"
proof (induction as arbitrary: m n hp)
  case (Cons a as)
  obtain m1 n1 hp1 where 1: "fuzz_step h N a (m, n, hp) = Ret (m1, n1, hp1)" "fuzz_inv N (m1, n1, hp1)"
      "unat n1 \<le> unat n + length (new_keys a)"
    using fuzz_step_spec [OF Cons.prems(1), of a h] Cons.prems(2,3) by (auto simp: fuzz_next_def)
  then show ?case using Cons.IH [OF 1(2)] Cons.prems(2,3) by auto
qed auto

section \<open>Property\<close>

text \<open>
  C3. The fuzz target of the map passes: whatever the actions, as long as their keys are
  shorter than \<open>2 ^ 32\<close> bytes and fewer than \<open>2 ^ 32\<close> values are given out, no assertion of the
  target fails, no call panics, diverges or is undefined behaviour, and after the map is dropped
  nothing is left allocated.
\<close>

theorem fuzz_target_passes:
  assumes "\<forall>a\<in>set actions. \<forall>key\<in>set (new_keys a). length key < 2 ^ 32"
    and "length (concat (map new_keys actions)) < 2 ^ 32"
  shows "\<exists>hp. fuzz_target h N actions = Ret hp \<and> cells hp = Map.empty"
proof -
  have "fuzz_inv N (with_prefix_len, 0, empty_heap)" using fuzz_invI [OF map_state_new, of 0] by simp
  then obtain m n hp T where "fuzz_actions h N actions (with_prefix_len, 0, empty_heap) = Ret (m, n, hp)"
      "map_state N Map.empty m hp T"
    using fuzz_actions_spec [of N with_prefix_len 0 empty_heap actions h] assms
    by (auto simp: fuzz_allowed_def fuzz_inv_def)
  then show ?thesis using clear_spec [of N Map.empty m hp T] by (auto simp: fuzz_target_def drop_map_def)
qed

theorem fuzz_target_passes_witness:
  "\<exists>hp. fuzz_target \<lparr>build_hasher = 0 :: nat, length_prefix = (+), hash_elt = (\<lambda>e h. unat (snd e) + 2 * h), finish = of_nat\<rparr> 16
      [Extend [[1, 2], [1], [1, 3]], CheckIter, Entry OrDefault [2], GetMinimum, Hash, EntryRef RemoveEntry [1, 2],
       Prefix [1], Clone, PopMaximum, CheckLen] = Ret hp \<and> cells hp = Map.empty"
  by (rule fuzz_target_passes) simp_all

end
