(* ===== verification/Word_Count.thy ===== *)
theory Word_Count
  imports Histories
begin

text \<open>
  The example \<open>src/examples/count_words.rs\<close>: counting the words of a text with a map, once with
  \<open>TreeMap\<close> and once with the \<open>BTreeMap\<close> of the standard library, which is a list of entries sorted
  by key here.  A word keeps the separator after it, so that the words but the last are no proper
  prefixes of one another; the lemmas say what that means for the insertions, which the example
  unwraps.  Reading the file and printing the result are not modelled.
\<close>

section \<open>The example\<close>

type_synonym u64 = "64 word"

definition checked_add_u64 :: "u64 \<Rightarrow> u64 \<Rightarrow> u64 outcome" where
  "checked_add_u64 a b = (if unat a + unat b < 2 ^ 64 then Ret (a + b) else Panic)"

definition SPLIT_BYTE :: byte where
  "SPLIT_BYTE = 32"

fun split_inclusive :: "('a \<Rightarrow> bool) \<Rightarrow> 'a list \<Rightarrow> 'a list list" where
  \<comment> \<open>\<open>slice::split_inclusive\<close>\<close>
  "split_inclusive sep [] = []"
| "split_inclusive sep (b # bs) =
     (if sep b then [b] # split_inclusive sep bs
      else case split_inclusive sep bs of [] \<Rightarrow> [[b]] | w # ws \<Rightarrow> (b # w) # ws)"

definition words_of :: "bytes \<Rightarrow> bytes list" where
  "words_of contents = split_inclusive (\<lambda>b. b = SPLIT_BYTE) contents"

record word_stats =
  num_unique :: u64
  first_word :: bytes
  first_word_count :: u64
  last_word :: bytes
  last_word_count :: u64

type_synonym word_heap = "(unit, u64) heap"

fun count_blart :: "nat \<Rightarrow> word_heap \<Rightarrow> treemap \<Rightarrow> bytes list \<Rightarrow> (treemap \<times> word_heap) outcome" where
  "count_blart N hp m [] = Ret (m, hp)"
| "count_blart N hp m (word # ws) =
     and_then (get_mut hp m word) (\<lambda>r.
     case r of
       Some value \<Rightarrow>
         and_then (read_leaf hp value) (\<lambda>l.
         and_then (checked_add_u64 (leaf_value l) 1) (\<lambda>c.
         and_then (write_value hp value c) (\<lambda>hp. count_blart N hp m ws)))
     | None \<Rightarrow>
         and_then (try_insert N hp m (Key word ()) 1) (\<lambda>(r, m, hp).
         case r of Inl _ \<Rightarrow> Panic | Inr _ \<Rightarrow> count_blart N hp m ws))"

definition count_words_blart :: "nat \<Rightarrow> bytes \<Rightarrow> (word_stats \<times> word_heap) outcome" where
  \<comment> \<open>with the heap after the map is dropped at the end\<close>
  "count_words_blart N contents =
     and_then (count_blart N empty_heap with_prefix_len (words_of contents)) (\<lambda>(m, hp).
     and_then (first_key_value hp m) (\<lambda>first.
     and_then (unwrap first) (\<lambda>(first_word, first_word_count).
     and_then (last_key_value hp m) (\<lambda>last.
     and_then (unwrap last) (\<lambda>(last_word, last_word_count).
     let stats = \<lparr>num_unique = of_nat (len_map m), first_word = as_bytes first_word, first_word_count = first_word_count,
       last_word = as_bytes last_word, last_word_count = last_word_count\<rparr> in
     and_then (clear hp m) (\<lambda>(_, hp). Ret (stats, hp)))))))"

fun count_std :: "(bytes \<times> u64) list \<Rightarrow> bytes list \<Rightarrow> (bytes \<times> u64) list outcome" where
  "count_std m [] = Ret m"
| "count_std m (word # ws) =
     (case map_of m word of
        Some n \<Rightarrow> and_then (checked_add_u64 n 1) (\<lambda>c. count_std (al_write word c m) ws)
      | None \<Rightarrow> count_std (al_write word 1 m) ws)"

definition count_words_std :: "bytes \<Rightarrow> word_stats outcome" where
  "count_words_std contents =
     and_then (count_std [] (words_of contents)) (\<lambda>m.
     and_then (unwrap (if m = [] then None else Some (hd m))) (\<lambda>(first_word, first_word_count).
     and_then (unwrap (if m = [] then None else Some (last m))) (\<lambda>(last_word, last_word_count).
     Ret \<lparr>num_unique = of_nat (length m), first_word = first_word, first_word_count = first_word_count,
       last_word = last_word, last_word_count = last_word_count\<rparr>)))"

section \<open>Words\<close>

lemma split_inclusive_Nil_iff [simp]: "split_inclusive sep bs = [] \<longleftrightarrow> bs = []"
  by (cases bs) (auto split: list.split)

lemma concat_split_inclusive [simp]: "concat (split_inclusive sep bs) = bs"
  by (induction bs) (auto split: list.split)

text \<open>All words but the last end at a separator, and have it nowhere else.\<close>

definition ended :: "('a \<Rightarrow> bool) \<Rightarrow> 'a list \<Rightarrow> bool" where
  "ended sep w \<longleftrightarrow> w \<noteq> [] \<and> sep (last w) \<and> (\<forall>b\<in>set (butlast w). \<not> sep b)"

lemma ended_Cons: "\<not> sep b \<Longrightarrow> ended sep w \<Longrightarrow> ended sep (b # w)"
  by (auto simp: ended_def)

lemma split_inclusive_words:
  "split_inclusive sep bs = ws \<Longrightarrow> (\<forall>w\<in>set (butlast ws). ended sep w)
    \<and> (ws \<noteq> [] \<longrightarrow> ended sep (last ws) \<or> last ws \<noteq> [] \<and> (\<forall>b\<in>set (last ws). \<not> sep b))"
proof (induction bs arbitrary: ws)
  case (Cons b bs)
  have IH: "(\<forall>w\<in>set (butlast (split_inclusive sep bs)). ended sep w)
    \<and> (split_inclusive sep bs \<noteq> [] \<longrightarrow> ended sep (last (split_inclusive sep bs))
      \<or> last (split_inclusive sep bs) \<noteq> [] \<and> (\<forall>b\<in>set (last (split_inclusive sep bs)). \<not> sep b))"
    by (rule Cons.IH) simp
  show ?case
  proof (cases "sep b")
    case True
    then show ?thesis using IH Cons.prems by (auto simp: ended_def split: if_splits)
  next
    case False
    show ?thesis
    proof (cases "split_inclusive sep bs")
      case Nil
      then show ?thesis using False Cons.prems by auto
    next
      case (Cons w ws')
      then have ws: "ws = (b # w) # ws'" using False Cons.prems by simp
      show ?thesis
        using IH ended_Cons [of sep b w, OF False] False by (cases "ws' = []") (auto simp: ws Cons)
    qed
  qed
qed simp

lemma ended_prefix: "ended sep w \<Longrightarrow> ended sep w' \<Longrightarrow> Sublist.prefix w w' \<Longrightarrow> w = w'"
proof -
  assume e: "ended sep w" "ended sep w'" and p: "Sublist.prefix w w'"
  then obtain zs where zs: "w' = w @ zs" by (auto simp: prefix_def)
  have "zs = []"
  proof (rule ccontr)
    assume "zs \<noteq> []"
    then have "set w \<subseteq> set (butlast w')" by (simp add: zs butlast_append)
    moreover have "last w \<in> set w" using e(1) by (simp add: ended_def)
    ultimately have "last w \<in> set (butlast w')" by blast
    then show False using e by (simp add: ended_def)
  qed
  then show ?thesis by (simp add: zs)
qed

definition cut_off :: "bytes \<Rightarrow> bool" where
  \<comment> \<open>the last word has no separator and is the beginning of an earlier one\<close>
  "cut_off contents \<longleftrightarrow> contents \<noteq> [] \<and> last contents \<noteq> SPLIT_BYTE
     \<and> (\<exists>w\<in>set (butlast (words_of contents)). Sublist.prefix (last (words_of contents)) w)"

lemma prefix_free_words: "prefix_free (set (words_of contents)) \<longleftrightarrow> \<not> cut_off contents"
proof (cases "contents = []")
  case False
  let ?sep = "\<lambda>b. b = SPLIT_BYTE" and ?ws = "words_of contents"
  have ne: "?ws \<noteq> []" using False by (simp add: words_of_def)
  have w: "\<forall>w\<in>set (butlast ?ws). ended ?sep w" "ended ?sep (last ?ws) \<or> last ?ws \<noteq> [] \<and> (\<forall>b\<in>set (last ?ws). b \<noteq> SPLIT_BYTE)"
    using split_inclusive_words [of ?sep contents ?ws] ne by (auto simp: words_of_def)
  have all: "set ?ws = insert (last ?ws) (set (butlast ?ws))"
    using ne by (metis append_butlast_last_id insert_is_Un list.simps(15) rotate1.simps(2) set_rotate1)
  have "last contents = last (last ?ws)"
  proof -
    have "contents = concat (butlast ?ws) @ last ?ws"
      using concat_split_inclusive [of ?sep contents] append_butlast_last_id [OF ne]
      by (metis concat.simps concat_append self_append_conv words_of_def)
    moreover have "last ?ws \<noteq> []" using w(2) by (auto simp: ended_def)
    ultimately show ?thesis by (metis last_appendR)
  qed
  then have last: "last contents \<noteq> SPLIT_BYTE \<longleftrightarrow> \<not> ended ?sep (last ?ws)"
    using w(2) by (auto simp: ended_def)
  have inner: "\<not> conflicts w w'" if "ended ?sep w" "ended ?sep w'" for w w'
    using ended_prefix [OF that] ended_prefix [OF that(2,1)] by (auto simp: conflicts_def)
  show ?thesis
  proof (cases "ended ?sep (last ?ws)")
    case True
    then have "\<forall>w\<in>set ?ws. ended ?sep w" using w(1) all by auto
    then show ?thesis using inner last True unfolding prefix_free_def cut_off_def by blast
  next
    case False
    have "conflicts w (last ?ws) \<longleftrightarrow> Sublist.prefix (last ?ws) w" "conflicts (last ?ws) w \<longleftrightarrow> Sublist.prefix (last ?ws) w"
      if u: "w \<in> set (butlast ?ws)" for w
    proof -
      have "\<not> Sublist.prefix w (last ?ws)" using w u False by (fastforce simp: ended_def prefix_def)
      moreover have "w \<noteq> last ?ws" using w(1) u False by auto
      ultimately show "conflicts w (last ?ws) \<longleftrightarrow> Sublist.prefix (last ?ws) w" "conflicts (last ?ws) w \<longleftrightarrow> Sublist.prefix (last ?ws) w"
        by (auto simp: conflicts_def)
    qed
    then show ?thesis
      using False last inner w(1) \<open>contents \<noteq> []\<close> unfolding prefix_free_def cut_off_def all
      by (auto simp: conflicts_def [of "last ?ws" "last ?ws"])
  qed
qed (simp add: prefix_free_def cut_off_def words_of_def)

section \<open>The two loops\<close>

definition cnt :: "(bytes \<times> u64) list \<Rightarrow> bytes \<Rightarrow> nat" where
  "cnt xs w = (case map_of xs w of None \<Rightarrow> 0 | Some c \<Rightarrow> unat c)"

lemma cnt_write [simp]: "sorted_keys xs \<Longrightarrow> cnt (al_write w c xs) w' = (if w' = w then unat c else cnt xs w')"
  by (simp add: cnt_def map_of_al_write)

lemma keys_write: "sorted_keys xs \<Longrightarrow> fst ` set (al_write w c xs) = insert w (fst ` set xs)"
  by (force simp: set_al_write)

lemma next_count:
  assumes "unat c + Suc n < 2 ^ 64"
  shows "checked_add_u64 c 1 = Ret (c + 1)" "unat (c + 1) = unat c + 1"
proof -
  show "unat (c + 1) = unat c + 1" using assms by (simp add: unat_word_ariths)
  show "checked_add_u64 c 1 = Ret (c + 1)" using assms by (simp add: checked_add_u64_def)
qed

lemma count_std_spec:
  "sorted_keys xs \<Longrightarrow> \<forall>w. cnt xs w + length ws < 2 ^ 64 \<Longrightarrow>
    \<exists>xs'. count_std xs ws = Ret xs' \<and> sorted_keys xs' \<and> fst ` set xs' = fst ` set xs \<union> set ws
      \<and> (\<forall>w. cnt xs' w = cnt xs w + count_list ws w)"
proof (induction ws arbitrary: xs)
  case (Cons word ws)
  define c where "c = (case map_of xs word of None \<Rightarrow> 1 | Some c \<Rightarrow> c + 1)"
  have c: "count_std xs (word # ws) = count_std (al_write word c xs) ws" "unat c = cnt xs word + 1"
    using Cons.prems(2) [rule_format, of word] next_count [of "the (map_of xs word)" "length ws"]
    by (auto simp: c_def cnt_def split: option.splits)
  have "\<forall>w. cnt (al_write word c xs) w + length ws < 2 ^ 64"
  proof
    fix w
    show "cnt (al_write word c xs) w + length ws < 2 ^ 64"
      using Cons.prems(2) [rule_format, of w] Cons.prems(1) c(2) by (cases "w = word") simp_all
  qed
  then obtain xs' where "count_std (al_write word c xs) ws = Ret xs'" "sorted_keys xs'"
      "fst ` set xs' = fst ` set (al_write word c xs) \<union> set ws" "\<forall>w. cnt xs' w = cnt (al_write word c xs) w + count_list ws w"
    using Cons.IH [OF sorted_al_write [OF Cons.prems(1)]] by blast
  then show ?case using c Cons.prems(1) keys_write [OF Cons.prems(1)] by auto
qed simp

definition counts :: "(unit, u64) art option \<Rightarrow> (bytes \<times> u64) list \<Rightarrow> bool" where
  "counts T xs \<longleftrightarrow> opt_entries T = map (\<lambda>(w, c). (Key w (), c)) xs"

lemma counts_map:
  assumes m: "map_state N fr m hp T" and T: "counts T xs"
  shows "sorted_keys xs" "opt_map T w = map_option (Pair (Key w ())) (map_of xs w)"
    "blocked (opt_map T) k \<longleftrightarrow> (\<exists>w\<in>fst ` set xs. conflicts (as_bytes k) w)"
proof -
  show s: "sorted_keys xs" using opt_entries_sorted [OF m] T by (simp add: counts_def split_def comp_def)
  show "opt_map T w = map_option (Pair (Key w ())) (map_of xs w)"
  proof (cases "map_of xs w")
    case None
    then have "w \<notin> fst ` set xs" by (simp add: map_of_eq_None_iff)
    then show ?thesis using None opt_keys [OF m] T by (force simp: counts_def domIff)
  next
    case (Some c)
    then have "(Key w (), c) \<in> set (opt_entries T)" using T map_of_SomeD [OF Some] by (force simp: counts_def)
    then show ?thesis using Some opt_map_entries [OF m, of w] by simp
  qed
  show "blocked (opt_map T) k \<longleftrightarrow> (\<exists>w\<in>fst ` set xs. conflicts (as_bytes k) w)"
    using blocked_entries [OF m] T by (auto simp: counts_def split_def)
qed

lemma counts_write:
  assumes T: "map_state N fr m hp T" "counts T xs" and T': "map_state N fr' m' hp' T'" "opt_map T' = (opt_map T)(w \<mapsto> (Key w (), c))"
  shows "counts T' (al_write w c xs)"
  unfolding counts_def
proof (rule opt_entries_unique [OF T'(1)])
  note s = counts_map(1) [OF T]
  show "sorted_keys (map (\<lambda>e. (as_bytes (fst e), e)) (map (\<lambda>(w, c). (Key w (), c)) (al_write w c xs)))"
    using sorted_al_write [OF s, of w c] by (simp add: comp_def split_def)
  show "opt_map T' kb = Some e \<longleftrightarrow> e \<in> set (map (\<lambda>(w, c). (Key w (), c)) (al_write w c xs)) \<and> as_bytes (fst e) = kb" for kb e
    using map_of_eq_Some_iff_mem [OF sorted_al_write [OF s, of w c], of kb "snd e"] map_of_al_write [OF s, of w c] counts_map(2) [OF T, of kb]
    unfolding T'(2) by (cases e; cases "fst e") (force split: if_splits)
qed

lemma conflicts_commute: "conflicts a b \<longleftrightarrow> conflicts b a"
  by (auto simp: conflicts_def)

lemma count_blart_spec:
  assumes "map_state N fr m hp T" "counts T xs" "\<forall>w\<in>set ws. length w < 2 ^ 32" "\<forall>w. cnt xs w + length ws < 2 ^ 64"
    "prefix_free (fst ` set xs)" "count_std xs ws = Ret xs'"
  shows "if prefix_free (fst ` set xs \<union> set ws)
    then \<exists>m' hp' T'. count_blart N hp m ws = Ret (m', hp') \<and> map_state N fr m' hp' T' \<and> counts T' xs'
    else count_blart N hp m ws = Panic"
  using assms
proof (induction ws arbitrary: m hp T xs)
  case (Cons word ws)
  note m = Cons.prems(1,2)
  note s = counts_map(1) [OF m]
  have IH: "if prefix_free (insert word (fst ` set xs) \<union> set ws)
      then \<exists>m2 hp2 T2. count_blart N hp' m' ws = Ret (m2, hp2) \<and> map_state N fr m2 hp2 T2 \<and> counts T2 xs'
      else count_blart N hp' m' ws = Panic"
    if step: "map_state N fr m' hp' T'" "opt_map T' = (opt_map T)(word \<mapsto> (Key word (), c))"
      "unat c = cnt xs word + 1" "count_std (al_write word c xs) ws = Ret xs'" "prefix_free (insert word (fst ` set xs))"
    for m' hp' T' c
  proof -
    have "\<forall>w. cnt (al_write word c xs) w + length ws < 2 ^ 64"
    proof
      fix w
      show "cnt (al_write word c xs) w + length ws < 2 ^ 64"
        using Cons.prems(4) [rule_format, of w] s step(3) by (cases "w = word") simp_all
    qed
    then show ?thesis
      using Cons.IH [OF step(1) counts_write [OF m step(1,2)]] Cons.prems(3) step(4,5) by (simp add: keys_write [OF s])
  qed
  show ?case
  proof (cases "map_of xs word")
    case (Some c)
    then have o: "opt_map T word = Some (Key word (), c)" by (simp add: counts_map(2) [OF m])
    have mem: "insert word (fst ` set xs) = fst ` set xs" using map_of_SomeD [OF Some] by force
    have c: "checked_add_u64 c 1 = Ret (c + 1)" "unat (c + 1) = cnt xs word + 1"
      using next_count [of c "length ws"] Cons.prems(4) [rule_format, of word] by (simp_all add: cnt_def Some)
    obtain p where p: "get_mut hp m word = Ret (Some p)" "value_at N fr m hp T p (Key word ()) c"
      using get_mut_spec [OF m(1), of word] o by auto
    obtain hp' T' where w: "write_value hp p (c + 1) = Ret hp'" "map_state N fr m hp' T'"
        "opt_map T' = (opt_map T)(word \<mapsto> (Key word (), c + 1))"
      using value_at_write [OF p(2), of "c + 1"] by (auto simp: value_at_def)
    have "count_blart N hp m (word # ws) = count_blart N hp' m ws"
      using p(1) value_at_read(1) [OF p(2)] c(1) w(1) by simp
    moreover have "count_std (al_write word (c + 1) xs) ws = Ret xs'" using Cons.prems(6) c(1) Some by simp
    moreover have "fst ` set xs \<union> set (word # ws) = insert word (fst ` set xs) \<union> set ws" by auto
    ultimately show ?thesis using IH [OF w(2,3) c(2)] Cons.prems(5) unfolding mem by presburger
  next
    case None
    then have o: "opt_map T word = None" by (simp add: counts_map(2) [OF m])
    then have g: "get_mut hp m word = Ret None" using get_mut_spec [OF m(1), of word] by simp
    note ins = try_insert_spec [OF m(1), of "Key word ()" 1, folded blocked_entries [OF m(1), of "Key word ()"], unfolded counts_map(3) [OF m]]
    show ?thesis
    proof (cases "\<exists>w\<in>fst ` set xs. conflicts word w")
      case True
      then have "\<not> prefix_free (fst ` set xs \<union> set (word # ws))" by (auto simp: prefix_free_def)
      then show ?thesis using ins True g Cons.prems(3) by simp
    next
      case False
      then obtain m' hp' T' where i: "try_insert N hp m (Key word ()) 1 = Ret (Inr None, m', hp')" "map_state N fr m' hp' T'"
          "opt_map T' = (opt_map T)(word \<mapsto> (Key word (), 1))"
        using ins Cons.prems(3) o by auto
      have "prefix_free (insert word (fst ` set xs))"
        using Cons.prems(5) False conflicts_commute unfolding prefix_free_def by (auto simp: conflicts_def [of word word])
      moreover have "count_std (al_write word 1 xs) ws = Ret xs'" using Cons.prems(6) None by simp
      moreover have "count_blart N hp m (word # ws) = count_blart N hp' m' ws" using g i(1) by simp
      moreover have "fst ` set xs \<union> set (word # ws) = insert word (fst ` set xs) \<union> set ws" by auto
      ultimately show ?thesis using IH [OF i(2,3)] None by (simp only: cnt_def) simp
    qed
  qed
qed auto

section \<open>Property\<close>

lemma ends_of_counts:
  assumes "sorted_keys xs" "xs \<noteq> []"
  shows "fst (hd xs) = Min (fst ` set xs)" "unat (snd (hd xs)) = cnt xs (fst (hd xs))"
    "fst (last xs) = Max (fst ` set xs)" "unat (snd (last xs)) = cnt xs (fst (last xs))"
    "length xs = card (fst ` set xs)"
proof -
  have mem: "hd xs \<in> set xs" "last xs \<in> set xs" using assms(2) by simp_all
  obtain x ys where hd: "xs = x # ys" using assms(2) by (cases xs) auto
  obtain zs z where last: "xs = zs @ [z]" using assms(2) by (cases xs rule: rev_cases) auto
  show "fst (hd xs) = Min (fst ` set xs)"
    using assms(1) hd by (intro Min_eqI [symmetric]) (auto simp: less_imp_le)
  show "fst (last xs) = Max (fst ` set xs)"
    using assms(1) last by (intro Max_eqI [symmetric]) (auto simp: sorted_wrt_append less_imp_le)
  show "unat (snd (hd xs)) = cnt xs (fst (hd xs))" "unat (snd (last xs)) = cnt xs (fst (last xs))"
    using map_of_SomeI [OF assms(1), of "fst (hd xs)" "snd (hd xs)"] map_of_SomeI [OF assms(1), of "fst (last xs)" "snd (last xs)"] mem
    by (simp_all add: cnt_def)
  show "length xs = card (fst ` set xs)"
    using distinct_card [OF sorted_keys_distinct [OF assms(1)]] by simp
qed

definition stats_of :: "(bytes \<times> u64) list \<Rightarrow> word_stats" where
  "stats_of xs = \<lparr>num_unique = of_nat (length xs), first_word = fst (hd xs), first_word_count = snd (hd xs),
     last_word = fst (last xs), last_word_count = snd (last xs)\<rparr>"

lemma stats_of_simps:
  "first_word (stats_of xs) = fst (hd xs)" "first_word_count (stats_of xs) = snd (hd xs)"
  "last_word (stats_of xs) = fst (last xs)" "last_word_count (stats_of xs) = snd (last xs)"
  by (simp_all add: stats_of_def)

lemma count_words_std_stats:
  "count_std [] (words_of contents) = Ret xs \<Longrightarrow> xs \<noteq> [] \<Longrightarrow> count_words_std contents = Ret (stats_of xs)"
  by (simp add: count_words_std_def stats_of_def split_def)

lemma count_words_blart_stats:
  assumes c: "count_blart N empty_heap with_prefix_len (words_of contents) = Ret (m, hp)"
    and m: "map_state N Map.empty m hp T" "counts T xs" "xs \<noteq> []"
  shows "\<exists>hp'. count_words_blart N contents = Ret (stats_of xs, hp') \<and> cells hp' = Map.empty"
proof -
  obtain m' hp' where "clear hp m = Ret (m', hp')" "cells hp' = Map.empty" using clear_spec [OF m(1)] by blast
  moreover have "len_map m = length xs" using m(1,2) by (simp add: map_state_def counts_def len_map_def)
  moreover have "opt_entries T \<noteq> []" "hd (opt_entries T) = (Key (fst (hd xs)) (), snd (hd xs))"
    "last (opt_entries T) = (Key (fst (last xs)) (), snd (last xs))"
    using m(2,3) by (simp_all add: counts_def hd_map last_map split_def)
  ultimately show ?thesis
    using c by (simp add: count_words_blart_def first_key_value_spec [OF m(1)] last_key_value_spec [OF m(1)] stats_of_def)
qed

lemma length_split_inclusive: "length (split_inclusive sep bs) \<le> length bs"
  by (induction bs) (auto split: list.split)

text \<open>
  C18. The two programs that count words: on a text of less than \<open>2 ^ 32\<close> bytes, \<open>count_words_blart\<close>
  returns what \<open>count_words_std\<close> returns, the number of different words, the first and the last of
  them in the order of bytes, and how often they occur, and frees its map; it panics, though, on
  the unwrap of an insertion when the last word has no separator after it and an earlier word
  begins with it, where \<open>count_words_std\<close> returns.  Both panic on an empty text.
\<close>

theorem count_words:
  assumes "length contents < 2 ^ 32"
  defines "ws \<equiv> words_of contents"
  shows "if contents = [] then count_words_blart N contents = Panic \<and> count_words_std contents = Panic
    else \<exists>s. count_words_std contents = Ret s
      \<and> (if cut_off contents then count_words_blart N contents = Panic
         else \<exists>hp. count_words_blart N contents = Ret (s, hp) \<and> cells hp = Map.empty)
      \<and> unat (num_unique s) = card (set ws)
      \<and> first_word s = Min (set ws) \<and> unat (first_word_count s) = count_list ws (Min (set ws))
      \<and> last_word s = Max (set ws) \<and> unat (last_word_count s) = count_list ws (Max (set ws))"
proof (cases "contents = []")
  case True
  then show ?thesis
    by (simp add: ws_def words_of_def count_words_blart_def count_words_std_def first_key_value_def with_prefix_len_def)
next
  case False
  have cat: "concat ws = contents" by (simp add: ws_def words_of_def)
  have len: "length w < 2 ^ 32" if "w \<in> set ws" for w
  proof -
    have "length w \<le> length (concat ws)" using that by (simp add: length_concat member_le_sum_list)
    then show ?thesis using assms(1) by (simp add: cat)
  qed
  have "length ws < 2 ^ 32" using length_split_inclusive assms(1) unfolding ws_def words_of_def by (rule le_less_trans)
  then obtain xs where xs: "count_std [] ws = Ret xs" "sorted_keys xs" "fst ` set xs = set ws" "\<forall>w. cnt xs w = count_list ws w"
    using count_std_spec [of "[]" ws] by (auto simp: cnt_def)
  have ne: "xs \<noteq> []" using xs(3) False by (auto simp: ws_def words_of_def)
  have pf: "prefix_free (set ws) \<longleftrightarrow> \<not> cut_off contents" unfolding ws_def by (rule prefix_free_words)
  note ends = ends_of_counts [OF xs(2) ne, unfolded xs(3) xs(4) [rule_format]]
  have blart: "if cut_off contents then count_words_blart N contents = Panic
      else \<exists>hp. count_words_blart N contents = Ret (stats_of xs, hp) \<and> cells hp = Map.empty"
  proof (cases "cut_off contents")
    case True
    then have "count_blart N empty_heap with_prefix_len ws = Panic"
      using count_blart_spec [OF map_state_new, of "[]" ws xs N] xs(1) len \<open>length ws < 2 ^ 32\<close>
      by (simp add: counts_def cnt_def pf prefix_free_def [of "{}"])
    then show ?thesis using True by (simp add: count_words_blart_def ws_def)
  next
    case False
    then obtain m hp T where "count_blart N empty_heap with_prefix_len ws = Ret (m, hp)" "map_state N Map.empty m hp T" "counts T xs"
      using count_blart_spec [OF map_state_new, of "[]" ws xs N] xs(1) len \<open>length ws < 2 ^ 32\<close>
      by (auto simp: counts_def cnt_def pf prefix_free_def [of "{}"])
    then show ?thesis using count_words_blart_stats [of N contents m hp T xs] ne False by (simp add: ws_def)
  qed
  have "unat (num_unique (stats_of xs)) = card (set ws)"
  proof -
    have "card (set ws) < 2 ^ 64" using card_length [of ws] \<open>length ws < 2 ^ 32\<close> by simp
    then show ?thesis by (simp add: stats_of_def ends(5) unat_of_nat)
  qed
  then show ?thesis
    using False blart ends count_words_std_stats [of contents xs] xs(1) ne unfolding ws_def
    by (simp add: stats_of_simps)
qed

theorem count_words_witness:
  "(\<exists>s hp. count_words_blart 16 [98, 32, 97, 97, 32, 98, 32, 99] = Ret (s, hp) \<and> unat (num_unique s) = 3
      \<and> unat (first_word_count s) = 1 \<and> last_word s = [99])
    \<and> count_words_blart 16 [97, 32, 97] = Panic"
  using count_words [of "[98, 32, 97, 97, 32, 98, 32, 99]" 16] count_words [of "[97, 32, 97]" 16]
  by (auto simp: words_of_def SPLIT_BYTE_def cut_off_def card_insert_if)

end
