(* ===== verification/Key_Generators.thy ===== *)
theory Key_Generators
  imports Double_Ended
begin

text \<open>
  The generators of the tests and benchmarks (\<open>src/src/tests_common.rs\<close>), a public module of the
  library: skewed keys of increasing length, keys of a fixed length, the expansion of their
  digits to long common prefixes, and the tree made from a list of entries.

  The generators are iterators and satisfy the contract \<open>forward_iterator\<close>.  The lemmas say
  which keys they yield, in strictly increasing order for the keys of a fixed length, and that
  no generated key is a proper prefix of another.  The number of keys is not the documented
  one: a width of \<open>w\<close> does not give \<open>w + 1\<close> digits unless the step between the digits is exact.
\<close>

section \<open>Skewed keys\<close>

definition skewed_key :: "nat \<Rightarrow> bytes" where
  "skewed_key n = replicate n 0 @ [255]"

definition skewed_successor :: "nat \<Rightarrow> bytes \<Rightarrow> bytes option" where
  "skewed_successor max_len prev =
     (if length prev < max_len then Some (replicate (length prev) 0 @ [255]) else None)"

definition generate_keys_skewed :: "nat \<Rightarrow> bytes option outcome" where
  \<comment> \<open>the state of the iterator \<open>successors\<close> is the next key\<close>
  "generate_keys_skewed max_len = (if 0 < max_len then Ret (Some [255]) else Panic)"

definition skewed_next :: "nat \<Rightarrow> (bytes option, bytes) step" where
  "skewed_next max_len s =
     (case s of None \<Rightarrow> Ret (None, None) | Some key \<Rightarrow> Ret (Some key, skewed_successor max_len key))"

definition skewed_left :: "nat \<Rightarrow> bytes option \<Rightarrow> bytes list \<Rightarrow> bool" where
  "skewed_left max_len s xs \<longleftrightarrow>
     (\<exists>n\<le>max_len. s = (if n < max_len then Some (skewed_key n) else None) \<and> xs = map skewed_key [n..<max_len])"

interpretation skewed: forward_iterator "skewed_next max_len" "skewed_left max_len" for max_len
proof
  fix s xs assume "skewed_left max_len s xs"
  then obtain n where n: "n \<le> max_len" "s = (if n < max_len then Some (skewed_key n) else None)"
    "xs = map skewed_key [n..<max_len]"
    by (auto simp: skewed_left_def)
  show "\<exists>item s' xs'. skewed_next max_len s = Ret (item, s') \<and> skewed_left max_len s' xs'
      \<and> (case item of None \<Rightarrow> xs = [] \<and> xs' = [] | Some x \<Rightarrow> xs = x # xs')"
  proof (cases "n < max_len")
    case True
    then have "skewed_left max_len (skewed_successor max_len (skewed_key n)) (map skewed_key [Suc n..<max_len])"
      by (auto simp: skewed_left_def skewed_successor_def skewed_key_def intro!: exI [of _ "Suc n"])
    then show ?thesis using True by (auto simp: n(2,3) skewed_next_def upt_conv_Cons)
  next
    case False
    then show ?thesis using n(1) by (auto simp: n(2,3) skewed_next_def skewed_left_def)
  qed
qed

lemma skewed_keys:
  assumes "0 < max_len"
  shows "and_then (generate_keys_skewed max_len) (collect (skewed_next max_len) (Suc max_len))
    = Ret (map skewed_key [0..<max_len])"
proof -
  have "skewed_left max_len (Some [255]) (map skewed_key [0..<max_len])"
    using assms by (auto simp: skewed_left_def skewed_key_def intro!: exI [of _ 0])
  from skewed.collect_spec [OF this, of "Suc max_len"] show ?thesis
    using assms by (simp add: generate_keys_skewed_def)
qed

lemma skewed_prefix_free: "prefix_free (skewed_key ` UNIV)"
proof -
  have "m = n" if pfx: "Sublist.prefix (skewed_key m) (skewed_key n)" for m n
  proof -
    obtain r where r: "replicate n 0 @ [255] = (replicate m 0 @ [255 :: byte]) @ r"
      using pfx unfolding prefix_def skewed_key_def by blast
    have "\<not> n < m"
    proof
      assume "n < m"
      then have "(replicate n 0 @ [255 :: byte]) ! n \<noteq> ((replicate m 0 @ [255]) @ r) ! n"
        by (simp add: nth_append)
      with r show False by simp
    qed
    moreover have "\<not> m < n"
    proof
      assume "m < n"
      then have "(replicate n 0 @ [255 :: byte]) ! m \<noteq> ((replicate m 0 @ [255]) @ r) ! m"
        by (simp add: nth_append)
      with r show False by simp
    qed
    ultimately show ?thesis by simp
  qed
  then show ?thesis by (auto simp: prefix_free_def conflicts_def)
qed

section \<open>Keys of a fixed length\<close>

definition div_ceil :: "nat \<Rightarrow> nat \<Rightarrow> nat" where
  "div_ceil lhs rhs = (let d = lhs div rhs; r = lhs mod rhs in if 0 < r \<and> 0 < rhs then d + 1 else d)"

definition saturating_add_u8 :: "byte \<Rightarrow> byte \<Rightarrow> byte" where
  "saturating_add_u8 a b = (if unat a + unat b < 256 then a + b else 255)"

record fixed_length_keys =
  increments :: bytes
  next_value :: "bytes option"

definition fixed_length_keys_new :: "bytes \<Rightarrow> fixed_length_keys outcome" where
  "fixed_length_keys_new level_widths =
     (if 0 < length level_widths \<and> list_all (\<lambda>value_stops. 0 < value_stops) level_widths
      then Ret \<lparr>increments = map (\<lambda>value_stops. of_nat (div_ceil 255 (unat value_stops))) level_widths,
        next_value = Some (replicate (length level_widths) 0)\<rparr>
      else Panic)"

fun increment_from :: "bytes \<Rightarrow> nat \<Rightarrow> bytes \<Rightarrow> bytes" where
  \<comment> \<open>the loop of \<open>next\<close> over the digits before \<open>idx\<close>, from the last one\<close>
  "increment_from incs 0 key = key"
| "increment_from incs (Suc idx) key =
     (if key ! idx = 255 then increment_from incs idx (key[idx := 0])
      else key[idx := saturating_add_u8 (key ! idx) (incs ! idx)])"

definition fixed_next :: "(fixed_length_keys, bytes) step" where
  "fixed_next s =
     (case next_value s of
        None \<Rightarrow> Ret (None, s)
      | Some key \<Rightarrow>
          let s = s\<lparr>next_value := None\<rparr> in
          if list_all (\<lambda>digit. digit = 255) key then Ret (Some key, s)
          else Ret (Some key, s\<lparr>next_value := Some (increment_from (increments s) (length key) key)\<rparr>))"

text \<open>The digits at a level with the given increment, and all keys.\<close>

definition digits :: "byte \<Rightarrow> bytes" where
  "digits i = map (\<lambda>k. of_nat (min 255 (k * unat i))) [0..<Suc (div_ceil 255 (unat i))]"

fun fixed_keys :: "bytes \<Rightarrow> bytes list" where
  "fixed_keys [] = [[]]"
| "fixed_keys (i # incs) = concat (map (\<lambda>d. map ((#) d) (fixed_keys incs)) (digits i))"

lemma div_ceil_bounds:
  assumes "0 < i"
  shows "255 \<le> div_ceil 255 i * i" "k < div_ceil 255 i \<Longrightarrow> k * i < 255"
proof -
  have eq: "255 = 255 div i * i + 255 mod i" by simp
  show "255 \<le> div_ceil 255 i * i"
  proof (cases "255 mod i = 0")
    case True
    then show ?thesis using eq by (simp add: div_ceil_def)
  next
    case False
    then have "div_ceil 255 i * i = 255 div i * i + i" using assms by (simp add: div_ceil_def)
    then show ?thesis using eq mod_less_divisor [OF assms, of 255] by linarith
  qed
  assume k: "k < div_ceil 255 i"
  show "k * i < 255"
  proof (cases "255 mod i = 0")
    case True
    then have "k * i < 255 div i * i" using k assms mult_less_mono1 [of k "255 div i" i] by (simp add: div_ceil_def)
    then show ?thesis using eq True by linarith
  next
    case False
    then have "k \<le> 255 div i" using k assms by (simp add: div_ceil_def Let_def split: if_splits)
    then have "k * i \<le> 255 div i * i" by simp
    then show ?thesis using eq False by linarith
  qed
qed

lemma digit_value: "unat (of_nat (min 255 n) :: byte) = min 255 n"
  by (simp add: unsigned_of_nat take_bit_nat_eq_self)

lemma digits_chain:
  assumes "0 < i"
  shows "successively (\<lambda>d e. d \<noteq> 255 \<and> d < e \<and> e = saturating_add_u8 d i) (digits i)"
    and "digits i \<noteq> []" "hd (digits i) = 0" "last (digits i) = 255"
proof -
  have i: "0 < unat i" using assms by (simp add: unat_gt_0)
  show "successively (\<lambda>d e. d \<noteq> 255 \<and> d < e \<and> e = saturating_add_u8 d i) (digits i)"
    unfolding successively_conv_nth
  proof (intro allI impI)
    fix k assume "Suc k < length (digits i)"
    then have k: "k < div_ceil 255 (unat i)" by (simp add: digits_def)
    let ?d = "digits i ! k" and ?e = "digits i ! Suc k"
    have d: "?d = of_nat (min 255 (k * unat i))" "?e = of_nat (min 255 (Suc k * unat i))"
      using k by (simp_all add: digits_def del: upt_Suc mult_Suc)
    have less: "k * unat i < 255" by (rule div_ceil_bounds(2) [OF i k])
    then have u: "unat ?d = k * unat i" "unat ?e = min 255 (k * unat i + unat i)"
      using digit_value [of "k * unat i"] digit_value [of "Suc k * unat i"] by (simp_all add: d add.commute)
    have "?d \<noteq> 255" using u(1) less by auto
    moreover have "?d < ?e" using u less i by (simp add: word_less_nat_alt)
    moreover have "?e = saturating_add_u8 ?d i"
    proof (cases "k * unat i + unat i < 256")
      case True
      then show ?thesis
        using u by (intro word_unat_eq_iff [THEN iffD2]) (simp add: saturating_add_u8_def unat_add_lem [THEN iffD1])
    next
      case False
      then show ?thesis
        using u by (intro word_unat_eq_iff [THEN iffD2]) (simp add: saturating_add_u8_def)
    qed
    ultimately show "?d \<noteq> 255 \<and> ?d < ?e \<and> ?e = saturating_add_u8 ?d i" by simp
  qed
  show "digits i \<noteq> []" by (simp add: digits_def)
  show "hd (digits i) = 0" by (simp add: digits_def hd_map del: upt_Suc)
  show "last (digits i) = 255" using div_ceil_bounds(1) [OF i] by (simp add: digits_def min_def)
qed

lemma increment_from_Cons:
  "n \<le> length ds \<Longrightarrow> increment_from (i # incs) (Suc n) (d # ds) =
    (if \<forall>j<n. ds ! j = 255
     then (if d = 255 then 0 else saturating_add_u8 d i) # replicate n 0 @ drop n ds
     else d # increment_from incs n ds)"
proof (induction n arbitrary: ds)
  case (Suc n)
  have drop: "drop n (ds[n := 0]) = 0 # drop (Suc n) ds"
    using Suc.prems by (simp add: Cons_nth_drop_Suc [symmetric])
  show ?case
    using Suc.IH [of "ds[n := 0]"] Suc.prems
    by (auto simp: drop less_Suc_eq replicate_app_Cons_same simp del: increment_from.simps(2))
      (auto simp: increment_from.simps(2))
qed simp

definition key_step :: "bytes \<Rightarrow> bytes \<Rightarrow> bytes \<Rightarrow> bool" where
  "key_step incs v w \<longleftrightarrow>
     \<not> list_all (\<lambda>digit. digit = 255) v \<and> v < w \<and> w = increment_from incs (length v) v"

lemma key_step_Cons:
  "key_step incs v w \<Longrightarrow> key_step (i # incs) (d # v) (d # w)"
  "d \<noteq> 255 \<and> d < e \<and> e = saturating_add_u8 d i \<Longrightarrow> key_step (i # incs) (d # replicate n 255) (e # replicate n 0)"
  by (auto simp: key_step_def increment_from_Cons list_all_length simp del: increment_from.simps)

lemma product_chain:
  assumes "successively (key_step incs) K" "K \<noteq> []" "hd K = replicate n 0" "last K = replicate n 255"
    and "successively (\<lambda>d e. d \<noteq> 255 \<and> d < e \<and> e = saturating_add_u8 d i) ds" "ds \<noteq> []"
  shows "successively (key_step (i # incs)) (concat (map (\<lambda>d. map ((#) d) K) ds))"
  using assms(5,6)
proof (induction ds)
  case (Cons d ds)
  have K: "successively (key_step (i # incs)) (map ((#) d) K)"
    unfolding successively_map by (rule successively_mono [OF assms(1)]) (rule key_step_Cons(1))
  show ?case
  proof (cases ds)
    case Nil
    then show ?thesis using K by simp
  next
    case (Cons e es)
    have de: "d \<noteq> 255 \<and> d < e \<and> e = saturating_add_u8 d i"
      using Cons.prems(1) unfolding Cons successively.simps by blast
    have "key_step (i # incs) (d # replicate n 255) (e # replicate n 0)"
      by (rule key_step_Cons(2) [OF de])
    moreover have "hd (concat (map (\<lambda>d. map ((#) d) K) ds)) = e # replicate n 0"
      using assms(2,3) by (simp add: Cons hd_append hd_map)
    moreover have "successively (key_step (i # incs)) (concat (map (\<lambda>d. map ((#) d) K) ds))"
    proof (rule Cons.IH)
      show "successively (\<lambda>d e. d \<noteq> 255 \<and> d < e \<and> e = saturating_add_u8 d i) ds"
        using Cons.prems(1) unfolding Cons successively.simps by blast
    qed (simp add: Cons)
    ultimately show ?thesis
      using K assms(2,4) by (simp add: successively_append_iff last_map)
  qed
qed simp

lemma fixed_keys_chain:
  assumes "list_all (\<lambda>i. 0 < i) incs"
  shows "successively (key_step incs) (fixed_keys incs) \<and> fixed_keys incs \<noteq> []
    \<and> hd (fixed_keys incs) = replicate (length incs) 0 \<and> last (fixed_keys incs) = replicate (length incs) 255
    \<and> (\<forall>key\<in>set (fixed_keys incs). length key = length incs)"
  using assms
proof (induction incs)
  case (Cons i incs)
  let ?K = "fixed_keys incs"
  have K: "successively (key_step incs) ?K" "?K \<noteq> []" "hd ?K = replicate (length incs) 0"
      "last ?K = replicate (length incs) 255" "\<forall>key\<in>set ?K. length key = length incs"
    using Cons by simp_all
  have "0 < i" using Cons.prems by simp
  note d = digits_chain [OF this]
  obtain ds where ds: "digits i = 0 # ds" using d(2,3) by (cases "digits i") auto
  obtain es where es: "digits i = es @ [255]" using d(2,4) by (metis append_butlast_last_id)
  have "hd (fixed_keys (i # incs)) = replicate (length (i # incs)) 0"
    using K(2,3) by (simp add: ds hd_append hd_map)
  moreover have "last (fixed_keys (i # incs)) = replicate (length (i # incs)) 255"
    using K(2,4) by (simp add: es last_append last_map)
  moreover have "fixed_keys (i # incs) \<noteq> []" using K(2) by (simp add: ds)
  ultimately show ?case
    using product_chain [OF K(1-4) d(1,2)] K(5) by auto
qed simp

lemma fixed_keys_sorted:
  assumes "list_all (\<lambda>i. 0 < i) incs"
  shows "sorted_wrt (<) (fixed_keys incs)"
proof -
  have "successively (<) (fixed_keys incs)"
    using fixed_keys_chain [OF assms] successively_mono [of "key_step incs" "fixed_keys incs" "(<)"]
    by (auto simp: key_step_def)
  then show ?thesis by (simp add: successively_conv_sorted_wrt transp_on_less)
qed

lemma length_fixed_keys:
  "length (fixed_keys incs) = prod_list (map (\<lambda>i. Suc (div_ceil 255 (unat i))) incs)"
  by (induction incs) (simp_all add: length_concat comp_def digits_def sum_list_triv)

definition fixed_left :: "fixed_length_keys \<Rightarrow> bytes list \<Rightarrow> bool" where
  "fixed_left s xs \<longleftrightarrow>
     (case next_value s of None \<Rightarrow> xs = []
      | Some key \<Rightarrow> xs \<noteq> [] \<and> hd xs = key \<and> successively (key_step (increments s)) xs
          \<and> list_all (\<lambda>digit. digit = 255) (last xs))"

interpretation fixed: forward_iterator fixed_next fixed_left
proof
  fix s xs assume left: "fixed_left s xs"
  show "\<exists>item s' xs'. fixed_next s = Ret (item, s') \<and> fixed_left s' xs'
      \<and> (case item of None \<Rightarrow> xs = [] \<and> xs' = [] | Some x \<Rightarrow> xs = x # xs')"
  proof (cases "next_value s")
    case None
    then show ?thesis using left by (auto simp: fixed_left_def fixed_next_def)
  next
    case (Some key)
    then obtain ys where ys: "xs = key # ys" "successively (key_step (increments s)) (key # ys)"
        "list_all (\<lambda>digit. digit = 255) (last (key # ys))"
      using left by (cases xs) (auto simp: fixed_left_def)
    show ?thesis
    proof (cases ys)
      case Nil
      then show ?thesis using ys by (auto simp: fixed_next_def Some fixed_left_def)
    next
      case (Cons y zs)
      have "key_step (increments s) key y" using ys(2) Cons by simp
      then have "fixed_next s = Ret (Some key, s\<lparr>next_value := Some y\<rparr>)"
        by (simp add: fixed_next_def Some key_step_def)
      then show ?thesis using ys Cons by (auto simp: fixed_left_def)
    qed
  qed
qed

lemma fixed_increments_pos:
  fixes widths :: bytes
  assumes "list_all (\<lambda>w. 0 < w) widths"
  shows "list_all (\<lambda>i. 0 < i) (map (\<lambda>w. of_nat (div_ceil 255 (unat w)) :: byte) widths)"
proof -
  have "0 < (of_nat (div_ceil 255 (unat w)) :: byte)" if "0 < w" for w :: byte
  proof -
    have w: "0 < unat w" using that by (simp add: unat_gt_0)
    have "div_ceil 255 (unat w) \<noteq> 0" using div_ceil_bounds(1) [OF w] by (intro notI) simp
    moreover have "unat (of_nat (min 255 (div_ceil 255 (unat w))) :: byte) = min 255 (div_ceil 255 (unat w))"
      by (rule digit_value)
    moreover have "div_ceil 255 (unat w) \<le> 255"
      using div_ceil_bounds(2) [OF w, of 255] w by (cases "255 < div_ceil 255 (unat w)") auto
    ultimately show ?thesis by (simp add: word_less_nat_alt)
  qed
  then show ?thesis using assms by (induction widths) simp_all
qed

lemma fixed_left_new:
  fixes widths :: bytes
  assumes "list_all (\<lambda>w. 0 < w) widths"
  defines "incs \<equiv> map (\<lambda>w. of_nat (div_ceil 255 (unat w)) :: byte) widths"
  shows "fixed_left \<lparr>increments = incs, next_value = Some (replicate (length widths) 0)\<rparr> (fixed_keys incs)"
  using fixed_keys_chain [OF fixed_increments_pos [OF assms(1)]]
  by (simp add: fixed_left_def list_all_length incs_def)

lemma fixed_length_keys_spec:
  fixes widths :: bytes
  assumes "widths \<noteq> []" "list_all (\<lambda>w. 0 < w) widths"
  defines "incs \<equiv> map (\<lambda>w. of_nat (div_ceil 255 (unat w)) :: byte) widths"
  shows "and_then (fixed_length_keys_new widths) (collect fixed_next (Suc (length (fixed_keys incs)))) = Ret (fixed_keys incs)"
    and "sorted_wrt (<) (fixed_keys incs)" "prefix_free (set (fixed_keys incs))"
proof -
  note pos = fixed_increments_pos [OF assms(2), folded incs_def]
  note chain = fixed_keys_chain [OF pos]
  from fixed.collect_spec [OF fixed_left_new [OF assms(2)], folded incs_def, of "Suc (length (fixed_keys incs))"]
  show "and_then (fixed_length_keys_new widths) (collect fixed_next (Suc (length (fixed_keys incs)))) = Ret (fixed_keys incs)"
    using assms(1,2) by (simp add: fixed_length_keys_new_def incs_def)
  show "sorted_wrt (<) (fixed_keys incs)" by (rule fixed_keys_sorted [OF pos])
  have "length a = length b" if "a \<in> set (fixed_keys incs)" "b \<in> set (fixed_keys incs)" for a b
    using chain that by simp
  then show "prefix_free (set (fixed_keys incs))"
    by (fastforce simp: prefix_free_def conflicts_def prefix_def)
qed

text \<open>The documentation promises 101 keys for a single level of width 100.\<close>

lemma fixed_keys_count:
  "length (fixed_keys (map (\<lambda>w. of_nat (div_ceil 255 (unat w))) [3, 2, 1 :: byte])) = 24"
  "length (fixed_keys (map (\<lambda>w. of_nat (div_ceil 255 (unat w))) [100 :: byte])) = 86"
  by (simp_all add: length_fixed_keys div_ceil_def Let_def del: fixed_keys.simps)

section \<open>Expanded keys\<close>

record prefix_expansion =
  base_index :: nat
  expanded_length :: nat

fun apply_expansions_from :: "bytes \<Rightarrow> bytes \<Rightarrow> nat \<Rightarrow> nat \<Rightarrow> prefix_expansion list \<Rightarrow> bytes outcome" where
  \<comment> \<open>the loop of \<open>apply_expansions_to_key\<close> and what follows it\<close>
  "apply_expansions_from old_key new_key new_key_index old_key_index [] =
     (if new_key_index \<le> length new_key \<and> old_key_index \<le> length old_key
        \<and> length new_key - new_key_index = length old_key - old_key_index
      then overwrite_at new_key new_key_index (drop old_key_index old_key) else Panic)"
| "apply_expansions_from old_key new_key new_key_index old_key_index (expansion # rest) =
     (if base_index expansion < old_key_index then Panic
      else
        let before_len = base_index expansion - old_key_index in
        and_then (slice_range old_key old_key_index (base_index expansion)) (\<lambda>before.
        and_then (overwrite_at new_key new_key_index before) (\<lambda>new_key.
        if base_index expansion < length old_key then
          and_then (overwrite_at new_key (new_key_index + before_len)
            (replicate (expanded_length expansion) (old_key ! base_index expansion))) (\<lambda>new_key.
          apply_expansions_from old_key new_key (new_key_index + (before_len + expanded_length expansion))
            (base_index expansion + 1) rest)
        else Panic)))"

definition apply_expansions_to_key :: "bytes \<Rightarrow> bytes \<Rightarrow> prefix_expansion list \<Rightarrow> bytes outcome" where
  "apply_expansions_to_key old_key new_key_template sorted_expansions =
     apply_expansions_from old_key new_key_template 0 0 sorted_expansions"

definition generate_key_with_prefix ::
    "bytes \<Rightarrow> prefix_expansion list \<Rightarrow> (fixed_length_keys \<times> bytes \<times> prefix_expansion list) outcome" where
  \<comment> \<open>the iterator over the keys, the template and the sorted expansions that the closure captures\<close>
  "generate_key_with_prefix level_widths expansions =
     (if list_all (\<lambda>expand. base_index expand < length level_widths) expansions
        \<and> list_all (\<lambda>expand. 0 < expanded_length expand) expansions
        \<and> distinct (map base_index expansions)
      then
        let sorted_expansions = sort_key base_index expansions;
            full_key_len = sum_list (map (\<lambda>expand. expanded_length expand - 1) expansions) + length level_widths;
            full_key_template = replicate full_key_len 0 in
        and_then (fixed_length_keys_new level_widths) (\<lambda>keys. Ret (keys, full_key_template, sorted_expansions))
      else Panic)"

definition expanded_next ::
    "bytes \<Rightarrow> prefix_expansion list \<Rightarrow> (fixed_length_keys, bytes) step" where
  "expanded_next full_key_template sorted_expansions s =
     and_then (fixed_next s) (\<lambda>(key, s).
     case key of None \<Rightarrow> Ret (None, s)
     | Some key \<Rightarrow> and_then (apply_expansions_to_key key full_key_template sorted_expansions) (\<lambda>key. Ret (Some key, s)))"

text \<open>Every digit is repeated as often as its expansion says, other digits are kept.\<close>

definition copies :: "prefix_expansion list \<Rightarrow> nat \<Rightarrow> nat" where
  "copies es j = (case find (\<lambda>e. base_index e = j) es of None \<Rightarrow> 1 | Some e \<Rightarrow> expanded_length e)"

fun expand_key :: "(nat \<Rightarrow> nat) \<Rightarrow> nat \<Rightarrow> bytes \<Rightarrow> bytes" where
  "expand_key c i [] = []"
| "expand_key c i (b # bs) = replicate (c i) b @ expand_key c (Suc i) bs"

lemma expand_key_append: "expand_key c i (xs @ ys) = expand_key c i xs @ expand_key c (i + length xs) ys"
  by (induction xs arbitrary: i) simp_all

lemma expand_key_ones: "(\<And>j. i \<le> j \<Longrightarrow> j < i + length xs \<Longrightarrow> c j = 1) \<Longrightarrow> expand_key c i xs = xs"
proof (induction xs arbitrary: i)
  case (Cons x xs)
  have "c i = 1" "expand_key c (Suc i) xs = xs" using Cons.prems [of i] Cons.IH [of "Suc i"] Cons.prems by auto
  then show ?case by simp
qed simp

lemma append_less_same: "xs @ ys < xs @ zs \<longleftrightarrow> ys < (zs :: bytes)"
  by (induction xs) simp_all

lemma expand_key_order:
  "length v = length w \<Longrightarrow> (\<And>j. 0 < c j) \<Longrightarrow> v < w \<Longrightarrow> expand_key c i v < expand_key c i w"
proof (induction v w arbitrary: i rule: list_induct2)
  case (Cons a v b w)
  obtain n where n: "c i = Suc n" using Cons.prems(1) [of i] gr0_implies_Suc by blast
  show ?case
  proof (cases "a < b")
    case False
    then have "a = b" "v < w" using Cons.prems(2) by auto
    then show ?thesis using Cons.IH [of "Suc i"] Cons.prems(1) by (simp add: append_less_same)
  qed (simp add: n)
qed simp

lemma overwrite_at_mid: "length src = length ys \<Longrightarrow> overwrite_at (xs @ ys @ zs) (length xs) src = Ret (xs @ src @ zs)"
  by (simp add: overwrite_at_def)

lemma apply_expansions_from_spec:
  assumes "sorted_wrt (\<lambda>e e'. base_index e < base_index e') es"
    and "\<forall>e\<in>set es. i \<le> base_index e \<and> base_index e < length key \<and> c (base_index e) = expanded_length e"
    and "\<And>j. i \<le> j \<Longrightarrow> j < length key \<Longrightarrow> j \<notin> base_index ` set es \<Longrightarrow> c j = 1"
    and "i \<le> length key" "length T = length (expand_key c i (drop i key))"
  shows "apply_expansions_from key (P @ T) (length P) i es = Ret (P @ expand_key c i (drop i key))"
  using assms
proof (induction es arbitrary: i P T)
  case Nil
  have "expand_key c i (drop i key) = drop i key" by (rule expand_key_ones) (use Nil.prems in auto)
  then show ?case using Nil.prems(4,5) by (simp add: overwrite_at_def)
next
  case (Cons e es)
  let ?b = "base_index e"
  let ?before = "take (?b - i) (drop i key)" and ?copies = "replicate (expanded_length e) (key ! ?b)"
    and ?rest = "expand_key c (Suc ?b) (drop (Suc ?b) key)"
  have b: "i \<le> ?b" "?b < length key" "c ?b = expanded_length e" using Cons.prems(2) by simp_all
  have "drop i key = ?before @ key ! ?b # drop (Suc ?b) key"
    using b(1,2) by (metis Cons_nth_drop_Suc append_take_drop_id drop_drop le_add_diff_inverse2)
  then have "expand_key c i (drop i key) = expand_key c i ?before @ ?copies @ ?rest"
    using b by (metis (no_types, lifting) expand_key.simps(2) expand_key_append length_drop length_take le_add_diff_inverse
        diff_le_mono less_imp_le_nat min.absorb2)
  moreover have "expand_key c i ?before = ?before"
    by (rule expand_key_ones) (use Cons.prems(1,3) b in fastforce)
  ultimately have E: "expand_key c i (drop i key) = ?before @ ?copies @ ?rest" by simp
  have len: "length ?before = ?b - i" and mn: "min (length key - i) (?b - i) = ?b - i" using b by simp_all
  have lT: "length T = ?b - i + (expanded_length e + length ?rest)"
    using Cons.prems(5) by (simp only: E length_append len length_replicate)
  define T1 T2 T3 where "T1 = take (?b - i) T" and "T2 = take (expanded_length e) (drop (?b - i) T)"
    and "T3 = drop (expanded_length e) (drop (?b - i) T)"
  have T: "T = T1 @ T2 @ T3" "length T1 = ?b - i" "length T2 = expanded_length e" "length T3 = length ?rest"
    using lT by (simp_all add: T1_def T2_def T3_def del: drop_drop)
  have "slice_range key i ?b = Ret ?before" using b by (simp add: slice_range_def)
  moreover have "overwrite_at (P @ T1 @ T2 @ T3) (length P) ?before = Ret (P @ ?before @ T2 @ T3)"
    by (rule overwrite_at_mid) (simp add: T mn)
  moreover have "overwrite_at ((P @ ?before) @ T2 @ T3) (length (P @ ?before)) ?copies = Ret ((P @ ?before) @ ?copies @ T3)"
    by (rule overwrite_at_mid) (simp add: T)
  moreover have "apply_expansions_from key ((P @ ?before @ ?copies) @ T3) (length (P @ ?before @ ?copies)) (Suc ?b) es
      = Ret ((P @ ?before @ ?copies) @ ?rest)"
    by (rule Cons.IH) (use Cons.prems(1-4) b T(4) in \<open>auto simp: Suc_le_eq\<close>)
  ultimately show ?case
    using b by (simp add: T(1) E mn Let_def del: take_drop drop_take)
qed

lemma copies_Cons: "copies (e # es) j = (if base_index e = j then expanded_length e else copies es j)"
  by (simp add: copies_def)

lemma copies_other: "j \<notin> base_index ` set es \<Longrightarrow> copies es j = 1"
  by (induction es) (auto simp: copies_Cons, simp add: copies_def)

lemma copies_base: "distinct (map base_index es) \<Longrightarrow> e \<in> set es \<Longrightarrow> copies es (base_index e) = expanded_length e"
  by (induction es) (auto simp: copies_Cons image_iff)

lemma copies_sorted:
  assumes "distinct (map base_index es)"
  shows "copies (sort_key base_index es) = copies es"
proof
  fix j
  have d: "distinct (map base_index (sort_key base_index es))"
    using assms by (metis distinct_map distinct_sort set_sort)
  show "copies (sort_key base_index es) j = copies es j"
  proof (cases "j \<in> base_index ` set es")
    case True
    then obtain e where "e \<in> set es" "j = base_index e" by blast
    then show ?thesis using copies_base [OF assms] copies_base [OF d] by simp
  next
    case False
    then show ?thesis by (simp add: copies_other)
  qed
qed

lemma sum_copies:
  assumes "distinct (map base_index es)" "\<forall>e\<in>set es. base_index e < n \<and> 0 < expanded_length e"
  shows "(\<Sum>j<n. copies es j) = sum_list (map (\<lambda>e. expanded_length e - 1) es) + n"
  using assms
proof (induction es)
  case Nil
  then show ?case by (simp add: copies_def)
next
  case (Cons e es)
  have "copies es (base_index e) = 1" using Cons.prems(1) by (intro copies_other) auto
  then have "copies (e # es) j = copies es j + (if j = base_index e then expanded_length e - 1 else 0)" for j
    using Cons.prems(2) by (auto simp: copies_Cons)
  then show ?case using Cons by (simp add: sum.distrib)
qed

lemma length_expand_key: "length (expand_key c i xs) = (\<Sum>j<length xs. c (i + j))"
  by (induction xs arbitrary: i) (simp_all add: sum.lessThan_Suc_shift del: sum.lessThan_Suc)

lemma apply_expansions_spec:
  assumes "distinct (map base_index es)" "\<forall>e\<in>set es. base_index e < length key \<and> 0 < expanded_length e"
    and "length T = sum_list (map (\<lambda>e. expanded_length e - 1) es) + length key"
  shows "apply_expansions_to_key key T (sort_key base_index es) = Ret (expand_key (copies es) 0 key)"
proof -
  have "sorted_wrt (<) (map base_index (sort_key base_index es))"
    using assms(1) by (simp add: strict_sorted_iff) (metis distinct_map distinct_sort set_sort)
  then have "sorted_wrt (\<lambda>e e'. base_index e < base_index e') (sort_key base_index es)"
    by (simp add: sorted_wrt_map)
  moreover have "length T = length (expand_key (copies es) 0 (drop 0 key))"
    using sum_copies [OF assms(1,2)] by (simp add: length_expand_key assms(3))
  ultimately show ?thesis
    using apply_expansions_from_spec [of "sort_key base_index es" 0 key "copies es" T "[]"] assms(1,2)
    by (simp add: apply_expansions_to_key_def copies_base copies_other)
qed

definition expanded_left ::
    "prefix_expansion list \<Rightarrow> bytes \<Rightarrow> fixed_length_keys \<Rightarrow> bytes list \<Rightarrow> bool" where
  "expanded_left es T s xs \<longleftrightarrow> distinct (map base_index es) \<and>
     (\<exists>ys. fixed_left s ys \<and> xs = map (expand_key (copies es) 0) ys \<and>
        (\<forall>y\<in>set ys. (\<forall>e\<in>set es. base_index e < length y \<and> 0 < expanded_length e)
           \<and> length T = sum_list (map (\<lambda>e. expanded_length e - 1) es) + length y))"

interpretation expanded: forward_iterator "expanded_next T (sort_key base_index es)" "expanded_left es T" for es T
proof
  fix s xs assume left: "expanded_left es T s xs"
  then obtain ys where ys: "fixed_left s ys" "xs = map (expand_key (copies es) 0) ys" "distinct (map base_index es)"
      "\<And>y. y \<in> set ys \<Longrightarrow> (\<forall>e\<in>set es. base_index e < length y \<and> 0 < expanded_length e)
        \<and> length T = sum_list (map (\<lambda>e. expanded_length e - 1) es) + length y"
    by (auto simp: expanded_left_def)
  obtain item s' ys' where f: "fixed_next s = Ret (item, s')" "fixed_left s' ys'"
      "case item of None \<Rightarrow> ys = [] \<and> ys' = [] | Some y \<Rightarrow> ys = y # ys'"
    using fixed.next_spec [OF ys(1)] by blast
  show "\<exists>item s' xs'. expanded_next T (sort_key base_index es) s = Ret (item, s') \<and> expanded_left es T s' xs'
      \<and> (case item of None \<Rightarrow> xs = [] \<and> xs' = [] | Some x \<Rightarrow> xs = x # xs')"
  proof (cases item)
    case None
    then show ?thesis using f ys(2,3) by (auto simp: expanded_next_def expanded_left_def)
  next
    case (Some y)
    then have "apply_expansions_to_key y T (sort_key base_index es) = Ret (expand_key (copies es) 0 y)"
      using f(3) ys(4) by (intro apply_expansions_spec [OF ys(3)]) auto
    then show ?thesis using f Some ys by (auto simp: expanded_next_def expanded_left_def)
  qed
qed

lemma expanded_keys_spec:
  fixes widths :: bytes
  assumes "widths \<noteq> []" "list_all (\<lambda>w. 0 < w) widths" "distinct (map base_index es)"
    and "\<forall>e\<in>set es. base_index e < length widths \<and> 0 < expanded_length e"
  defines "keys \<equiv> map (expand_key (copies es) 0) (fixed_keys (map (\<lambda>w. of_nat (div_ceil 255 (unat w))) widths))"
  shows "and_then (generate_key_with_prefix widths es) (\<lambda>(s, T, sorted).
      collect (expanded_next T sorted) (Suc (length keys)) s) = Ret keys"
    and "sorted_wrt (<) keys" "prefix_free (set keys)"
proof -
  let ?incs = "map (\<lambda>w. of_nat (div_ceil 255 (unat w)) :: byte) widths"
  let ?s = "\<lparr>increments = ?incs, next_value = Some (replicate (length widths) 0)\<rparr>"
  let ?T = "replicate (sum_list (map (\<lambda>e. expanded_length e - 1) es) + length widths) 0 :: bytes"
  note fixed = fixed_increments_pos [OF assms(2)]
  note chain = fixed_keys_chain [OF fixed]
  have left: "expanded_left es ?T ?s keys"
    unfolding expanded_left_def
    using assms(3,4) chain fixed_left_new [OF assms(2)]
    by (intro conjI exI [of _ "fixed_keys ?incs"]) (auto simp: keys_def)
  have new: "generate_key_with_prefix widths es = Ret (?s, ?T, sort_key base_index es)"
    using assms(1-4) by (simp add: generate_key_with_prefix_def fixed_length_keys_new_def list_all_iff)
  show "and_then (generate_key_with_prefix widths es) (\<lambda>(s, T, sorted).
      collect (expanded_next T sorted) (Suc (length keys)) s) = Ret keys"
    using expanded.collect_spec [OF left, of "Suc (length keys)"] by (simp add: new del: collect.simps)
  have len: "length k = length widths" if "k \<in> set (fixed_keys ?incs)" for k using chain that by simp
  have copies: "0 < copies es j" for j
    using assms(3,4) copies_base [of es] copies_other [of j es] by (cases "j \<in> base_index ` set es") auto
  show "sorted_wrt (<) keys"
    unfolding keys_def sorted_wrt_map
    by (rule sorted_wrt_mono_rel [OF _ fixed_keys_sorted [OF fixed]]) (auto intro!: expand_key_order copies simp: len)
  have "length a = length b" if "a \<in> set keys" "b \<in> set keys" for a b
    using that by (auto simp: keys_def length_expand_key len)
  then show "prefix_free (set keys)" by (fastforce simp: prefix_free_def conflicts_def prefix_def)
qed

section \<open>Trees from entries\<close>

definition insert_unchecked ::
    "nat \<Rightarrow> ('k, 'v) heap \<Rightarrow> node_ptr \<Rightarrow> 'k key \<Rightarrow> 'v
      \<Rightarrow> (insert_prefix_error + ('k, 'v) insert_result \<times> ('k, 'v) heap) outcome" where
  "insert_unchecked PREFIX_LEN hp root key v =
     and_then (search_for_insert_point hp root (as_bytes key)) (\<lambda>r.
     case r of Inl e \<Rightarrow> Ret (Inl e)
     | Inr insert_point \<Rightarrow> and_then (insert_apply PREFIX_LEN hp insert_point key v) (\<lambda>result. Ret (Inr result)))"

fun insert_entries ::
    "nat \<Rightarrow> ('k, 'v) heap \<Rightarrow> node_ptr \<Rightarrow> ('k key \<times> 'v) list \<Rightarrow> (node_ptr \<times> ('k, 'v) heap) outcome" where
  \<comment> \<open>the loop of \<open>setup_tree_from_entries\<close>\<close>
  "insert_entries PREFIX_LEN hp current_root [] = Ret (current_root, hp)"
| "insert_entries PREFIX_LEN hp current_root ((key, v) # rest) =
     and_then (insert_unchecked PREFIX_LEN hp current_root key v) (\<lambda>r.
     case r of Inl _ \<Rightarrow> Panic
     | Inr (result, hp) \<Rightarrow> insert_entries PREFIX_LEN hp (ir_new_root result) rest)"

definition setup_tree_from_entries ::
    "nat \<Rightarrow> ('k, 'v) heap \<Rightarrow> ('k key \<times> 'v) list \<Rightarrow> (node_ptr \<times> ('k, 'v) heap) outcome" where
  "setup_tree_from_entries PREFIX_LEN hp entries_it =
     (case entries_it of [] \<Rightarrow> Panic
      | (first_key, first_value) # rest \<Rightarrow>
          (case alloc_leaf hp \<lparr>leaf_key = first_key, leaf_value = first_value\<rparr> of (current_root, hp) \<Rightarrow>
           insert_entries PREFIX_LEN hp current_root rest))"

lemma insert_entries_extend:
  "extend_map N hp m xs = Ret (m', hp') \<Longrightarrow> map_root m = Some root \<Longrightarrow>
    \<exists>root'. insert_entries N hp root xs = Ret (root', hp') \<and> map_root m' = Some root'"
proof (induction xs arbitrary: hp m root)
  case (Cons x xs)
  obtain k v where x: "x = (k, v)" by (cases x)
  obtain old m1 hp1 where ins: "insert_map N hp m k v = Ret (old, m1, hp1)" "extend_map N hp1 m1 xs = Ret (m', hp')"
    using Cons.prems(1) by (auto simp: x outcome_simps)
  note insert = insert_map_def try_insert_def apply_insert_point_def Cons.prems(2)
  obtain r where r: "search_for_insert_point hp root (as_bytes k) = Ret r"
    using ins(1) by (cases "search_for_insert_point hp root (as_bytes k)") (simp_all add: insert)
  obtain point where point: "r = Inr point" using ins(1) r by (cases r) (simp_all add: insert)
  obtain res hp2 where res: "insert_apply N hp point k v = Ret (res, hp2)"
    using ins(1) r point by (cases "insert_apply N hp point k v") (auto simp: insert)
  have "hp2 = hp1" "map_root m1 = Some (ir_new_root res)"
    using ins(1) by (auto simp: insert r point res Let_def split: if_splits)
  with Cons.IH [OF ins(2)] show ?case by (simp add: x insert_unchecked_def r point res)
qed simp

text \<open>The tree is the one of the map made from the entries, if none of their keys conflict.\<close>

lemma setup_tree_spec:
  assumes "xs \<noteq> []" "\<forall>(k, v)\<in>set xs. length (as_bytes k) < 2 ^ 32" "prefix_free ((\<lambda>(k, v). as_bytes k) ` set xs)"
    and "map_state N fr with_prefix_len hp None"
  shows "\<exists>t m hp'. setup_tree_from_entries N hp xs = Ret (root_ptr t, hp') \<and> map_state N fr m hp' (Some t)
    \<and> tree_map t = map_of (rev (map (\<lambda>(k, v). (as_bytes k, (k, v))) xs))"
proof -
  obtain k v ys where xs: "xs = (k, v) # ys" using assms(1) by (cases xs) auto
  obtain m' hp' T' where e: "extend_map N hp with_prefix_len xs = Ret (m', hp')" "map_state N fr m' hp' T'"
      "opt_map T' = opt_map None ++ map_of (rev (map (\<lambda>(k, v). (as_bytes k, (k, v))) xs))"
    using extend_map_spec [OF assms(4,2)] assms(3) by auto
  obtain leaf hp1 where leaf: "alloc_leaf hp \<lparr>leaf_key = k, leaf_value = v\<rparr> = (leaf, hp1)" by (cases "alloc_leaf hp \<lparr>leaf_key = k, leaf_value = v\<rparr>")
  then have "extend_map N hp1 (with_prefix_len\<lparr>map_root := Some leaf, num_entries := 1\<rparr>) ys = Ret (m', hp')"
    using e(1) by (simp add: xs insert_map_def try_insert_def init_tree_def with_prefix_len_def)
  from insert_entries_extend [OF this] obtain root where
    "insert_entries N hp1 leaf ys = Ret (root, hp')" "map_root m' = Some root" by auto
  moreover obtain t where "T' = Some t" "root = root_ptr t"
    using e(2) calculation(2) by (cases T') (auto simp: map_state_def)
  ultimately show ?thesis using e(2,3) leaf by (auto simp: xs setup_tree_from_entries_def)
qed

end
