(* ===== verification/Spec2Isabelle.thy ===== *)
theory Spec2Isabelle
  imports Fuzzy_Search Comparisons Entry_Ref Key_Types Tagged_Pointer Visitors Dot_Printer Well_Formed Node_Laws
    Histories Fuzz_Target Word_Count Key_Generators
begin

text \<open>
  Verification library for \<open>blart\<close>, an ordered map in Rust that is an adaptive radix tree.

  \<^bold>\<open>The program.\<close>  A \<open>TreeMap\<close> (\<open>src/src/collections/map.rs\<close>) is a root pointer and the number of
  its entries.  The pointer (\<open>OpaqueNodePtr\<close>, \<open>representation.rs\<close>) carries the kind of its node
  in the low bits (\<open>tagged_pointer.rs\<close>): a leaf with a key and a value, or an inner node with
  4, 16, 48 or 256 slots, whose header (\<open>representation/header.rs\<close>) has the number of children
  and a compressed path, of which only the first \<open>PREFIX_LEN\<close> bytes are stored.  Lookup, insertion
  and deletion (\<open>nodes/operations/\<close>) walk down the tree along the bytes of the key
  (\<open>bytes.rs\<close>, \<open>bytes/mapped.rs\<close>) and change it in place: nodes grow and shrink between the kinds,
  paths are split and joined.  The map's interface is built on these: the entry interfaces
  (\<open>map/entry.rs\<close>, \<open>map/entry_ref.rs\<close>), the iterators (\<open>map/iterators/\<close>) over all entries, over
  those with a prefix and over those within an edit distance, owning iterators, comparisons,
  \<open>clone\<close>.  Visitors (\<open>nodes/visitor/\<close>) collect statistics, print the tree and check that it is
  well-formed.

  \<^bold>\<open>The model.\<close>  Theory \<open>Prelude\<close> has the machine types and the outcome of a computation: \<open>Ret\<close>,
  \<open>Panic\<close>, \<open>UB\<close> (undefined behaviour: a dangling pointer, a read of an uninitialised slot, a false
  \<open>assume!\<close> or \<open>unwrap_unchecked\<close>) or \<open>NoFuel\<close>.  Memory is a heap from addresses to nodes
  (\<open>Art_Tree\<close>); every access of the code to a node is an access to the heap, every allocation and
  deallocation is one of the heap, so a theorem that concludes \<open>Ret\<close> excludes use after free,
  double free and reads of uninitialised slots.  A typed pointer is its kind and its address.  The
  map that a method takes as \<open>&mut self\<close> is a value of the record \<open>treemap\<close> that is passed
  along with the heap.  A key is its byte representation with whatever else it holds; \<open>Clone\<close>,
  \<open>Display\<close>, \<open>Hash\<close>, closures and the comparison of values, which are the user's, are arguments.

  The shape of a tree is the datatype \<open>art\<close>, \<open>wf_art\<close> its well-formedness, \<open>represents\<close> and \<open>holds\<close>
  relate a heap to it.  \<open>map_state N fr m hp T\<close> says that the map \<open>m\<close> in the heap \<open>hp\<close> with prefix
  length \<open>N\<close> is the shape \<open>T\<close> (\<open>None\<close> if the map is empty), that the count is right, and that all
  other cells of the heap are those of the frame \<open>fr\<close>; an operation that keeps \<open>fr\<close> neither leaks
  nor touches foreign memory.  The abstract value of a map is \<open>opt_map T\<close>, a finite map from key
  bytes to entries, and \<open>opt_entries T\<close>, the entries in the order of their bytes.

  \<^bold>\<open>Theories, by component.\<close>
  \<^item> Inner nodes: \<open>Node_Type\<close> (kinds, and the trait \<open>InnerNode\<close> as the locale \<open>inner_node\<close>), \<open>Header\<close>,
    \<open>Slots\<close>, \<open>Node_Compressed\<close> (4 and 16 slots), \<open>Node48\<close>, \<open>Node256\<close>, which interpret the locale,
    \<open>Inner_Node\<close> (the dispatch over the four, which interprets it again) and \<open>Node_Laws\<close> (ranges,
    vectorised searches).  Their lemmas say that each operation is total on a node that satisfies
    its invariant and acts on the sorted list of its children as named.
  \<^item> Trees: \<open>Art_Tree\<close>, \<open>Lookup\<close>, \<open>Insert\<close>, \<open>Delete\<close>.  \<open>tree_insert\<close> and \<open>tree_delete\<close> are the
    operations on shapes; the lemmas say that the search and the update in place implement them,
    and that they are the update and the deletion of the abstract map.  The locale \<open>extreme\<close> covers
    the search for the first and for the last leaf.
  \<^item> The map: \<open>Tree_Map\<close>, \<open>Clone\<close>, \<open>Entry\<close>, \<open>Entry_Ref\<close>, \<open>Comparisons\<close>, and \<open>Histories\<close>, which puts
    them together: any sequence of calls of the interface answers as a finite map would (the
    locale \<open>simulation\<close>), and the states that calls lead to satisfy the invariant and the bounds
    on their size.  The calls include
    upserts through the entry interfaces, updates of all values through an iterator and draining
    a map from both ends.
  \<^item> Iterators: \<open>Double_Ended\<close> (the contracts \<open>forward_iterator\<close> and \<open>double_ended\<close>: a state stands for
    the list of items to come; read from the back, a double ended iterator is a forward one),
    \<open>Traversal\<close> (the loop that the iterators share, as locales over the visit of a node), \<open>Iterators\<close>,
    \<open>Mutable_Iteration\<close> (loops that write to the values while the iterator reads the tree),
    \<open>Prefix_Search\<close>, \<open>Edit_Distance\<close>, \<open>Fuzzy_Search\<close>.
  \<^item> Keys: \<open>Byte_Mapping\<close> (the locale \<open>byte_mapping\<close> is what \<open>BytesMapping\<close> and the markers promise),
    \<open>Key_Types\<close> (the unsafe traits \<open>NoPrefixesBytes\<close> and \<open>OrderedBytes\<close> as locales, with what the map
    gains from them), \<open>Tagged_Pointer\<close>.
  \<^item> Visitors: \<open>Visitors\<close> (the locale \<open>visitor\<close> and the two collectors, whose numbers are a summary
    of the list of inner nodes), \<open>Dot_Printer\<close>, \<open>Well_Formed\<close>
    (completeness, soundness and termination of the checker).
  \<^item> Clients: \<open>Fuzz_Target\<close> (\<open>src/fuzz/\<close>: whatever actions the fuzzer chooses, the target of the map
    ends without a failed assertion), \<open>Word_Count\<close> (the example \<open>count_words.rs\<close>, which rests on what
    \<open>Histories\<close> says of the entry interface) and \<open>Key_Generators\<close> (the keys of the tests).

  \<^bold>\<open>Loops and fuel.\<close>  A loop that follows pointers has a fuel argument, set to
  \<open>Suc (next_addr hp)\<close> by the definitions that stand for the functions of the source.  It is enough:
  the nodes of a tree have different addresses below \<open>next_addr hp\<close>, so their number and the height
  of the tree are smaller (lemma \<open>holds_height\<close>, \<open>length_addrs_bound\<close>); the theorems conclude
  \<open>Ret\<close>, never only that a result is right if there is one.  The checker runs on arbitrary heaps;
  there the theorems say when it returns and when it does not.  Loops over the slots of a
  node, over bytes and over rows of the distance table are structural.

  \<^bold>\<open>Widths.\<close>  Key bytes and the restricted indices of \<open>InnerNode48\<close> are words of 8 bits; the counter
  and the path length of a header are words of 16 and 32 bits with checked arithmetic, which is
  why keys are assumed shorter than \<open>2 ^ 32\<close> bytes where one is inserted; addresses are words of
  64 bits in \<open>Tagged_Pointer\<close> and numbers elsewhere; \<open>usize\<close> lengths and counts are numbers.

  \<^bold>\<open>What the development found.\<close>  \<open>VacantEntry::insert_entry\<close> returns an occupied entry with the
  pointers of before the insertion, and removing through it loses nodes
  (\<open>vacant_entry_remove_loses_tree\<close>).  \<open>range\<close> of the nodes with 4 and 16 slots is wrong for bounds
  that are no keys (\<open>compressed_range_wrong\<close>).  The checker rejects a full node with 256 slots
  (\<open>checker_on_maps\<close>) and need not return on a loop (\<open>checker_terminates\<close>).  \<open>OrderedBytes\<close>
  is not justified for paths (\<open>ordered_marks\<close>).  The word counting example panics on a text
  whose last word, which has no separator after it, begins an earlier word (\<open>count_words\<close>).

  \<^bold>\<open>Not modelled.\<close>  \<open>Range\<close>, \<open>RangeMut\<close>, \<open>ExtractIf\<close> and the functions \<open>range\<close>, \<open>range_mut\<close>,
  \<open>extract_if\<close>, \<open>retain\<close>, \<open>append\<close>, \<open>split_off\<close> of the map, which are in block comments of the source;
  \<open>Debug\<close>, \<open>Display\<close> and the ratios of the statistics in floating point, which are for people;
  \<open>rust_nightly_apis.rs\<close>, copies of functions of the standard library, but for the view of a slice as initialised and \<open>assume!\<close>; panics of the user's own
  code (\<open>Clone\<close>, closures, \<open>Drop\<close>) in the middle of an operation; threads (\<open>Send\<close> and \<open>Sync\<close> are
  markers, the library has no shared mutable state).  Of the files beside the library, the tests, the
  benchmarks, the examples that print a tree or its statistics, and the second fuzz target, which
  names functions that the crate does not export.
\<close>

end
